(* ===== verification/Prelude.thy ===== *)
theory Prelude
  imports Main "HOL-Library.Monad_Syntax" "HOL-Library.Word" "HOL-Library.Signed_Division"
begin

text \<open>
  Shared vocabulary of the development: Rust's \<open>Result\<close> as a sum type, the integer widths the
  sources use, checked and saturating primitive arithmetic, little-endian byte strings, and the
  generic list lemmas and theorem collections that the component theories build on.

  A Rust call that may panic or fail to return is modelled in \<open>option\<close>: \<open>None\<close> says that the
  call does not return a value, \<open>Some r\<close> that it returns \<open>r\<close>.
\<close>

section \<open>Results\<close>

type_synonym ('a, 'e) result = "'e + 'a"

abbreviation Ok :: "'a \<Rightarrow> 'e + 'a" where
  "Ok \<equiv> Inr"

abbreviation Err :: "'e \<Rightarrow> 'e + 'a" where
  "Err \<equiv> Inl"

text \<open>The \<open>?\<close> operator: stop with the error, or go on with the value.\<close>

definition and_then :: "'e + 'a \<Rightarrow> ('a \<Rightarrow> 'e + 'b) \<Rightarrow> 'e + 'b" where
  "and_then r f = (case r of Inl e \<Rightarrow> Inl e | Inr a \<Rightarrow> f a)"

definition map_err :: "('e \<Rightarrow> 'f) \<Rightarrow> 'e + 'a \<Rightarrow> 'f + 'a" where
  "map_err g r = (case r of Inl e \<Rightarrow> Inl (g e) | Inr a \<Rightarrow> Inr a)"

definition ok_or :: "'a option \<Rightarrow> 'e \<Rightarrow> 'e + 'a" where
  "ok_or v e = (case v of None \<Rightarrow> Inl e | Some a \<Rightarrow> Inr a)"

definition is_ok :: "'e + 'a \<Rightarrow> bool" where
  "is_ok r = (case r of Inl _ \<Rightarrow> False | Inr _ \<Rightarrow> True)"

lemma and_then_simps [simp]:
  "and_then (Inl e) f = Inl e"
  "and_then (Inr a) f = f a"
  by (simp_all add: and_then_def)

lemma and_then_Inr_iff:
  "and_then r f = Inr b \<longleftrightarrow> (\<exists>a. r = Inr a \<and> f a = Inr b)"
  by (cases r) auto

lemma and_then_Inl_iff:
  "and_then r f = Inl e \<longleftrightarrow> r = Inl e \<or> (\<exists>a. r = Inr a \<and> f a = Inl e)"
  by (cases r) auto

lemma map_err_simps [simp]:
  "map_err g (Inl e) = Inl (g e)"
  "map_err g (Inr a) = Inr a"
  by (simp_all add: map_err_def)

lemma map_err_Inr_iff [simp]: "map_err g r = Inr a \<longleftrightarrow> r = Inr a"
  by (cases r) auto

lemma ok_or_simps [simp]:
  "ok_or None e = Inl e"
  "ok_or (Some a) e = Inr a"
  by (simp_all add: ok_or_def)

lemma ok_or_Inr_iff [simp]: "ok_or v e = Inr a \<longleftrightarrow> v = Some a"
  by (cases v) auto

lemma ok_or_Inl_iff [simp]: "ok_or v e = Inl e' \<longleftrightarrow> v = None \<and> e' = e"
  by (cases v) auto

lemma is_ok_simps [simp]: "\<not> is_ok (Inl e)" "is_ok (Inr a)"
  by (simp_all add: is_ok_def)

text \<open>The \<open>?\<close> operator in a function that may also panic.\<close>

definition try_then :: "('e + 'a) option \<Rightarrow> ('a \<Rightarrow> ('e + 'b) option) \<Rightarrow> ('e + 'b) option" where
  "try_then r f = (case r of None \<Rightarrow> None | Some (Inl e) \<Rightarrow> Some (Inl e) | Some (Inr a) \<Rightarrow> f a)"

lemma try_then_simps [simp]:
  "try_then None f = None" "try_then (Some (Inl e)) f = Some (Inl e)" "try_then (Some (Inr a)) f = f a"
  by (simp_all add: try_then_def)

lemma try_then_Ok_iff: "try_then r f = Some (Ok b) \<longleftrightarrow> (\<exists>a. r = Some (Ok a) \<and> f a = Some (Ok b))"
  by (auto simp: try_then_def split: option.splits sum.splits)

lemma try_then_None_iff: "try_then r f = None \<longleftrightarrow> r = None \<or> (\<exists>a. r = Some (Ok a) \<and> f a = None)"
  by (auto simp: try_then_def split: option.splits sum.splits)

section \<open>Machine integers\<close>

text \<open>
  A signed Rust integer is an \<open>int\<close> inside the range of its width; the width is a value, because
  the scalar types of \<open>types/src/fixed.rs\<close> come from one macro over it. Every operation of the
  sources that can leave the range is one of the checked or saturating primitives below.
\<close>

datatype width = I64 | I128

fun int_max :: "width \<Rightarrow> int" where
  "int_max I64 = 9223372036854775807"
| "int_max I128 = 170141183460469231731687303715884105727"

fun int_min :: "width \<Rightarrow> int" where
  "int_min I64 = - 9223372036854775808"
| "int_min I128 = - 170141183460469231731687303715884105728"

definition fits :: "width \<Rightarrow> int \<Rightarrow> bool" where
  "fits w x \<longleftrightarrow> int_min w \<le> x \<and> x \<le> int_max w"

definition prim_checked :: "width \<Rightarrow> int \<Rightarrow> int option" where
  "prim_checked w x = (if fits w x then Some x else None)"

definition prim_saturate :: "width \<Rightarrow> int \<Rightarrow> int" where
  "prim_saturate w x = max (int_min w) (min (int_max w) x)"

lemma int_max_pow: "int_max I64 = 2 ^ 63 - 1" "int_max I128 = 2 ^ 127 - 1"
  by simp_all

lemma int_min_pow: "int_min I64 = - (2 ^ 63)" "int_min I128 = - (2 ^ 127)"
  by simp_all

lemma int_min_le_0 [simp]: "int_min w \<le> 0"
  by (cases w) simp_all

lemma int_max_ge_0 [simp]: "0 \<le> int_max w"
  by (cases w) simp_all

lemma fits_0 [simp]: "fits w 0"
  by (simp add: fits_def)

lemma fits_between: "fits w a \<Longrightarrow> fits w b \<Longrightarrow> a \<le> x \<Longrightarrow> x \<le> b \<Longrightarrow> fits w x"
  by (simp add: fits_def)

lemma fits_nonneg_le: "fits w b \<Longrightarrow> 0 \<le> x \<Longrightarrow> x \<le> b \<Longrightarrow> fits w x"
  by (rule fits_between [OF fits_0])

lemma fits_widen: "fits I64 x \<Longrightarrow> fits I128 x"
  by (simp add: fits_def)

lemma prim_checked_Some [simp]: "prim_checked w x = Some y \<longleftrightarrow> y = x \<and> fits w x"
  by (auto simp: prim_checked_def)

lemma prim_checked_None [simp]: "prim_checked w x = None \<longleftrightarrow> \<not> fits w x"
  by (simp add: prim_checked_def)

lemma prim_checked_fits: "fits w x \<Longrightarrow> prim_checked w x = Some x"
  by simp

lemma prim_saturate_fits [simp]: "fits w (prim_saturate w x)"
  by (cases w) (auto simp: fits_def prim_saturate_def)

lemma prim_saturate_id: "fits w x \<Longrightarrow> prim_saturate w x = x"
  by (simp add: fits_def prim_saturate_def)

text \<open>Unsigned bounds: \<open>u32\<close> and \<open>u64\<close> values are \<open>nat\<close>s below these.\<close>

definition u32_max :: nat where "u32_max = 4294967295"
definition u64_max :: nat where "u64_max = 18446744073709551615"

section \<open>Truncating division\<close>

text \<open>Rust's \<open>/\<close> and \<open>%\<close> round toward zero: HOL's \<open>sdiv\<close> and \<open>smod\<close>.\<close>

lemma sdiv_nonneg: "0 \<le> a \<Longrightarrow> 0 < b \<Longrightarrow> (a::int) sdiv b = a div b"
  by (cases "a = 0") (simp_all add: signed_divide_int_def)

lemma sdiv_neg: "a < 0 \<Longrightarrow> 0 < b \<Longrightarrow> (a::int) sdiv b = - (- a div b)"
  by (simp add: signed_divide_int_def)

lemma smod_eq: "(a::int) smod b = a - a sdiv b * b"
  by (rule minus_sdiv_mult_eq_smod [symmetric])

lemma smod_nonneg: "0 \<le> a \<Longrightarrow> 0 < b \<Longrightarrow> (a::int) smod b = a mod b"
  by (simp only: smod_eq sdiv_nonneg minus_div_mult_eq_mod)

lemma div_le_self: "0 \<le> a \<Longrightarrow> 0 < b \<Longrightarrow> (a::int) div b \<le> a"
  using zdiv_mono2 [of a 1 b] by simp

lemma abs_sdiv_le: "0 < b \<Longrightarrow> \<bar>(a::int) sdiv b\<bar> \<le> \<bar>a\<bar>"
proof (cases "0 \<le> a")
  case True
  assume "0 < b"
  with True show ?thesis
    by (simp add: sdiv_nonneg pos_imp_zdiv_nonneg_iff div_le_self)
next
  case False
  assume "0 < b"
  with False show ?thesis
    by (simp add: sdiv_neg pos_imp_zdiv_nonneg_iff div_le_self)
qed

lemma fits_sdiv: "fits w a \<Longrightarrow> 0 < b \<Longrightarrow> fits w (a sdiv b)"
proof (cases "0 \<le> a")
  case True
  assume "fits w a" "0 < b"
  with True show ?thesis
    by (intro fits_between [OF fits_0 \<open>fits w a\<close>])
      (simp_all add: sdiv_nonneg pos_imp_zdiv_nonneg_iff div_le_self)
next
  case False
  assume "fits w a" "0 < b"
  moreover have "- a div b \<le> - a" "0 \<le> - a div b"
    using False \<open>0 < b\<close> by (simp_all add: div_le_self pos_imp_zdiv_nonneg_iff)
  ultimately show ?thesis
    using False by (intro fits_between [OF \<open>fits w a\<close> fits_0]) (simp_all add: sdiv_neg)
qed

section \<open>Byte strings\<close>

type_synonym byte = "8 word"
type_synonym bytes = "byte list"

section \<open>Lists\<close>

lemma distinct_middle:
  "distinct (xs @ y # ys) \<Longrightarrow> y \<notin> set xs \<and> y \<notin> set ys \<and> distinct (xs @ ys)"
  by auto

lemma sum_list_split: "sum_list (map f (xs @ y # ys)) = f y + sum_list (map f (xs @ ys))"
  for f :: "'a \<Rightarrow> int"
  by simp

lemma sum_list_pos_le: "(\<And>x. x \<in> set xs \<Longrightarrow> 0 \<le> f x) \<Longrightarrow> y \<in> set xs \<Longrightarrow> f y \<le> sum_list (map f xs)"
  for f :: "'a \<Rightarrow> int"
proof (induction xs)
  case Nil
  then show ?case by simp
next
  case (Cons x xs)
  have "0 \<le> sum_list (map f xs)"
    using Cons.prems(1) by (intro sum_list_nonneg) auto
  moreover have "y \<noteq> x \<Longrightarrow> f y \<le> sum_list (map f xs)"
    using Cons by simp
  moreover have "0 \<le> f x"
    using Cons.prems(1) by simp
  ultimately show ?case
    by (cases "y = x") auto
qed

end
