(* ===== verification/Fixed.thy ===== *)
theory Fixed
  imports Prelude
begin

text \<open>
  The fixed-point scalars of \<open>crates/types/src/fixed.rs\<close> and the identifiers of
  \<open>crates/types/src/ids.rs\<close>. \<open>Price\<close>, \<open>Quantity\<close> and \<open>Ratio\<close> are \<open>i64\<close> and \<open>Amount\<close> is \<open>i128\<close>, all at
  scale one million; the macro \<open>define_scalar!\<close> is the group of \<open>scalar_\<close> operations over a width.
\<close>

section \<open>The scalar types\<close>

type_synonym price = int
type_synonym quantity = int
type_synonym amount = int
type_synonym ratio = int

definition PRICE_SCALE :: int where "PRICE_SCALE = 1000000"
definition QTY_SCALE :: int where "QTY_SCALE = 1000000"
definition AMOUNT_SCALE :: int where "AMOUNT_SCALE = 1000000"
definition RATIO_SCALE :: int where "RATIO_SCALE = 1000000"

lemmas scale_defs = PRICE_SCALE_def QTY_SCALE_def AMOUNT_SCALE_def RATIO_SCALE_def

datatype arith_error = ArithOverflow | DivByZero | ArithOutOfRange

definition scalar_checked_add :: "width \<Rightarrow> int \<Rightarrow> int \<Rightarrow> (int, arith_error) result" where
  "scalar_checked_add w a b = ok_or (prim_checked w (a + b)) ArithOverflow"

definition scalar_checked_sub :: "width \<Rightarrow> int \<Rightarrow> int \<Rightarrow> (int, arith_error) result" where
  "scalar_checked_sub w a b = ok_or (prim_checked w (a - b)) ArithOverflow"

definition scalar_saturating_add :: "width \<Rightarrow> int \<Rightarrow> int \<Rightarrow> int" where
  "scalar_saturating_add w a b = prim_saturate w (a + b)"

definition scalar_saturating_sub :: "width \<Rightarrow> int \<Rightarrow> int \<Rightarrow> int" where
  "scalar_saturating_sub w a b = prim_saturate w (a - b)"

section \<open>Amount, Price and Ratio\<close>

definition mul_ratio :: "amount \<Rightarrow> ratio \<Rightarrow> (amount, arith_error) result" where
  "mul_ratio a r =
     and_then (ok_or (prim_checked I128 (a * r)) ArithOverflow)
       (\<lambda>product. Ok (product sdiv RATIO_SCALE))"

text \<open>The last step of both ceiling operations: the truncated quotient, plus one when the
  remainder is positive.\<close>

definition ceil_quotient :: "int \<Rightarrow> int \<Rightarrow> (int, arith_error) result" where
  "ceil_quotient product divisor =
     (let quotient = product sdiv divisor; remainder = product smod divisor
      in if remainder > 0 then ok_or (prim_checked I128 (quotient + 1)) ArithOverflow
         else Ok quotient)"

definition mul_ratio_ceil :: "amount \<Rightarrow> ratio \<Rightarrow> (amount, arith_error) result" where
  "mul_ratio_ceil a r =
     and_then (ok_or (prim_checked I128 (a * r)) ArithOverflow)
       (\<lambda>product. ceil_quotient product RATIO_SCALE)"

definition from_quantity :: "quantity \<Rightarrow> amount" where
  "from_quantity q = q"

definition notional_divisor :: int where
  "notional_divisor = (PRICE_SCALE * QTY_SCALE) sdiv AMOUNT_SCALE"

definition notional :: "price \<Rightarrow> quantity \<Rightarrow> (amount, arith_error) result" where
  "notional p q =
     and_then (ok_or (prim_checked I128 (p * q)) ArithOverflow)
       (\<lambda>product. Ok (product sdiv notional_divisor))"

definition notional_ceil :: "price \<Rightarrow> quantity \<Rightarrow> (amount, arith_error) result" where
  "notional_ceil p q =
     and_then (ok_or (prim_checked I128 (p * q)) ArithOverflow)
       (\<lambda>product. ceil_quotient product notional_divisor)"

definition from_bps :: "int \<Rightarrow> (ratio, arith_error) result" where
  "from_bps bps = ok_or (prim_checked I64 (bps * (RATIO_SCALE sdiv 10000))) ArithOverflow"

section \<open>Identifiers and sequence numbers\<close>

type_synonym account_id = nat
type_synonym market_id = nat
type_synonym order_id = nat
type_synonym sequence_number = nat

datatype sequence_error = Exhausted

definition seq_next :: "sequence_number \<Rightarrow> (sequence_number, sequence_error) result" where
  "seq_next s = (if s + 1 \<le> u64_max then Ok (s + 1) else Err Exhausted)"

definition follows :: "sequence_number \<Rightarrow> sequence_number \<Rightarrow> bool" where
  "follows s prev \<longleftrightarrow> s = (prev + 1) mod (u64_max + 1)"

section \<open>The contract of a scalar type\<close>

text \<open>
  What the macro promises of every scalar it defines: the checked operations are exact or report
  an overflow, the saturating ones clamp into the type. The laws of the clients follow from these
  alone, for each of the four types.
\<close>

locale checked_scalar =
  fixes ty :: "int \<Rightarrow> bool"
    and add :: "int \<Rightarrow> int \<Rightarrow> (int, arith_error) result"
    and sub :: "int \<Rightarrow> int \<Rightarrow> (int, arith_error) result"
    and sat_sub :: "int \<Rightarrow> int \<Rightarrow> int"
  assumes add_law: "add a b = (if ty (a + b) then Ok (a + b) else Err ArithOverflow)"
    and sub_law: "sub a b = (if ty (a - b) then Ok (a - b) else Err ArithOverflow)"
    and sat_sub_ty: "ty (sat_sub a b)"
    and sat_sub_exact: "ty (a - b) \<Longrightarrow> sat_sub a b = a - b"
    and ty_zero: "ty 0"
    and ty_convex: "ty a \<Longrightarrow> ty b \<Longrightarrow> a \<le> x \<Longrightarrow> x \<le> b \<Longrightarrow> ty x"
begin

lemma add_ok_iff: "add a b = Ok c \<longleftrightarrow> c = a + b \<and> ty c"
  by (auto simp: add_law)

lemma add_err_iff: "add a b = Err e \<longleftrightarrow> \<not> ty (a + b) \<and> e = ArithOverflow"
  by (auto simp: add_law)

lemma sub_ok_iff: "sub a b = Ok c \<longleftrightarrow> c = a - b \<and> ty c"
  by (auto simp: sub_law)

lemma add_sub_inverse: "ty a \<Longrightarrow> add a b = Ok c \<Longrightarrow> sub c b = Ok a"
  by (simp add: add_ok_iff sub_ok_iff)

lemma sub_within: "ty a \<Longrightarrow> 0 \<le> b \<Longrightarrow> b \<le> a \<Longrightarrow> sub a b = Ok (a - b)"
  using ty_convex [of 0 a "a - b"] by (simp add: sub_law ty_zero)

lemma sat_sub_within: "ty a \<Longrightarrow> 0 \<le> b \<Longrightarrow> b \<le> a \<Longrightarrow> sat_sub a b = a - b"
  using ty_convex [of 0 a "a - b"] by (simp add: sat_sub_exact ty_zero)

end

interpretation i64: checked_scalar "fits I64" "scalar_checked_add I64" "scalar_checked_sub I64"
  "scalar_saturating_sub I64"
  by unfold_locales
    (auto simp: scalar_checked_add_def scalar_checked_sub_def scalar_saturating_sub_def
      prim_saturate_id ok_or_def prim_checked_def intro: fits_between)

interpretation i128: checked_scalar "fits I128" "scalar_checked_add I128" "scalar_checked_sub I128"
  "scalar_saturating_sub I128"
  by unfold_locales
    (auto simp: scalar_checked_add_def scalar_checked_sub_def scalar_saturating_sub_def
      prim_saturate_id ok_or_def prim_checked_def intro: fits_between)

lemma notional_divisor_eq: "notional_divisor = 1000000"
  by (simp add: notional_divisor_def scale_defs)

lemma ceil_quotient_spec:
  assumes "0 < d" and "fits I128 p" and "d \<noteq> 1"
  shows "ceil_quotient p d = Ok (if 0 \<le> p then (p + d - 1) div d else p sdiv d)"
proof (cases "0 < p smod d")
  case True
  have pos: "0 < p"
    using True smod_int_compares(4) [of p d] assms(1) by linarith
  then have rem: "p smod d = p mod d" and quo: "p sdiv d = p div d"
    using assms(1) by (simp_all add: smod_nonneg sdiv_nonneg)
  have "(p + d - 1) div d = p div d + 1"
  proof -
    have "p + d - 1 = (p div d + 1) * d + (p mod d - 1)"
      using div_mult_mod_eq [of p d] by (simp add: algebra_simps)
    moreover have "0 \<le> p mod d - 1" "p mod d - 1 < d"
      using True rem assms(1) pos_mod_bound [of d p] by linarith+
    ultimately show ?thesis
      by (intro int_div_pos_eq [of _ d _ "p mod d - 1"]) (simp_all add: algebra_simps)
  qed
  moreover have "fits I128 (p div d + 1)"
  proof -
    have "p div d + 1 \<le> p"
    proof -
      have "2 * (p div d) \<le> p div d * d"
        using assms(1,3) pos
        by (metis mult.commute mult_right_mono pos_imp_zdiv_nonneg_iff order_less_imp_le
            zle_add1_eq_le one_add_one zless_imp_add1_zle nless_le int_one_le_iff_zero_less)
      moreover have "p div d * d + p mod d = p" by simp
      ultimately show ?thesis
        using True rem pos_imp_zdiv_nonneg_iff [OF assms(1), of p] pos by linarith
    qed
    then show ?thesis
      using assms(1) pos by (intro fits_nonneg_le [OF assms(2)]) (simp_all add: pos_imp_zdiv_nonneg_iff)
  qed
  ultimately show ?thesis
    using True pos by (simp add: ceil_quotient_def quo)
next
  case False
  show ?thesis
  proof (cases "0 \<le> p")
    case True
    with False assms(1) have "p mod d = 0" and "p sdiv d = p div d"
      using smod_nonneg [of p d] pos_mod_sign [of d p] by (auto simp: sdiv_nonneg order_antisym_conv)
    then obtain k where "p = d * k" by auto
    then have "(p + d - 1) div d = p div d"
      using assms(1) by (simp add: div_pos_pos_trivial add_diff_eq [symmetric])
    with False True show ?thesis
      by (simp add: ceil_quotient_def \<open>p sdiv d = p div d\<close>)
  next
    case False
    with \<open>\<not> 0 < p smod d\<close> show ?thesis by (simp add: ceil_quotient_def)
  qed
qed

section \<open>Properties\<close>

text \<open>Two \<open>i64\<close> operands never overflow the \<open>i128\<close> product, so a notional is always defined.\<close>

lemma i64_product_fits:
  assumes "fits I64 p" and "fits I64 q"
  shows "fits I128 (p * q)"
proof -
  have "\<bar>p\<bar> \<le> 2 ^ 63" "\<bar>q\<bar> \<le> 2 ^ 63"
    using assms by (auto simp: fits_def)
  then have "\<bar>p * q\<bar> \<le> 2 ^ 63 * 2 ^ 63"
    unfolding abs_mult by (intro mult_mono) simp_all
  then show ?thesis
    by (auto simp: fits_def abs_le_iff)
qed

lemma notional_i64:
  "fits I64 p \<Longrightarrow> fits I64 q \<Longrightarrow> notional p q = Ok ((p * q) sdiv 1000000)"
  by (simp add: notional_def prim_checked_fits i64_product_fits notional_divisor_eq)

lemma notional_ceil_i64:
  "fits I64 p \<Longrightarrow> fits I64 q \<Longrightarrow>
   notional_ceil p q = Ok (if 0 \<le> p * q then (p * q + 999999) div 1000000 else (p * q) sdiv 1000000)"
  by (simp add: notional_ceil_def prim_checked_fits i64_product_fits notional_divisor_eq
      ceil_quotient_spec add.commute)

lemma ceil_div_bounds:
  fixes p :: int
  shows "p \<le> (p + 999999) div 1000000 * 1000000"
    and "(p + 999999) div 1000000 * 1000000 < p + 1000000"
    and "(p + 999999) div 1000000 - p div 1000000 \<le> 1"
    and "p div 1000000 \<le> (p + 999999) div 1000000"
  using mult_div_mod_eq [of 1000000 p] pos_mod_bound [of 1000000 p] pos_mod_sign [of 1000000 p]
    mult_div_mod_eq [of 1000000 "p + 999999"] pos_mod_bound [of 1000000 "p + 999999"]
    pos_mod_sign [of 1000000 "p + 999999"]
  by linarith+

lemma neg_sdiv_bounds:
  assumes "(n :: int) < 0"
  shows "n \<le> n sdiv 1000000 * 1000000" and "(n sdiv 1000000 - 1) * 1000000 < n" and "n sdiv 1000000 \<le> 0"
proof -
  have quo: "n sdiv 1000000 = - (- n div 1000000)"
    using assms by (simp add: sdiv_neg)
  have div: "- n div 1000000 * 1000000 + - n mod 1000000 = - n" and mod: "0 \<le> - n mod 1000000" "- n mod 1000000 < 1000000"
    by simp_all
  show "n \<le> n sdiv 1000000 * 1000000" "(n sdiv 1000000 - 1) * 1000000 < n"
    unfolding quo left_diff_distrib using div mod by linarith+
  show "n sdiv 1000000 \<le> 0"
    unfolding quo using assms by (simp add: pos_imp_zdiv_nonneg_iff)
qed

text \<open>C25 (bounds). Notional value of a price and a quantity: for every pair of \<open>i64\<close> operands, of either sign,
  both roundings are defined (the product cannot leave \<open>i128\<close>). The value is the exact one cut toward zero, so
  the floor of a non-negative product and the ceiling of a negative one; the ceiling value is the ceiling of the
  exact one for both signs; and the two differ by at most one micro-unit.
\<close>

theorem notional_rounding:
  assumes "fits I64 p" and "fits I64 q"
  shows "\<exists>lo hi. notional p q = Ok lo \<and> notional_ceil p q = Ok hi \<and>
           (0 \<le> p * q \<longrightarrow> lo * 1000000 \<le> p * q \<and> p * q < (lo + 1) * 1000000) \<and>
           (p * q < 0 \<longrightarrow> p * q \<le> lo * 1000000 \<and> (lo - 1) * 1000000 < p * q \<and> lo \<le> 0) \<and>
           p * q \<le> hi * 1000000 \<and> hi * 1000000 < p * q + 1000000 \<and> lo \<le> hi \<and> hi \<le> lo + 1"
proof (cases "0 \<le> p * q")
  case True
  let ?n = "p * q"
  have lo: "notional p q = Ok (?n div 1000000)"
    using assms True by (simp add: notional_i64 sdiv_nonneg)
  have hi: "notional_ceil p q = Ok ((?n + 999999) div 1000000)"
    using assms True by (simp add: notional_ceil_i64)
  have "?n div 1000000 * 1000000 \<le> ?n" "?n < (?n div 1000000 + 1) * 1000000"
    using mult_div_mod_eq [of 1000000 ?n] pos_mod_bound [of 1000000 ?n] pos_mod_sign [of 1000000 ?n]
    by (simp_all add: distrib_right)
  with lo hi True ceil_div_bounds [of ?n] show ?thesis
    by (intro exI [of _ "?n div 1000000"] exI [of _ "(?n + 999999) div 1000000"]) auto
next
  case False
  let ?t = "(p * q) sdiv 1000000"
  have "notional p q = Ok ?t" "notional_ceil p q = Ok ?t"
    using assms False by (simp_all add: notional_i64 notional_ceil_i64)
  with False neg_sdiv_bounds [of "p * q"] show ?thesis
    by (intro exI [of _ ?t]) (auto simp: algebra_simps)
qed

lemma notional_rounding_witness:
  "\<exists>lo hi. notional (- 1500001) 3 = Ok lo \<and> notional_ceil (- 1500001) 3 = Ok hi \<and>
     - 4500003 \<le> lo * 1000000 \<and> (lo - 1) * 1000000 < - 4500003 \<and> - 4500003 \<le> hi * 1000000 \<and>
     hi * 1000000 < - 4500003 + 1000000"
  using notional_rounding [of "- 1500001" 3] by (auto simp: fits_def)

text \<open>The overflow error of the two operations has no \<open>i64\<close> operands that cause it.\<close>

lemma notional_never_overflows:
  "fits I64 p \<Longrightarrow> fits I64 q \<Longrightarrow> notional p q \<noteq> Err ArithOverflow \<and> notional_ceil p q \<noteq> Err ArithOverflow"
  by (simp add: notional_i64 notional_ceil_i64)

end
