(* ===== verification/Errors.thy ===== *)
theory Errors
  imports Prelude
begin

text \<open>
  The error types of the order-book crate: \<open>crates/orderbook/src/error.rs\<close> and the state-codec errors
  of \<open>crates/orderbook/src/state.rs\<close>. The \<open>&'static str\<close> fields are kept as strings.
\<close>

datatype slab_error = SlabCapacityExhausted | InvalidSlot | NotOccupied

datatype order_error =
    NonPositiveQuantity
  | NonPositivePrice
  | CapacityExhausted
  | UnknownOrder
  | NotOwner
  | OrderOverflow
  | BasketTooLarge
  | BasketDuplicateId
  | DuplicateOrderId

datatype book_state_error =
    EncodedBytesLimit nat nat
  | ResourceLimit string nat nat
  | UnsupportedVersion nat nat
  | Truncated nat nat nat
  | TrailingBytes nat
  | InvalidTag string nat
  | NativeWidth string nat
  | ArithmeticOverflow string
  | NonCanonical string
  | InvalidValue string
  | CanonicalEncodingMismatch
  | RootMismatch

end
