(* ===== verification/Slab.thy ===== *)
theory Slab
  imports Errors
begin

text \<open>
  The fixed-capacity arena of \<open>crates/orderbook/src/slab.rs\<close>: a vector of slots, each occupied or a
  link of a LIFO free list. A slot index is a \<open>u32\<close>, kept as a \<open>nat\<close>; \<open>NIL\<close> ends a chain.
  Growing past a \<open>usize\<close> is not modelled (the vector would not fit in memory); an out-of-range
  index and an underflow of \<open>len\<close>, which abort the call, are \<open>None\<close>.
\<close>

section \<open>State and operations\<close>

definition NIL :: nat where "NIL = u32_max"

datatype 'a entry = Occupied 'a | Free nat

record 'a slab =
  slots :: "'a entry list"
  free_head :: nat
  live :: nat
  capacity :: nat

definition with_capacity :: "nat \<Rightarrow> 'a slab" where
  "with_capacity n = \<lparr>slots = [], free_head = NIL, live = 0, capacity = n\<rparr>"

definition slab_is_full :: "'a slab \<Rightarrow> bool" where
  "slab_is_full s \<longleftrightarrow> live s = capacity s"

definition slab_insert :: "'a slab \<Rightarrow> 'a \<Rightarrow> ((nat, slab_error) result \<times> 'a slab) option" where
  "slab_insert s v =
     (if free_head s \<noteq> NIL then
        (let idx = free_head s in
         if idx < length (slots s) then
           (case slots s ! idx of
              Free nxt \<Rightarrow>
                Some (Ok idx, s\<lparr>slots := (slots s)[idx := Occupied v], free_head := nxt,
                                live := live s + 1\<rparr>)
            | Occupied _ \<Rightarrow> Some (Err InvalidSlot, s))
         else None)
      else if length (slots s) \<ge> capacity s then Some (Err SlabCapacityExhausted, s)
      else if length (slots s) > u32_max then Some (Err SlabCapacityExhausted, s)
      else Some (Ok (length (slots s)),
                 s\<lparr>slots := slots s @ [Occupied v], live := live s + 1\<rparr>))"

definition slab_remove :: "'a slab \<Rightarrow> nat \<Rightarrow> (('a, slab_error) result \<times> 'a slab) option" where
  "slab_remove s idx =
     (if idx \<ge> length (slots s) then Some (Err InvalidSlot, s)
      else case slots s ! idx of
        Free _ \<Rightarrow> Some (Err NotOccupied, s)
      | Occupied v \<Rightarrow>
          if live s = 0 then None
          else Some (Ok v, s\<lparr>slots := (slots s)[idx := Free (free_head s)], free_head := idx,
                             live := live s - 1\<rparr>))"

definition slab_get :: "'a slab \<Rightarrow> nat \<Rightarrow> 'a option" where
  "slab_get s idx =
     (if idx < length (slots s)
      then case slots s ! idx of Occupied v \<Rightarrow> Some v | Free _ \<Rightarrow> None
      else None)"

text \<open>\<open>if let Some(n) = slab.get_mut(i) { *n = f(n) }\<close>.\<close>

definition slab_modify :: "'a slab \<Rightarrow> nat \<Rightarrow> ('a \<Rightarrow> 'a) \<Rightarrow> 'a slab" where
  "slab_modify s idx f =
     (if idx < length (slots s)
      then case slots s ! idx of
             Occupied v \<Rightarrow> s\<lparr>slots := (slots s)[idx := Occupied (f v)]\<rparr>
           | Free _ \<Rightarrow> s
      else s)"

section \<open>The representation check\<close>

fun is_free :: "'a entry \<Rightarrow> bool" where
  "is_free (Free _) = True"
| "is_free (Occupied _) = False"

text \<open>The walk along the free list, with the number of links seen so far.\<close>

function free_walk :: "'a entry list \<Rightarrow> nat \<Rightarrow> nat \<Rightarrow> nat \<Rightarrow> (nat, book_state_error) result" where
  "free_walk es stored current seen =
     (if current = NIL then Ok seen
      else if current \<ge> length es then Err (InvalidValue ''slab free list must reference an existing entry'')
      else case es ! current of
        Free nxt \<Rightarrow> if seen \<ge> stored then Err (InvalidValue ''slab free list must not contain a cycle'') else free_walk es stored nxt (seen + 1)
      | Occupied _ \<Rightarrow> Err (InvalidValue ''slab free list must reference only free entries''))"
  by pat_completeness auto
termination
  by (relation "measure (\<lambda>(es, stored, current, seen). stored - seen)") auto

declare free_walk.simps [simp del]

definition slab_validate :: "'a slab \<Rightarrow> nat \<Rightarrow> (unit, book_state_error) result" where
  "slab_validate s expected_capacity =
     (if capacity s \<noteq> expected_capacity then Err (InvalidValue ''slab capacity must match the logical book configuration'')
      else if length (slots s) > capacity s then Err (InvalidValue ''slab entries must not exceed capacity'')
      else if length (filter (\<lambda>e. \<not> is_free e) (slots s)) \<noteq> live s then Err (InvalidValue ''slab live count must equal its occupied entries'')
      else let stored_free = length (filter is_free (slots s)) in
        and_then (free_walk (slots s) stored_free (free_head s) 0)
          (\<lambda>free_count. if free_count \<noteq> stored_free then Err (InvalidValue ''slab free list must cover every free entry exactly once'') else Ok ()))"

section \<open>The invariant\<close>

fun free_chain :: "'a entry list \<Rightarrow> nat \<Rightarrow> nat list \<Rightarrow> bool" where
  "free_chain es h [] \<longleftrightarrow> h = NIL"
| "free_chain es h (i # is) \<longleftrightarrow>
     h = i \<and> i \<noteq> NIL \<and> i < length es \<and> (\<exists>nxt. es ! i = Free nxt \<and> free_chain es nxt is)"

definition free_slots :: "'a entry list \<Rightarrow> nat set" where
  "free_slots es = {i. i < length es \<and> is_free (es ! i)}"

definition occupied :: "'a slab \<Rightarrow> nat set" where
  "occupied s = {i. slab_get s i \<noteq> None}"

definition slab_wf :: "'a slab \<Rightarrow> bool" where
  "slab_wf s \<longleftrightarrow>
     length (slots s) \<le> capacity s \<and> capacity s \<le> u32_max \<and>
     live s = length (filter (\<lambda>e. \<not> is_free e) (slots s)) \<and>
     (\<exists>fl. free_chain (slots s) (free_head s) fl \<and> distinct fl \<and> set fl = free_slots (slots s))"

section \<open>Lemmas on the free list\<close>

lemma is_free_iff: "is_free e \<longleftrightarrow> (\<exists>n. e = Free n)"
  by (cases e) auto

lemma free_chain_update:
  "i \<notin> set fl \<Longrightarrow> free_chain (es[i := e]) h fl = free_chain es h fl"
  by (induction fl arbitrary: h) (auto simp: nth_list_update)

lemma free_chain_append:
  "free_chain es h fl \<Longrightarrow> free_chain (es @ [e]) h fl"
  by (induction fl arbitrary: h) (auto simp: nth_append)

lemma free_chain_in_free: "free_chain es h fl \<Longrightarrow> set fl \<subseteq> free_slots es"
  by (induction fl arbitrary: h) (auto simp: free_slots_def)

lemma free_slots_update:
  "i < length es \<Longrightarrow>
   free_slots (es[i := e]) = (if is_free e then insert i (free_slots es) else free_slots es - {i})"
  by (auto simp: free_slots_def nth_list_update)

lemma free_slots_snoc: "\<not> is_free e \<Longrightarrow> free_slots (es @ [e]) = free_slots es"
  by (auto simp: free_slots_def nth_append less_Suc_eq split: if_splits)

lemma card_free_slots: "card (free_slots es) = length (filter is_free es)"
  unfolding free_slots_def by (simp add: length_filter_conv_card)

lemma length_filter_update:
  "i < length es \<Longrightarrow>
   length (filter P (es[i := e])) + (if P (es ! i) then 1 else 0) =
   length (filter P es) + (if P e then 1 else (0::nat))"
proof (induction es arbitrary: i)
  case Nil
  then show ?case by simp
next
  case (Cons x es)
  then show ?case by (cases i) auto
qed

lemma not_free_count:
  "length (filter (\<lambda>e. \<not> is_free e) es) + length (filter is_free es) = length es"
  using sum_length_filter_compl [of is_free es] by simp

section \<open>The arena interface\<close>

text \<open>
  What the price levels and the book rely on. The client lemmas are proved from these laws.
\<close>

locale arena =
  fixes wf :: "'s \<Rightarrow> bool"
    and get :: "'s \<Rightarrow> nat \<Rightarrow> 'a option"
    and modify :: "'s \<Rightarrow> nat \<Rightarrow> ('a \<Rightarrow> 'a) \<Rightarrow> 's"
    and insert :: "'s \<Rightarrow> 'a \<Rightarrow> ((nat, slab_error) result \<times> 's) option"
    and remove :: "'s \<Rightarrow> nat \<Rightarrow> (('a, slab_error) result \<times> 's) option"
    and len :: "'s \<Rightarrow> nat"
    and cap :: "'s \<Rightarrow> nat"
  assumes get_modify: "get (modify s i f) j = (if j = i then map_option f (get s i) else get s j)"
    and wf_modify: "wf s \<Longrightarrow> wf (modify s i f)"
    and len_modify: "len (modify s i f) = len s"
    and cap_modify: "cap (modify s i f) = cap s"
    and insert_space: "wf s \<Longrightarrow> len s < cap s \<Longrightarrow>
      \<exists>i s'. insert s v = Some (Ok i, s') \<and> get s i = None \<and> i \<noteq> NIL \<and>
        get s' = (get s)(i \<mapsto> v) \<and> len s' = len s + 1 \<and> cap s' = cap s \<and> wf s'"
    and insert_full: "wf s \<Longrightarrow> len s = cap s \<Longrightarrow> insert s v = Some (Err SlabCapacityExhausted, s)"
    and remove_live: "wf s \<Longrightarrow> get s i = Some v \<Longrightarrow>
      \<exists>s'. remove s i = Some (Ok v, s') \<and> get s' = (get s)(i := None) \<and>
        len s' + 1 = len s \<and> cap s' = cap s \<and> wf s'"
    and len_le_cap: "wf s \<Longrightarrow> len s \<le> cap s"
    and get_NIL: "wf s \<Longrightarrow> get s NIL = None"
    and len_card: "wf s \<Longrightarrow> len s = card (dom (get s)) \<and> finite (dom (get s))"
begin

lemma get_modify_same: "get s i = Some v \<Longrightarrow> get (modify s i f) i = Some (f v)"
  by (simp add: get_modify)

lemma dom_modify: "dom (get (modify s i f)) = dom (get s)"
  by (auto simp: get_modify dom_def split: if_splits)

lemma insert_cases:
  assumes "wf s"
  obtains (full) "len s = cap s" "insert s v = Some (Err SlabCapacityExhausted, s)"
  | (room) i s' where "len s < cap s" "insert s v = Some (Ok i, s')" "get s i = None" "i \<noteq> NIL"
      "get s' = (get s)(i \<mapsto> v)" "len s' = len s + 1" "cap s' = cap s" "wf s'"
proof (cases "len s < cap s")
  case True
  with insert_space [OF assms True, of v] room show thesis by blast
next
  case False
  then have "len s = cap s"
    using len_le_cap [OF assms] by simp
  with insert_full [OF assms this] full show thesis by blast
qed

lemma remove_insert_lookup:
  assumes "wf s" and "insert s v = Some (Ok i, s')" and "wf s'" and "get s' i = Some v"
  shows "\<exists>s''. remove s' i = Some (Ok v, s'')"
  using remove_live [OF assms(3,4)] by blast

end

section \<open>The slab is an arena\<close>

lemma slab_get_Some_iff:
  "slab_get s i = Some v \<longleftrightarrow> i < length (slots s) \<and> slots s ! i = Occupied v"
  by (auto simp: slab_get_def split: entry.splits)

lemma slab_get_None_iff:
  "slab_get s i = None \<longleftrightarrow> i \<ge> length (slots s) \<or> i \<in> free_slots (slots s)"
  by (auto simp: slab_get_def free_slots_def is_free_iff split: entry.splits)

lemma slab_modify_eq:
  "slab_modify s i f =
     (case slab_get s i of None \<Rightarrow> s | Some v \<Rightarrow> s\<lparr>slots := (slots s)[i := Occupied (f v)]\<rparr>)"
  by (auto simp: slab_modify_def slab_get_def split: entry.splits)

lemma slab_get_modify:
  "slab_get (slab_modify s i f) j = (if j = i then map_option f (slab_get s i) else slab_get s j)"
proof (cases "slab_get s i")
  case None
  then show ?thesis by (simp add: slab_modify_eq)
next
  case (Some v)
  then have "i < length (slots s)" by (simp add: slab_get_Some_iff)
  with Some show ?thesis
    by (auto simp: slab_modify_eq slab_get_def nth_list_update split: entry.splits)
qed

lemma live_card:
  "length (filter (\<lambda>e. \<not> is_free e) (slots s)) = card (dom (slab_get s)) \<and> finite (dom (slab_get s))"
proof -
  have "dom (slab_get s) = {i. i < length (slots s) \<and> \<not> is_free (slots s ! i)}"
    by (auto simp: dom_def slab_get_None_iff free_slots_def)
  then show ?thesis by (simp add: length_filter_conv_card)
qed

lemma slab_wf_replace:
  assumes "slab_wf s" and "slab_get s i = Some v"
  shows "slab_wf (s\<lparr>slots := (slots s)[i := Occupied w]\<rparr>)"
proof -
  from assms(2) have i: "i < length (slots s)" "slots s ! i = Occupied v"
    by (simp_all add: slab_get_Some_iff)
  from assms(1) obtain fl where fl: "free_chain (slots s) (free_head s) fl" "distinct fl"
    "set fl = free_slots (slots s)" by (auto simp: slab_wf_def)
  have "i \<notin> set fl" using fl(3) i by (simp add: free_slots_def)
  moreover have "free_slots ((slots s)[i := Occupied w]) = free_slots (slots s)"
    using i unfolding free_slots_update [OF i(1)] by (simp add: free_slots_def)
  moreover have "length (filter (\<lambda>e. \<not> is_free e) ((slots s)[i := Occupied w])) =
    length (filter (\<lambda>e. \<not> is_free e) (slots s))"
    using length_filter_update [OF i(1), of "\<lambda>e. \<not> is_free e" "Occupied w"] i(2) by simp
  ultimately show ?thesis
    using assms(1) fl by (auto simp: slab_wf_def free_chain_update intro!: exI [of _ fl])
qed

lemma slab_wf_modify: "slab_wf s \<Longrightarrow> slab_wf (slab_modify s i f)"
  by (auto simp: slab_modify_eq slab_wf_replace split: option.splits)

lemma slab_insert_room:
  assumes wf: "slab_wf s" and room: "live s < capacity s"
  shows "\<exists>i s'. slab_insert s v = Some (Ok i, s') \<and> slab_get s i = None \<and> i \<noteq> NIL \<and>
    slab_get s' = (slab_get s)(i \<mapsto> v) \<and> live s' = live s + 1 \<and> capacity s' = capacity s \<and> slab_wf s'"
proof -
  from wf obtain fl where fl: "free_chain (slots s) (free_head s) fl" "distinct fl"
    "set fl = free_slots (slots s)" by (auto simp: slab_wf_def)
  have cap: "length (slots s) \<le> capacity s" "capacity s \<le> NIL"
    using wf by (simp_all add: slab_wf_def NIL_def)
  show ?thesis
  proof (cases fl)
    case Nil
    with fl have nil: "free_head s = NIL" and none: "free_slots (slots s) = {}" by auto
    then have "length (filter is_free (slots s)) = 0"
      using card_free_slots [of "slots s"] by simp
    then have len: "length (slots s) < capacity s"
      using not_free_count [of "slots s"] wf room by (simp add: slab_wf_def)
    let ?s' = "s\<lparr>slots := slots s @ [Occupied v], live := live s + 1\<rparr>"
    have "slab_insert s v = Some (Ok (length (slots s)), ?s')"
      using nil len cap by (simp add: slab_insert_def NIL_def)
    moreover have "slab_wf ?s'"
      using wf nil none len by (auto simp: slab_wf_def free_slots_snoc intro!: exI [of _ "[]"])
    moreover have "slab_get ?s' = (slab_get s)(length (slots s) \<mapsto> v)"
      by (rule ext) (auto simp: slab_get_def nth_append split: entry.splits)
    ultimately show ?thesis
      using len cap by (intro exI [of _ "length (slots s)"] exI [of _ ?s']) (auto simp: slab_get_def)
  next
    case (Cons i rest)
    with fl obtain nxt where i: "free_head s = i" "i \<noteq> NIL" "i < length (slots s)"
      "slots s ! i = Free nxt" "free_chain (slots s) nxt rest" "i \<notin> set rest" by auto
    let ?s' = "s\<lparr>slots := (slots s)[i := Occupied v], free_head := nxt, live := live s + 1\<rparr>"
    have ins: "slab_insert s v = Some (Ok i, ?s')"
      using i by (simp add: slab_insert_def)
    have "set rest = free_slots ((slots s)[i := Occupied v])"
      using fl Cons i by (auto simp: free_slots_update)
    moreover have "length (filter (\<lambda>e. \<not> is_free e) ((slots s)[i := Occupied v])) = live s + 1"
      using length_filter_update [OF i(3), of "\<lambda>e. \<not> is_free e" "Occupied v"] i(4) wf
      by (simp add: slab_wf_def)
    ultimately have "slab_wf ?s'"
      using wf fl Cons i by (auto simp: slab_wf_def free_chain_update intro!: exI [of _ rest])
    moreover have "slab_get ?s' = (slab_get s)(i \<mapsto> v)"
      using i(3) by (intro ext) (auto simp: slab_get_def nth_list_update split: entry.splits)
    moreover have "slab_get s i = None"
      using i by (simp add: slab_get_def)
    ultimately show ?thesis
      using ins i(2) by (intro exI [of _ i] exI [of _ ?s']) auto
  qed
qed

lemma slab_insert_no_room:
  assumes wf: "slab_wf s" and full: "live s = capacity s"
  shows "slab_insert s v = Some (Err SlabCapacityExhausted, s)"
proof -
  from wf obtain fl where fl: "free_chain (slots s) (free_head s) fl" "set fl = free_slots (slots s)"
    by (auto simp: slab_wf_def)
  have "live s = length (filter (\<lambda>e. \<not> is_free e) (slots s))" "length (slots s) \<le> capacity s"
    using wf by (simp_all add: slab_wf_def)
  with full not_free_count [of "slots s"]
  have "length (filter is_free (slots s)) = 0" and len: "capacity s \<le> length (slots s)"
    by linarith+
  then have "free_slots (slots s) = {}"
    using card_free_slots [of "slots s"] by (simp add: free_slots_def card_eq_0_iff)
  with fl have "free_head s = NIL" by (cases fl) auto
  with len show ?thesis by (simp add: slab_insert_def)
qed

lemma slab_remove_live:
  assumes wf: "slab_wf s" and get: "slab_get s i = Some v"
  shows "\<exists>s'. slab_remove s i = Some (Ok v, s') \<and> slab_get s' = (slab_get s)(i := None) \<and>
    live s' + 1 = live s \<and> capacity s' = capacity s \<and> slab_wf s'"
proof -
  from get have i: "i < length (slots s)" "slots s ! i = Occupied v"
    by (simp_all add: slab_get_Some_iff)
  from wf obtain fl where fl: "free_chain (slots s) (free_head s) fl" "distinct fl"
    "set fl = free_slots (slots s)" by (auto simp: slab_wf_def)
  let ?es = "(slots s)[i := Free (free_head s)]"
  have count: "length (filter (\<lambda>e. \<not> is_free e) ?es) + 1 = live s"
    using length_filter_update [OF i(1), of "\<lambda>e. \<not> is_free e" "Free (free_head s)"] i(2) wf
    by (simp add: slab_wf_def)
  let ?s' = "s\<lparr>slots := ?es, free_head := i, live := live s - 1\<rparr>"
  have rem: "slab_remove s i = Some (Ok v, ?s')"
    using i count by (simp add: slab_remove_def)
  have notin: "i \<notin> set fl" using fl(3) i by (simp add: free_slots_def)
  then have "free_chain ?es i (i # fl)"
    using fl(1) i(1) wf by (auto simp: free_chain_update slab_wf_def NIL_def)
  moreover have "set (i # fl) = free_slots ?es"
    using fl(3) i(1) by (simp add: free_slots_update)
  ultimately have "slab_wf ?s'"
    using wf fl(2) notin count by (auto simp: slab_wf_def intro!: exI [of _ "i # fl"])
  moreover have "slab_get ?s' = (slab_get s)(i := None)"
    using i(1) by (intro ext) (auto simp: slab_get_def nth_list_update split: entry.splits)
  ultimately show ?thesis
    using rem count by (intro exI [of _ ?s']) auto
qed

interpretation sl: arena slab_wf slab_get slab_modify slab_insert slab_remove live capacity
proof unfold_locales
  show "slab_wf s \<Longrightarrow> live s \<le> capacity s" for s :: "'a slab"
    using not_free_count [of "slots s"] by (simp add: slab_wf_def)
  show "slab_wf s \<Longrightarrow> slab_get s NIL = None" for s :: "'a slab"
    by (simp add: slab_wf_def slab_get_def NIL_def)
  show "slab_wf s \<Longrightarrow> live s = card (dom (slab_get s)) \<and> finite (dom (slab_get s))" for s :: "'a slab"
    using live_card [of s] by (simp add: slab_wf_def)
  show "live (slab_modify s i f) = live s" for s :: "'a slab" and i f
    by (simp add: slab_modify_eq split: option.splits)
  show "capacity (slab_modify s i f) = capacity s" for s :: "'a slab" and i f
    by (simp add: slab_modify_eq split: option.splits)
qed (fact slab_get_modify slab_wf_modify slab_insert_room slab_insert_no_room slab_remove_live)+

lemma slab_wf_with_capacity: "n \<le> u32_max \<Longrightarrow> slab_wf (with_capacity n)"
  by (auto simp: slab_wf_def with_capacity_def free_slots_def intro!: exI [of _ "[]"])

section \<open>The validator decides the invariant\<close>

text \<open>The chain from a head is unique and repeats no slot, since it ends in \<open>NIL\<close>.\<close>

lemma free_chain_unique: "free_chain es h xs \<Longrightarrow> free_chain es h ys \<Longrightarrow> xs = ys"
proof (induction xs arbitrary: h ys)
  case Nil
  then show ?case by (cases ys) auto
next
  case (Cons x xs)
  then show ?case by (cases ys) auto
qed

lemma free_chain_suffix: "free_chain es h (xs @ y # ys) \<Longrightarrow> free_chain es y (y # ys)"
  by (induction xs arbitrary: h) auto

lemma free_chain_distinct: "free_chain es h fl \<Longrightarrow> distinct fl"
proof (induction fl arbitrary: h)
  case Nil
  then show ?case by simp
next
  case (Cons x fl)
  have "x \<notin> set fl"
  proof
    assume "x \<in> set fl"
    then obtain us vs where split: "fl = us @ x # vs" by (auto dest: split_list)
    have "free_chain es x (x # fl)"
      using Cons.prems by auto
    moreover have "free_chain es x (x # vs)"
      using free_chain_suffix [of es h "x # us" x vs] Cons.prems split by simp
    ultimately have "fl = vs"
      by (auto dest: free_chain_unique)
    with split show False by simp
  qed
  moreover have "distinct fl"
    using Cons by auto
  ultimately show ?case by simp
qed

lemma free_walk_Ok_iff:
  "free_walk es stored cur seen = Ok n \<longleftrightarrow>
     (\<exists>fl. free_chain es cur fl \<and> n = seen + length fl \<and> (fl = [] \<or> n \<le> stored))"
proof (induction es stored cur seen rule: free_walk.induct)
  case (1 es stored cur seen)
  show ?case
  proof (cases "cur \<noteq> NIL \<and> cur < length es \<and> is_free (es ! cur)")
    case False
    then show ?thesis
      by (subst free_walk.simps) (auto simp: neq_Nil_conv is_free_iff elim: free_chain.elims split: entry.splits)
  next
    case True
    then obtain nxt where nxt: "es ! cur = Free nxt" by (auto simp: is_free_iff)
    have chain: "free_chain es cur fl \<longleftrightarrow> (\<exists>rest. fl = cur # rest \<and> free_chain es nxt rest)" for fl
      using True nxt by (cases fl) auto
    show ?thesis
    proof (cases "seen < stored")
      case True
      with \<open>cur \<noteq> NIL \<and> cur < length es \<and> is_free (es ! cur)\<close> nxt 1
      have "free_walk es stored cur seen = free_walk es stored nxt (seen + 1)"
        by (subst free_walk.simps) simp
      moreover have "free_walk es stored nxt (seen + 1) = Ok n \<longleftrightarrow>
        (\<exists>fl. free_chain es nxt fl \<and> n = seen + 1 + length fl \<and> (fl = [] \<or> n \<le> stored))"
        using "1" \<open>cur \<noteq> NIL \<and> cur < length es \<and> is_free (es ! cur)\<close> nxt True by auto
      ultimately show ?thesis
        using True by (auto simp: chain)
    next
      case False
      with \<open>cur \<noteq> NIL \<and> cur < length es \<and> is_free (es ! cur)\<close> nxt show ?thesis
        by (subst free_walk.simps) (auto simp: chain)
    qed
  qed
qed

lemma slab_validate_iff:
  assumes "c \<le> u32_max"
  shows "slab_validate s c = Ok () \<longleftrightarrow> slab_wf s \<and> capacity s = c"
proof -
  let ?stored = "length (filter is_free (slots s))"
  have walk: "free_walk (slots s) ?stored (free_head s) 0 = Ok ?stored \<longleftrightarrow>
    (\<exists>fl. free_chain (slots s) (free_head s) fl \<and> distinct fl \<and> set fl = free_slots (slots s))"
  proof -
    have "length fl = ?stored \<longleftrightarrow> set fl = free_slots (slots s)"
      if "free_chain (slots s) (free_head s) fl" for fl
    proof
      assume "length fl = ?stored"
      then have "card (set fl) = card (free_slots (slots s))"
        using that by (simp add: card_free_slots distinct_card free_chain_distinct)
      moreover have "finite (free_slots (slots s))"
        by (simp add: free_slots_def)
      ultimately show "set fl = free_slots (slots s)"
        using free_chain_in_free [OF that] by (simp add: card_subset_eq)
    next
      assume "set fl = free_slots (slots s)"
      then show "length fl = ?stored"
        using that by (metis card_free_slots distinct_card free_chain_distinct)
    qed
    then show ?thesis
      unfolding free_walk_Ok_iff by (metis add_0 free_chain_distinct order_refl)
  qed
  show ?thesis
    using assms walk unfolding slab_validate_def slab_wf_def
    by (auto simp: Let_def and_then_Inr_iff split: if_splits)
qed

section \<open>Properties\<close>

text \<open>C24 (equivalence). The representation check that recovery runs on a slab accepts exactly the
  well-formed arenas of the expected capacity: live count equal to the number of occupied slots,
  and a free list that visits every free slot exactly once and ends.
\<close>

theorem slab_validate_decides:
  assumes "c \<le> u32_max"
  shows "slab_validate s c = Ok () \<longleftrightarrow> slab_wf s \<and> capacity s = c"
  using assms by (rule slab_validate_iff)

lemma slab_validate_decides_witness:
  "(2::nat) \<le> u32_max \<and>
   (slab_validate (with_capacity 2 :: nat slab) 2 = Ok () \<longleftrightarrow>
      slab_wf (with_capacity 2 :: nat slab) \<and> capacity (with_capacity 2 :: nat slab) = 2)"
proof -
  have "(2::nat) \<le> u32_max" by (simp add: u32_max_def)
  then show ?thesis using slab_validate_decides [of 2 "with_capacity 2 :: nat slab"] by simp
qed

text \<open>Slot reuse is a stack: after removing the value of a live slot, the next
  insertion goes to that same slot, restores the free list, and leaves every other slot as it was.
\<close>

theorem slab_reuse_lifo:
  assumes "slab_wf s" and "slab_get s i = Some v"
  shows "\<exists>s1 s2. slab_remove s i = Some (Ok v, s1) \<and> slab_insert s1 w = Some (Ok i, s2) \<and>
    slab_get s2 = (slab_get s)(i \<mapsto> w) \<and> free_head s2 = free_head s \<and> live s2 = live s"
proof -
  from assms(2) have i: "i < length (slots s)" "slots s ! i = Occupied v"
    by (simp_all add: slab_get_Some_iff)
  obtain s1 where s1: "slab_remove s i = Some (Ok v, s1)" "live s1 + 1 = live s"
    using slab_remove_live [OF assms] by blast
  then have eq: "s1 = s\<lparr>slots := (slots s)[i := Free (free_head s)], free_head := i, live := live s - 1\<rparr>"
    using i by (auto simp: slab_remove_def split: if_splits)
  let ?s2 = "s\<lparr>slots := (slots s)[i := Occupied w]\<rparr>"
  have "i \<noteq> NIL" using i(1) assms(1) by (auto simp: slab_wf_def NIL_def)
  then have "slab_insert s1 w = Some (Ok i, ?s2)"
    using i s1(2) by (simp add: eq slab_insert_def)
  moreover have "slab_get ?s2 = (slab_get s)(i \<mapsto> w)"
    using i(1) by (intro ext) (auto simp: slab_get_def nth_list_update split: entry.splits)
  ultimately show ?thesis
    using s1(1) by auto
qed

definition example_slab :: "nat slab" where
  "example_slab = \<lparr>slots = [Occupied 7, Free NIL, Occupied 9], free_head = 1, live = 2, capacity = 4\<rparr>"

lemma example_slab_wf: "slab_wf example_slab"
proof -
  have "slab_validate example_slab 4 = Ok ()"
    by (simp add: slab_validate_def example_slab_def free_walk.simps NIL_def u32_max_def)
  then show ?thesis
    using slab_validate_iff [of 4 example_slab] by (simp add: u32_max_def)
qed

lemma slab_reuse_lifo_witness:
  "\<exists>s1 s2. slab_remove example_slab 2 = Some (Ok 9, s1) \<and> slab_insert s1 5 = Some (Ok 2, s2) \<and>
    slab_get s2 = (slab_get example_slab)(2 \<mapsto> 5) \<and> free_head s2 = free_head example_slab \<and>
    live s2 = live example_slab"
  by (rule slab_reuse_lifo [OF example_slab_wf]) (simp add: slab_get_def example_slab_def)

end
