(* ===== verification/Omap.thy ===== *)
theory Omap
  imports Prelude
begin

text \<open>
  Finite maps with a canonical representation: an association list strictly sorted by key. They
  model \<open>std::collections::BTreeMap\<close> (ascending iteration, first and last key) and \<open>HashMap\<close> (every
  iteration of a hash map in the modelled code is followed by a sort or is independent of order).
  The locale states what the clients rely on; the interpretation proves it for the type.
\<close>

section \<open>Association lists sorted by key\<close>

abbreviation ascending :: "('k::linorder \<times> 'v) list \<Rightarrow> bool" where
  "ascending es \<equiv> sorted_wrt (<) (map fst es)"

fun al_put :: "'k::linorder \<Rightarrow> 'v \<Rightarrow> ('k \<times> 'v) list \<Rightarrow> ('k \<times> 'v) list" where
  "al_put k v [] = [(k, v)]"
| "al_put k v (e # es) =
     (if k < fst e then (k, v) # e # es
      else if fst e < k then e # al_put k v es
      else (k, v) # es)"

definition al_remove :: "'k \<Rightarrow> ('k \<times> 'v) list \<Rightarrow> ('k \<times> 'v) list" where
  "al_remove k es = filter (\<lambda>e. fst e \<noteq> k) es"

lemma keys_al_put: "fst ` set (al_put k v es) = insert k (fst ` set es)"
proof (induction es)
  case Nil
  show ?case by simp
next
  case (Cons e es)
  have "\<not> k < fst e \<Longrightarrow> \<not> fst e < k \<Longrightarrow> fst e = k" by simp
  then show ?case using Cons by auto
qed

lemma ascending_al_put: "ascending es \<Longrightarrow> ascending (al_put k v es)"
proof (induction es)
  case Nil
  show ?case by simp
next
  case (Cons e es)
  have keys: "set (map fst (al_put k v es)) = insert k (set (map fst es))"
    using keys_al_put [of k v es] by simp
  consider "k < fst e" | "fst e < k" | "k = fst e" by fastforce
  then show ?case
    by cases (use Cons keys in auto)
qed

lemma ascending_al_remove: "ascending es \<Longrightarrow> ascending (al_remove k es)"
  by (induction es) (auto simp: al_remove_def)

lemma map_of_al_put: "ascending es \<Longrightarrow> map_of (al_put k v es) = (map_of es)(k \<mapsto> v)"
proof (induction es)
  case Nil
  show ?case by simp
next
  case (Cons e es)
  consider "k < fst e" | "fst e < k" | "k = fst e" by fastforce
  then show ?case
    by cases (use Cons in \<open>auto simp: fun_eq_iff\<close>)
qed

lemma map_of_al_remove: "map_of (al_remove k es) = (map_of es)(k := None)"
  by (induction es) (auto simp: al_remove_def fun_eq_iff)

lemma ascending_distinct: "ascending es \<Longrightarrow> distinct (map fst es)"
  by (simp add: strict_sorted_iff)

section \<open>The type\<close>

typedef (overloaded) ('k, 'v) omap = "{es :: ('k::linorder \<times> 'v) list. ascending es}"
  morphisms entries omap_of
  by (rule exI [of _ "[]"]) simp

setup_lifting type_definition_omap

lift_definition omap_empty :: "('k::linorder, 'v) omap" is "[]"
  by simp

lift_definition omap_put :: "'k::linorder \<Rightarrow> 'v \<Rightarrow> ('k, 'v) omap \<Rightarrow> ('k, 'v) omap" is al_put
  by (rule ascending_al_put)

lift_definition omap_remove :: "'k::linorder \<Rightarrow> ('k, 'v) omap \<Rightarrow> ('k, 'v) omap" is al_remove
  by (rule ascending_al_remove)

definition omap_get :: "('k::linorder, 'v) omap \<Rightarrow> 'k \<Rightarrow> 'v option" where
  "omap_get m k = map_of (entries m) k"

definition omap_keys :: "('k::linorder, 'v) omap \<Rightarrow> 'k list" where
  "omap_keys m = map fst (entries m)"

definition omap_size :: "('k::linorder, 'v) omap \<Rightarrow> nat" where
  "omap_size m = length (entries m)"

definition omap_first :: "('k::linorder, 'v) omap \<Rightarrow> 'k option" where
  "omap_first m = (case omap_keys m of [] \<Rightarrow> None | k # _ \<Rightarrow> Some k)"

definition omap_last :: "('k::linorder, 'v) omap \<Rightarrow> 'k option" where
  "omap_last m = (if omap_keys m = [] then None else Some (last (omap_keys m)))"

instantiation omap :: (linorder, equal) equal
begin

definition equal_omap :: "('a, 'b) omap \<Rightarrow> ('a, 'b) omap \<Rightarrow> bool" where
  "equal_omap m n \<longleftrightarrow> entries m = entries n"

instance
  by standard (simp add: equal_omap_def entries_inject)

end

lemmas entries_empty [simp] = omap_empty.rep_eq
lemmas entries_put [simp] = omap_put.rep_eq
lemmas entries_remove [simp] = omap_remove.rep_eq

lemma entries_ascending [simp]: "ascending (entries m)"
  using entries [of m] by simp

section \<open>The interface\<close>

locale ordered_map =
  fixes empty :: "'m"
    and get :: "'m \<Rightarrow> 'k::linorder \<Rightarrow> 'v option"
    and put :: "'k \<Rightarrow> 'v \<Rightarrow> 'm \<Rightarrow> 'm"
    and remove :: "'k \<Rightarrow> 'm \<Rightarrow> 'm"
    and iter :: "'m \<Rightarrow> ('k \<times> 'v) list"
  assumes get_empty: "get empty k = None"
    and get_put: "get (put k v m) j = (if j = k then Some v else get m j)"
    and get_remove: "get (remove k m) j = (if j = k then None else get m j)"
    and iter_get: "map_of (iter m) = get m"
    and iter_ascending: "ascending (iter m)"
    and iter_inj: "iter m = iter n \<Longrightarrow> m = n"
begin

lemma get_put_same: "get (put k v m) k = Some v"
  by (simp add: get_put)

lemma get_put_other: "j \<noteq> k \<Longrightarrow> get (put k v m) j = get m j"
  by (simp add: get_put)

lemma in_iter_iff: "(k, v) \<in> set (iter m) \<longleftrightarrow> get m k = Some v"
  using map_of_eq_Some_iff [OF ascending_distinct [OF iter_ascending], of m k v]
  by (simp add: iter_get)

lemma key_iff: "k \<in> fst ` set (iter m) \<longleftrightarrow> get m k \<noteq> None"
  by (metis iter_get map_of_eq_None_iff)

text \<open>Sorted lists with the same bindings are equal, so the map is determined by its lookups.\<close>

lemma ascending_map_of_inj:
  assumes "ascending xs" and "ascending ys" and "map_of xs = map_of ys"
  shows "xs = ys"
proof -
  have "set xs = set ys"
    using assms ascending_distinct map_of_eqI
    by (metis map_of_eq_Some_iff subrelI subset_antisym)
  then have "map fst xs = map fst ys"
    using assms(1,2) by (intro strict_sorted_equal) auto
  then show ?thesis
    using \<open>set xs = set ys\<close> assms(1) ascending_distinct
    by (metis assms(3) map_of_eq_Some_iff map_eq_imp_length_eq nth_equalityI nth_map nth_mem
        option.inject prod.collapse)
qed

lemma map_ext: "(\<And>k. get m k = get n k) \<Longrightarrow> m = n"
  by (intro iter_inj ascending_map_of_inj iter_ascending) (auto simp: iter_get)

lemma put_same: "get m k = Some v \<Longrightarrow> put k v m = m"
  by (rule map_ext) (simp add: get_put)

lemma put_put: "put k v (put k w m) = put k v m"
  by (rule map_ext) (simp add: get_put)

lemma remove_put: "remove k (put k v m) = remove k m"
  by (rule map_ext) (simp add: get_put get_remove)

lemma put_remove: "put k v (remove k m) = put k v m"
  by (rule map_ext) (simp add: get_put get_remove)

lemma remove_absent: "get m k = None \<Longrightarrow> remove k m = m"
  by (rule map_ext) (simp add: get_remove)

end

interpretation om: ordered_map omap_empty omap_get omap_put omap_remove entries
proof unfold_locales
  show "omap_get omap_empty k = None" for k :: 'a
    by (simp add: omap_get_def)
  show "omap_get (omap_put k v m) j = (if j = k then Some v else omap_get m j)" for k j :: 'a and v :: 'b and m
    by (simp add: omap_get_def map_of_al_put)
  show "omap_get (omap_remove k m) j = (if j = k then None else omap_get m j)" for k j :: 'a and m :: "('a, 'b) omap"
    by (simp add: omap_get_def map_of_al_remove)
  show "map_of (entries m) = omap_get m" for m :: "('a, 'b) omap"
    by (simp add: omap_get_def fun_eq_iff)
  show "ascending (entries m)" for m :: "('a, 'b) omap"
    by simp
  show "entries m = entries n \<Longrightarrow> m = n" for m n :: "('a, 'b) omap"
    by (simp add: entries_inject)
qed

declare om.get_empty [simp] om.get_put [simp] om.get_remove [simp]

lemma omap_get_put_fun: "omap_get (omap_put k v m) = (omap_get m)(k \<mapsto> v)"
  by (rule ext) simp

lemma omap_get_remove_fun: "omap_get (omap_remove k m) = (omap_get m)(k := None)"
  by (rule ext) simp

lemma omap_size_card: "omap_size m = card (dom (omap_get m))"
proof -
  have "dom (omap_get m) = set (omap_keys m)"
    using om.key_iff [of _ m] by (auto simp: omap_keys_def)
  moreover have "distinct (omap_keys m)"
    using ascending_distinct [OF entries_ascending] by (simp add: omap_keys_def)
  ultimately have "card (dom (omap_get m)) = length (omap_keys m)"
    by (simp only: distinct_card)
  then show ?thesis
    by (simp add: omap_size_def omap_keys_def)
qed

end
