(* ===== verification/Orders.thy ===== *)
theory Orders
  imports Fixed Errors Slab Omap
begin

text \<open>
  The order-book data types: \<open>crates/orderbook/src/order.rs\<close> and the domain enums of
  \<open>crates/types/src/domain.rs\<close> that it uses. Field names carry a prefix per record.
\<close>

datatype side = Bid | Ask

fun opposite :: "side \<Rightarrow> side" where
  "opposite Bid = Ask"
| "opposite Ask = Bid"

datatype order_type = Limit | Market | PostOnly | ReduceOnly

datatype time_in_force = Gtc | Ioc | Fok

record new_order =
  no_order_id :: order_id
  no_account :: account_id
  no_side :: side
  no_order_type :: order_type
  no_tif :: time_in_force
  no_price :: price
  no_quantity :: quantity
  no_client_id :: nat
  no_reduce_only :: bool

record fill =
  maker_order :: order_id
  taker_order :: order_id
  maker_account :: account_id
  taker_account :: account_id
  fill_price :: price
  fill_quantity :: quantity
  taker_side :: side

record planned_fill =
  pf_maker_order :: order_id
  pf_maker_account :: account_id
  pf_price :: price
  pf_quantity :: quantity

record match_summary =
  ms_filled_quantity :: quantity
  ms_worst_price :: "price option"
  ms_notional :: amount
  ms_notional_ceil :: amount

record match_plan = match_summary +
  mp_fills :: "planned_fill list"

datatype order_outcome =
    Resting quantity
  | FullyFilled
  | PartiallyFilledResting quantity
  | PartiallyFilledCancelled quantity
  | Rejected

record match_result =
  mr_fills :: "fill list"
  mr_outcome :: order_outcome

record resting_order =
  ro_order_id :: order_id
  ro_account :: account_id
  ro_side :: side
  ro_price :: price
  ro_remaining :: quantity

record stp_cancellation =
  sc_order_id :: order_id
  sc_account :: account_id
  sc_side :: side
  sc_price :: price
  sc_remaining :: quantity

record match_report =
  rep_result :: match_result
  rep_stp_cancelled :: "stp_cancellation list"

definition rejected :: match_result where
  "rejected = \<lparr>mr_fills = [], mr_outcome = Rejected\<rparr>"

definition filled_quantity :: "match_result \<Rightarrow> quantity" where
  "filled_quantity r = fold (\<lambda>f total. scalar_saturating_add I64 total (fill_quantity f)) (mr_fills r) 0"

datatype stp_policy = CancelMaker | CancelTaker | CancelBoth

text \<open>\<open>MatchingBackend\<close> is \<open>simd::Backend\<close>; it selects an arithmetic kernel and nothing else.\<close>

datatype backend = Scalar | Avx2 | Avx512 | Neon

record book_config =
  cfg_capacity :: nat
  cfg_stp :: stp_policy
  cfg_dedup_capacity :: nat
  cfg_max_basket_legs :: nat
  cfg_matching_backend :: backend

record node =
  nd_order_id :: order_id
  nd_account :: account_id
  nd_side :: side
  nd_price :: price
  nd_remaining :: quantity
  nd_client_id :: nat
  nd_prev :: nat
  nd_next :: nat

definition node_new :: "new_order \<Rightarrow> quantity \<Rightarrow> node" where
  "node_new ord remaining =
     \<lparr>nd_order_id = no_order_id ord, nd_account = no_account ord, nd_side = no_side ord,
      nd_price = no_price ord, nd_remaining = remaining, nd_client_id = no_client_id ord,
      nd_prev = NIL, nd_next = NIL\<rparr>"

lemma opposite_opposite [simp]: "opposite (opposite s) = s"
  by (cases s) simp_all

lemma opposite_neq [simp]: "opposite s \<noteq> s" "s \<noteq> opposite s"
  by (cases s; simp)+

text \<open>The values the field types admit: \<open>i64\<close> prices and quantities, \<open>u64\<close> and \<open>u32\<close> ids.\<close>

definition order_typed :: "new_order \<Rightarrow> bool" where
  "order_typed ord \<longleftrightarrow>
     no_order_id ord \<le> u64_max \<and> no_account ord \<le> u32_max \<and> no_client_id ord \<le> u64_max \<and>
     fits I64 (no_price ord) \<and> fits I64 (no_quantity ord)"

definition node_typed :: "node \<Rightarrow> bool" where
  "node_typed n \<longleftrightarrow>
     nd_order_id n \<le> u64_max \<and> nd_account n \<le> u32_max \<and> nd_client_id n \<le> u64_max \<and>
     fits I64 (nd_price n) \<and> fits I64 (nd_remaining n)"

end
