(* ===== verification/Level.thy ===== *)
theory Level
  imports Orders
begin

text \<open>
  Price levels and the per-side level index of \<open>crates/orderbook/src/level.rs\<close>. A level holds the
  head and tail slots of an intrusive doubly-linked FIFO queue in the slab; a side book is an
  ordered map from price to level. \<open>None\<close> is a call that does not return: an \<open>expect\<close> that fails,
  or a walk along a cyclic chain.
\<close>

section \<open>State and operations\<close>

definition crosses :: "side \<Rightarrow> bool \<Rightarrow> price \<Rightarrow> price \<Rightarrow> bool" where
  "crosses tside is_market taker_price opp =
     (if is_market \<and> taker_price \<le> 0 then True
      else case tside of Bid \<Rightarrow> taker_price \<ge> opp | Ask \<Rightarrow> taker_price \<le> opp)"

datatype scan = Continue | Stop

partial_function (option) accumulate_level ::
  "node slab \<Rightarrow> nat \<Rightarrow> account_id \<Rightarrow> stp_policy \<Rightarrow> int \<Rightarrow> int \<Rightarrow> (scan \<times> int) option" where
  "accumulate_level sl cur taker stp acc need =
     (if cur = NIL then Some (Continue, acc)
      else case slab_get sl cur of
        None \<Rightarrow> Some (Stop, acc)
      | Some nd \<Rightarrow>
          if nd_account nd = taker then
            (case stp of
               CancelMaker \<Rightarrow> accumulate_level sl (nd_next nd) taker stp acc need
             | CancelTaker \<Rightarrow> Some (Stop, acc)
             | CancelBoth \<Rightarrow> Some (Stop, acc))
          else
            (let acc' = prim_saturate I64 (acc + nd_remaining nd) in
             if acc' \<ge> need then Some (Stop, acc')
             else accumulate_level sl (nd_next nd) taker stp acc' need))"

record level =
  lv_head :: nat
  lv_tail :: nat
  lv_total_qty :: quantity
  lv_count :: nat

definition level_empty :: level where
  "level_empty = \<lparr>lv_head = NIL, lv_tail = NIL, lv_total_qty = 0, lv_count = 0\<rparr>"

record side_book =
  sb_side :: side
  sb_levels :: "(price, level) omap"

definition side_new :: "side \<Rightarrow> side_book" where
  "side_new sd = \<lparr>sb_side = sd, sb_levels = omap_empty\<rparr>"

definition best_price :: "side_book \<Rightarrow> price option" where
  "best_price sb = (case sb_side sb of Bid \<Rightarrow> omap_last (sb_levels sb) | Ask \<Rightarrow> omap_first (sb_levels sb))"

text \<open>The two link updates of \<open>push_back\<close>, on an empty and on a non-empty level.\<close>

definition push_links :: "level \<Rightarrow> node slab \<Rightarrow> nat \<Rightarrow> level \<times> node slab" where
  "push_links lv sl slot =
     (if lv_tail lv = NIL then
        (lv\<lparr>lv_head := slot, lv_tail := slot\<rparr>,
         slab_modify sl slot (\<lambda>n. n\<lparr>nd_prev := NIL, nd_next := NIL\<rparr>))
      else
        (lv\<lparr>lv_tail := slot\<rparr>,
         slab_modify (slab_modify sl (lv_tail lv) (\<lambda>t. t\<lparr>nd_next := slot\<rparr>))
           slot (\<lambda>n. n\<lparr>nd_prev := lv_tail lv, nd_next := NIL\<rparr>)))"

definition push_back :: "side_book \<Rightarrow> node slab \<Rightarrow> nat \<Rightarrow> (side_book \<times> node slab) option" where
  "push_back sb sl slot =
     (case slab_get sl slot of
        None \<Rightarrow> Some (sb, sl)
      | Some nd \<Rightarrow>
          let lv = (case omap_get (sb_levels sb) (nd_price nd) of None \<Rightarrow> level_empty | Some l \<Rightarrow> l);
              (lv', sl') = push_links lv sl slot
          in if lv_count lv' + 1 \<le> u32_max \<and> fits I64 (lv_total_qty lv' + nd_remaining nd) then
               Some (sb\<lparr>sb_levels := omap_put (nd_price nd)
                          (lv'\<lparr>lv_count := lv_count lv' + 1,
                               lv_total_qty := lv_total_qty lv' + nd_remaining nd\<rparr>) (sb_levels sb)\<rparr>,
                     sl')
             else None)"

text \<open>The link updates of \<open>unlink\<close>: bypass the node forwards, then backwards, then clear it.\<close>

definition unlink_links :: "level \<Rightarrow> node slab \<Rightarrow> nat \<Rightarrow> nat \<Rightarrow> nat \<Rightarrow> level \<times> node slab" where
  "unlink_links lv sl slot prv nxt =
     (let (lv1, sl1) = (if prv \<noteq> NIL then (lv, slab_modify sl prv (\<lambda>p. p\<lparr>nd_next := nxt\<rparr>))
                        else (lv\<lparr>lv_head := nxt\<rparr>, sl));
          (lv2, sl2) = (if nxt \<noteq> NIL then (lv1, slab_modify sl1 nxt (\<lambda>n. n\<lparr>nd_prev := prv\<rparr>))
                        else (lv1\<lparr>lv_tail := prv\<rparr>, sl1))
      in (lv2, slab_modify sl2 slot (\<lambda>n. n\<lparr>nd_prev := NIL, nd_next := NIL\<rparr>)))"

definition unlink :: "side_book \<Rightarrow> node slab \<Rightarrow> nat \<Rightarrow> (side_book \<times> node slab) option" where
  "unlink sb sl slot =
     (case slab_get sl slot of
        None \<Rightarrow> Some (sb, sl)
      | Some nd \<Rightarrow>
          (case omap_get (sb_levels sb) (nd_price nd) of
             None \<Rightarrow> Some (sb, sl)
           | Some lv \<Rightarrow>
               let (lv', sl') = unlink_links lv sl slot (nd_prev nd) (nd_next nd)
               in if lv_count lv' \<ge> 1 \<and> fits I64 (lv_total_qty lv' - nd_remaining nd) then
                    (let lv'' = lv'\<lparr>lv_count := lv_count lv' - 1,
                                    lv_total_qty := lv_total_qty lv' - nd_remaining nd\<rparr>
                     in Some (if lv_count lv'' = 0
                              then sb\<lparr>sb_levels := omap_remove (nd_price nd) (sb_levels sb)\<rparr>
                              else sb\<lparr>sb_levels := omap_put (nd_price nd) lv'' (sb_levels sb)\<rparr>, sl'))
                  else None))"

definition reduce_level_qty :: "side_book \<Rightarrow> price \<Rightarrow> quantity \<Rightarrow> side_book option" where
  "reduce_level_qty sb p delta =
     (case omap_get (sb_levels sb) p of
        None \<Rightarrow> Some sb
      | Some lv \<Rightarrow>
          if fits I64 (lv_total_qty lv - delta)
          then Some (sb\<lparr>sb_levels := omap_put p (lv\<lparr>lv_total_qty := lv_total_qty lv - delta\<rparr>) (sb_levels sb)\<rparr>)
          else None)"

definition level_total :: "side_book \<Rightarrow> price \<Rightarrow> quantity" where
  "level_total sb p = (case omap_get (sb_levels sb) p of None \<Rightarrow> 0 | Some lv \<Rightarrow> lv_total_qty lv)"

definition head_at :: "side_book \<Rightarrow> price \<Rightarrow> nat option" where
  "head_at sb p =
     (case omap_get (sb_levels sb) p of
        None \<Rightarrow> None
      | Some lv \<Rightarrow> if lv_head lv \<noteq> NIL then Some (lv_head lv) else None)"

definition level_count :: "side_book \<Rightarrow> nat" where
  "level_count sb = omap_size (sb_levels sb)"

text \<open>Levels in matching order: the side's best price first.\<close>

definition levels_best_first :: "side_book \<Rightarrow> (price \<times> level) list" where
  "levels_best_first sb =
     (case sb_side sb of Ask \<Rightarrow> entries (sb_levels sb) | Bid \<Rightarrow> rev (entries (sb_levels sb)))"

fun crossable_levels ::
  "node slab \<Rightarrow> (price \<times> level) list \<Rightarrow> side \<Rightarrow> account_id \<Rightarrow> price \<Rightarrow> bool \<Rightarrow> stp_policy \<Rightarrow> int \<Rightarrow> int
   \<Rightarrow> int option" where
  "crossable_levels sl [] tside taker tprice is_market stp need acc = Some acc"
| "crossable_levels sl ((p, lv) # rest) tside taker tprice is_market stp need acc =
     (if \<not> crosses tside is_market tprice p then Some acc
      else case accumulate_level sl (lv_head lv) taker stp acc need of
        None \<Rightarrow> None
      | Some (Stop, acc') \<Rightarrow> Some acc'
      | Some (Continue, acc') \<Rightarrow>
          crossable_levels sl rest tside taker tprice is_market stp need acc')"

definition side_crossable_qty ::
  "side_book \<Rightarrow> node slab \<Rightarrow> side \<Rightarrow> account_id \<Rightarrow> price \<Rightarrow> bool \<Rightarrow> stp_policy \<Rightarrow> int \<Rightarrow> int option" where
  "side_crossable_qty sb sl tside taker tprice is_market stp need =
     crossable_levels sl (levels_best_first sb) tside taker tprice is_market stp need 0"

text \<open>\<open>for_each_canonical\<close> visits nodes price ascending, FIFO within a level: here, the nodes visited.\<close>

partial_function (option) chain_nodes :: "node slab \<Rightarrow> nat \<Rightarrow> node list option" where
  "chain_nodes sl cur =
     (if cur = NIL then Some []
      else case slab_get sl cur of
        None \<Rightarrow> Some []
      | Some nd \<Rightarrow> do { rest \<leftarrow> chain_nodes sl (nd_next nd); Some (nd # rest) })"

fun canonical_levels :: "node slab \<Rightarrow> (price \<times> level) list \<Rightarrow> node list option" where
  "canonical_levels sl [] = Some []"
| "canonical_levels sl ((p, lv) # rest) =
     do { ns \<leftarrow> chain_nodes sl (lv_head lv); more \<leftarrow> canonical_levels sl rest; Some (ns @ more) }"

definition side_canonical :: "side_book \<Rightarrow> node slab \<Rightarrow> node list option" where
  "side_canonical sb sl = canonical_levels sl (entries (sb_levels sb))"

definition sum_remaining :: "side_book \<Rightarrow> node slab \<Rightarrow> quantity option" where
  "sum_remaining sb sl =
     do { ns \<leftarrow> side_canonical sb sl;
          Some (fold (\<lambda>n acc. scalar_saturating_add I64 acc (nd_remaining n)) ns 0) }"

end
