(* ===== verification/LevelRep.thy ===== *)
theory LevelRep
  imports Level
begin

text \<open>
  The representation of a side book: which slots each price level queues, in which order. The
  intrusive links form a doubly-linked list over exactly those slots. The lemmas say that
  \<open>push_back\<close> and \<open>unlink\<close> return, and what they do to the queues; the link surgery is proved
  over a store interface of which the slab is an instance.
\<close>

section \<open>Doubly-linked segments\<close>

definition first_of :: "nat list \<Rightarrow> nat \<Rightarrow> nat" where
  "first_of xs e = (if xs = [] then e else hd xs)"

definition last_of :: "nat \<Rightarrow> nat list \<Rightarrow> nat" where
  "last_of p xs = (if xs = [] then p else last xs)"

lemma first_of_simps [simp]: "first_of [] e = e" "first_of (x # xs) e = x"
  by (simp_all add: first_of_def)

lemma last_of_simps [simp]: "last_of p [] = p" "last_of p (xs @ [x]) = x"
  by (simp_all add: last_of_def)

lemma last_of_Cons [simp]: "last_of p (x # xs) = last_of x xs"
  by (simp add: last_of_def)

lemma first_of_append: "first_of (xs @ ys) e = first_of xs (first_of ys e)"
  by (simp add: first_of_def)

lemma last_of_append: "last_of p (xs @ ys) = last_of (last_of p xs) ys"
  by (induction xs arbitrary: p) simp_all

lemma last_of_in: "xs \<noteq> [] \<Longrightarrow> last_of p xs \<in> set xs"
  by (simp add: last_of_def)

lemma first_of_in: "xs \<noteq> [] \<Longrightarrow> first_of xs e \<in> set xs"
  by (simp add: first_of_def)

text \<open>\<open>linked g p xs e\<close>: the slots \<open>xs\<close> are chained both ways, after \<open>p\<close> and before \<open>e\<close>.\<close>

fun linked :: "(nat \<Rightarrow> node option) \<Rightarrow> nat \<Rightarrow> nat list \<Rightarrow> nat \<Rightarrow> bool" where
  "linked g p [] e \<longleftrightarrow> True"
| "linked g p (x # xs) e \<longleftrightarrow>
     (\<exists>n. g x = Some n \<and> nd_prev n = p \<and> nd_next n = first_of xs e) \<and> linked g x xs e"

lemma linked_append:
  "linked g p (xs @ ys) e \<longleftrightarrow> linked g p xs (first_of ys e) \<and> linked g (last_of p xs) ys e"
  by (induction xs arbitrary: p) (auto simp: first_of_append)

lemma linked_cong:
  "(\<And>x. x \<in> set xs \<Longrightarrow> g x = g' x) \<Longrightarrow> linked g p xs e = linked g' p xs e"
  by (induction xs arbitrary: p) auto

text \<open>What the link surgery needs of the node store.\<close>

locale link_store =
  fixes get :: "'s \<Rightarrow> nat \<Rightarrow> node option"
    and modify :: "'s \<Rightarrow> nat \<Rightarrow> (node \<Rightarrow> node) \<Rightarrow> 's"
  assumes get_modify: "get (modify s i f) j = (if j = i then map_option f (get s i) else get s j)"
begin

lemma linked_modify_other:
  "i \<notin> set xs \<Longrightarrow> linked (get (modify s i f)) p xs e = linked (get s) p xs e"
  by (rule linked_cong) (auto simp: get_modify)

lemma linked_set_last_next:
  assumes "linked (get s) p (xs @ [x]) e" and "distinct (xs @ [x])"
  shows "linked (get (modify s x (\<lambda>t. t\<lparr>nd_next := e'\<rparr>))) p (xs @ [x]) e'"
  using assms by (auto simp: linked_append linked_modify_other get_modify)

lemma linked_set_first_prev:
  assumes "linked (get s) p (x # xs) e" and "distinct (x # xs)"
  shows "linked (get (modify s x (\<lambda>t. t\<lparr>nd_prev := p'\<rparr>))) p' (x # xs) e"
  using assms by (auto simp: linked_modify_other get_modify)

lemma linked_append_slot:
  assumes "linked (get s) NIL (xs @ [x]) NIL" and "distinct (xs @ [x])" and "y \<notin> set (xs @ [x])"
    and "get s y = Some n"
  shows "linked (get (modify (modify s x (\<lambda>t. t\<lparr>nd_next := y\<rparr>)) y
           (\<lambda>m. m\<lparr>nd_prev := x, nd_next := NIL\<rparr>))) NIL ((xs @ [x]) @ [y]) NIL"
proof -
  let ?s = "modify s x (\<lambda>t. t\<lparr>nd_next := y\<rparr>)"
  have "linked (get ?s) NIL (xs @ [x]) y"
    using assms(1,2) by (rule linked_set_last_next)
  then have "linked (get (modify ?s y (\<lambda>m. m\<lparr>nd_prev := x, nd_next := NIL\<rparr>))) NIL (xs @ [x]) y"
    using assms(3) by (subst linked_modify_other) auto
  moreover have "get ?s y = Some n"
    using assms(3,4) by (simp add: get_modify)
  ultimately show ?thesis
    by (subst linked_append) (simp add: get_modify)
qed

text \<open>Bypassing a slot: its neighbours point past it, in both directions.\<close>

lemma linked_bypass:
  assumes "linked (get s) NIL (xs @ y # ys) NIL" and "distinct (xs @ y # ys)"
    and s1: "s1 = (if xs = [] then s else modify s (last xs) (\<lambda>t. t\<lparr>nd_next := first_of ys NIL\<rparr>))"
    and s2: "s2 = (if ys = [] then s1 else modify s1 (hd ys) (\<lambda>t. t\<lparr>nd_prev := last_of NIL xs\<rparr>))"
  shows "linked (get s2) NIL (xs @ ys) NIL"
proof -
  have parts: "linked (get s) NIL xs y" "linked (get s) y ys NIL"
    using assms(1) by (auto simp: linked_append)
  have left: "linked (get s1) NIL xs (first_of ys NIL)"
  proof (cases xs rule: rev_cases)
    case (snoc us u)
    with parts(1) assms(2) show ?thesis
      using linked_set_last_next [of s NIL us u y "first_of ys NIL"] by (simp add: s1)
  qed simp
  have "xs \<noteq> [] \<Longrightarrow> last xs \<notin> set ys"
    using assms(2) last_in_set [of xs] by (auto simp: disjoint_iff)
  then have right: "linked (get s1) y ys NIL"
    using parts(2) by (simp add: s1 linked_modify_other)
  have "linked (get s2) (last_of NIL xs) ys NIL"
  proof (cases ys)
    case (Cons v vs)
    with right assms(2) show ?thesis
      using linked_set_first_prev [of s1 y v vs NIL "last_of NIL xs"] by (simp add: s2)
  qed simp
  moreover have "linked (get s2) NIL xs (first_of ys NIL)"
    using left assms(2) by (cases ys) (auto simp: s2 linked_modify_other)
  ultimately show ?thesis
    by (simp add: linked_append)
qed

end

interpretation ls: link_store slab_get slab_modify
  by unfold_locales (rule slab_get_modify)

section \<open>Payloads\<close>

text \<open>A resting order is a node with its links cleared; link surgery never changes it.\<close>

definition payload :: "node \<Rightarrow> node" where
  "payload n = n\<lparr>nd_prev := NIL, nd_next := NIL\<rparr>"

definition contents :: "node slab \<Rightarrow> nat \<Rightarrow> node option" where
  "contents sl x = map_option payload (slab_get sl x)"

lemma payload_fields [simp]:
  "nd_order_id (payload n) = nd_order_id n" "nd_account (payload n) = nd_account n"
  "nd_side (payload n) = nd_side n" "nd_price (payload n) = nd_price n"
  "nd_remaining (payload n) = nd_remaining n" "nd_client_id (payload n) = nd_client_id n"
  "nd_prev (payload n) = NIL" "nd_next (payload n) = NIL"
  by (simp_all add: payload_def)

lemma payload_links [simp]:
  "payload (n\<lparr>nd_prev := a\<rparr>) = payload n" "payload (n\<lparr>nd_next := a\<rparr>) = payload n"
  "payload (payload n) = payload n"
  by (simp_all add: payload_def)

lemma payload_remaining [simp]: "payload (n\<lparr>nd_remaining := q\<rparr>) = (payload n)\<lparr>nd_remaining := q\<rparr>"
  by (simp add: payload_def)

lemma contents_modify_links:
  "(\<And>n. payload (f n) = payload n) \<Longrightarrow> contents (slab_modify sl i f) = contents sl"
  by (rule ext) (auto simp: contents_def slab_get_modify option.map_comp comp_def)

definition qty_at :: "node slab \<Rightarrow> nat \<Rightarrow> int" where
  "qty_at sl x = nd_remaining (the (contents sl x))"

section \<open>Levels and side books\<close>

definition queue_ok :: "node slab \<Rightarrow> side \<Rightarrow> price \<Rightarrow> nat list \<Rightarrow> bool" where
  "queue_ok sl sd p xs \<longleftrightarrow>
     distinct xs \<and> linked (slab_get sl) NIL xs NIL \<and>
     (\<forall>x\<in>set xs. \<exists>n. contents sl x = Some n \<and> nd_side n = sd \<and> nd_price n = p \<and> 0 < nd_remaining n)"

definition level_ok :: "node slab \<Rightarrow> level option \<Rightarrow> nat list \<Rightarrow> bool" where
  "level_ok sl lo xs \<longleftrightarrow>
     (case lo of
        None \<Rightarrow> xs = []
      | Some lv \<Rightarrow> xs \<noteq> [] \<and> lv_head lv = hd xs \<and> lv_tail lv = last xs \<and> lv_count lv = length xs \<and>
          lv_total_qty lv = sum_list (map (qty_at sl) xs) \<and> fits I64 (lv_total_qty lv))"

definition side_rep :: "node slab \<Rightarrow> side \<Rightarrow> side_book \<Rightarrow> (price \<Rightarrow> nat list) \<Rightarrow> bool" where
  "side_rep sl sd sb Q \<longleftrightarrow>
     sb_side sb = sd \<and>
     (\<forall>p. queue_ok sl sd p (Q p) \<and> level_ok sl (omap_get (sb_levels sb) p) (Q p)) \<and>
     (\<forall>p. Q p \<noteq> [] \<longrightarrow> 0 < p)"

lemma queue_ok_frame:
  assumes "queue_ok sl sd p xs" and "\<And>x. x \<in> set xs \<Longrightarrow> slab_get sl' x = slab_get sl x"
  shows "queue_ok sl' sd p xs"
proof -
  have "linked (slab_get sl') NIL xs NIL = linked (slab_get sl) NIL xs NIL"
    by (rule linked_cong) (rule assms(2))
  with assms show ?thesis
    unfolding queue_ok_def contents_def by auto
qed

lemma level_ok_frame:
  assumes "level_ok sl lo xs" and "\<And>x. x \<in> set xs \<Longrightarrow> contents sl' x = contents sl x"
  shows "level_ok sl' lo xs"
proof -
  have "map (qty_at sl') xs = map (qty_at sl) xs"
    by (rule map_cong) (simp_all add: qty_at_def assms(2))
  then have "level_ok sl' lo xs = level_ok sl lo xs"
    unfolding level_ok_def by (simp only:)
  with assms(1) show ?thesis by simp
qed

lemma side_rep_frame:
  assumes "side_rep sl sd sb Q" and "\<And>p x. x \<in> set (Q p) \<Longrightarrow> slab_get sl' x = slab_get sl x"
  shows "side_rep sl' sd sb Q"
proof -
  have "queue_ok sl' sd p (Q p)" for p
    using assms(1) by (rule_tac queue_ok_frame [of sl sd p "Q p"]) (auto simp: side_rep_def assms(2))
  moreover have "level_ok sl' (omap_get (sb_levels sb) p) (Q p)" for p
    using assms(1) by (rule_tac level_ok_frame [of sl _ "Q p"]) (auto simp: side_rep_def contents_def assms(2))
  ultimately show ?thesis
    using assms(1) by (simp add: side_rep_def)
qed

lemma side_rep_level: "side_rep sl sd sb Q \<Longrightarrow> level_ok sl (omap_get (sb_levels sb) p) (Q p)"
  by (simp add: side_rep_def)

lemma side_rep_queue: "side_rep sl sd sb Q \<Longrightarrow> queue_ok sl sd p (Q p)"
  by (simp add: side_rep_def)

lemma queue_slot:
  "queue_ok sl sd p xs \<Longrightarrow> x \<in> set xs \<Longrightarrow>
   \<exists>n. slab_get sl x = Some n \<and> contents sl x = Some (payload n) \<and>
       nd_side n = sd \<and> nd_price n = p \<and> 0 < nd_remaining n"
  by (fastforce simp: queue_ok_def contents_def)

lemma side_rep_slot:
  "side_rep sl sd sb Q \<Longrightarrow> x \<in> set (Q p) \<Longrightarrow>
   \<exists>n. slab_get sl x = Some n \<and> contents sl x = Some (payload n) \<and>
       nd_side n = sd \<and> nd_price n = p \<and> 0 < nd_remaining n"
  by (rule queue_slot [OF side_rep_queue])

lemma side_rep_disjoint:
  "side_rep sl sd sb Q \<Longrightarrow> x \<in> set (Q p) \<Longrightarrow> x \<in> set (Q p') \<Longrightarrow> p = p'"
  using side_rep_slot [of sl sd sb Q x p] side_rep_slot [of sl sd sb Q x p'] by auto

lemma queue_positive:
  "queue_ok sl sd p xs \<Longrightarrow> x \<in> set xs \<Longrightarrow> 0 < qty_at sl x"
  using queue_slot [of sl sd p xs x] by (auto simp: qty_at_def)

lemma queue_no_NIL: "slab_wf sl \<Longrightarrow> queue_ok sl sd p xs \<Longrightarrow> NIL \<notin> set xs"
  using queue_slot [of sl sd p xs NIL] sl.get_NIL [of sl] by auto

lemma level_total_rep:
  "side_rep sl sd sb Q \<Longrightarrow> level_total sb p = sum_list (map (qty_at sl) (Q p))"
  by (drule side_rep_level [of _ _ _ _ p], cases "omap_get (sb_levels sb) p")
    (simp_all add: level_total_def level_ok_def)

lemma level_total_fits: "side_rep sl sd sb Q \<Longrightarrow> fits I64 (level_total sb p)"
  by (drule side_rep_level [of _ _ _ _ p], cases "omap_get (sb_levels sb) p")
    (auto simp: level_total_def level_ok_def)

section \<open>Appending and unlinking\<close>

lemma last_not_NIL: "NIL \<notin> set xs \<Longrightarrow> xs \<noteq> [] \<Longrightarrow> last xs \<noteq> NIL"
  using last_in_set [of xs] by metis

lemma hd_not_NIL: "NIL \<notin> set xs \<Longrightarrow> xs \<noteq> [] \<Longrightarrow> hd xs \<noteq> NIL"
  using hd_in_set [of xs] by metis

lemma contents_push_links:
  "push_links lv sl slot = (lv', sl') \<Longrightarrow> contents sl' = contents sl"
  by (auto simp: push_links_def contents_modify_links split: if_splits)

lemma push_links_frame:
  "push_links lv sl slot = (lv', sl') \<Longrightarrow> x \<noteq> slot \<Longrightarrow> x \<noteq> lv_tail lv \<Longrightarrow> slab_get sl' x = slab_get sl x"
  by (auto simp: push_links_def slab_get_modify split: if_splits)

lemma push_links_slab:
  assumes "push_links lv sl slot = (lv', sl')"
  shows "live sl' = live sl" and "capacity sl' = capacity sl" and "slab_wf sl \<Longrightarrow> slab_wf sl'"
  using assms by (auto simp: push_links_def sl.len_modify sl.cap_modify sl.wf_modify split: if_splits)

lemma push_links_linked:
  assumes "push_links lv sl slot = (lv', sl')" and "lv_tail lv = last_of NIL xs" and "NIL \<notin> set xs"
    and "linked (slab_get sl) NIL xs NIL" and "distinct (xs @ [slot])" and "slab_get sl slot = Some nd"
  shows "linked (slab_get sl') NIL (xs @ [slot]) NIL"
proof (cases xs rule: rev_cases)
  case Nil
  with assms show ?thesis
    by (auto simp: push_links_def slab_get_modify)
next
  case (snoc us u)
  with assms have "lv_tail lv = u" "u \<noteq> NIL" by auto
  with assms snoc show ?thesis
    using ls.linked_append_slot [of sl us u slot nd] by (auto simp: push_links_def)
qed

lemma push_back_rep:
  assumes rep: "side_rep sl sd sb Q" and wf: "slab_wf sl"
    and nd: "slab_get sl slot = Some nd" "nd_side nd = sd" "nd_price nd = p"
    and pos: "0 < p" "0 < nd_remaining nd"
    and fresh: "\<And>p'. slot \<notin> set (Q p')"
    and fit: "fits I64 (level_total sb p + nd_remaining nd)" "length (Q p) < u32_max"
  shows "\<exists>sb' sl'. push_back sb sl slot = Some (sb', sl') \<and> contents sl' = contents sl \<and>
    live sl' = live sl \<and> capacity sl' = capacity sl \<and> slab_wf sl' \<and>
    side_rep sl' sd sb' (Q(p := Q p @ [slot])) \<and>
    (\<forall>x. x \<noteq> slot \<longrightarrow> x \<notin> set (Q p) \<longrightarrow> slab_get sl' x = slab_get sl x)"
proof -
  let ?xs = "Q p"
  define lv where "lv = (case omap_get (sb_levels sb) p of None \<Rightarrow> level_empty | Some l \<Rightarrow> l)"
  obtain lv' sl' where links: "push_links lv sl slot = (lv', sl')"
    by (cases "push_links lv sl slot")
  have q: "queue_ok sl sd p ?xs" and l: "level_ok sl (omap_get (sb_levels sb) p) ?xs"
    using rep by (simp_all add: side_rep_def)
  have lv: "lv_head lv = first_of ?xs NIL" "lv_tail lv = last_of NIL ?xs" "lv_count lv = length ?xs"
    "lv_total_qty lv = level_total sb p" "level_total sb p = sum_list (map (qty_at sl) ?xs)"
    using l level_total_rep [OF rep, of p]
    by (auto simp: lv_def level_ok_def level_empty_def level_total_def first_of_def last_of_def
        split: option.splits)
  have lv': "lv_head lv' = first_of (?xs @ [slot]) NIL" "lv_tail lv' = slot"
    "lv_count lv' = length ?xs" "lv_total_qty lv' = level_total sb p"
    using links lv queue_no_NIL [OF wf q] last_not_NIL [of ?xs]
    by (auto simp: push_links_def first_of_def last_of_def split: if_splits)
  let ?lv = "lv'\<lparr>lv_count := lv_count lv' + 1, lv_total_qty := lv_total_qty lv' + nd_remaining nd\<rparr>"
  let ?sb = "sb\<lparr>sb_levels := omap_put p ?lv (sb_levels sb)\<rparr>"
  have pb: "push_back sb sl slot = Some (?sb, sl')"
    using nd fit lv' links by (simp add: push_back_def lv_def [symmetric] Let_def)
  have cont: "contents sl' = contents sl"
    using links by (rule contents_push_links)
  have tail: "lv_tail lv \<in> insert NIL (set ?xs)"
    using lv(2) last_of_in [of ?xs NIL] by (cases "?xs = []") auto
  have frame: "slab_get sl' x = slab_get sl x" if "x \<noteq> slot" "x \<notin> set ?xs" for x
  proof (cases "x = NIL")
    case True
    then show ?thesis
      using sl.get_NIL [OF wf] sl.get_NIL push_links_slab(3) [OF links wf] by metis
  next
    case False
    with that tail show ?thesis by (intro push_links_frame [OF links]) auto
  qed
  have qty: "qty_at sl' = qty_at sl" by (simp add: qty_at_def cont fun_eq_iff)
  have queue: "queue_ok sl' sd p (?xs @ [slot])"
  proof -
    have "linked (slab_get sl') NIL (?xs @ [slot]) NIL"
      using q fresh nd(1) by (intro push_links_linked [OF links lv(2) queue_no_NIL [OF wf q]])
        (auto simp: queue_ok_def)
    then show ?thesis
      using q fresh nd pos by (auto simp: queue_ok_def cont) (auto simp: contents_def)
  qed
  have level: "level_ok sl' (Some ?lv) (?xs @ [slot])"
    using lv' lv fit nd(1) by (auto simp: level_ok_def qty first_of_def) (auto simp: qty_at_def contents_def hd_append)
  have other: "queue_ok sl' sd p' (Q p') \<and> level_ok sl' (omap_get (sb_levels sb) p') (Q p')"
    if "p' \<noteq> p" for p'
  proof -
    have "slab_get sl' x = slab_get sl x" if "x \<in> set (Q p')" for x
      using that \<open>p' \<noteq> p\<close> side_rep_disjoint [OF rep, of x p' p] fresh by (intro frame) auto
    then show ?thesis
      using rep queue_ok_frame [of sl sd p' "Q p'" sl'] level_ok_frame [of sl _ "Q p'" sl']
      by (auto simp: side_rep_def cont)
  qed
  have "side_rep sl' sd ?sb (Q(p := ?xs @ [slot]))"
    using rep queue level other pos(1) by (auto simp: side_rep_def)
  then show ?thesis
    using pb cont frame push_links_slab [OF links] wf
    by (intro exI [of _ ?sb] exI [of _ sl']) auto
qed


lemma side_keys: "side_rep sl sd sb Q \<Longrightarrow> p \<in> set (omap_keys (sb_levels sb)) \<longleftrightarrow> Q p \<noteq> []"
  using side_rep_level [of sl sd sb Q p] om.key_iff [of p "sb_levels sb"]
  by (cases "omap_get (sb_levels sb) p") (auto simp: level_ok_def omap_keys_def)

lemma contents_unlink_links:
  "unlink_links lv sl slot prv nxt = (lv', sl') \<Longrightarrow> contents sl' = contents sl"
  by (auto simp: unlink_links_def contents_modify_links split: if_splits)

lemma unlink_links_frame:
  "unlink_links lv sl slot prv nxt = (lv', sl') \<Longrightarrow> x \<noteq> slot \<Longrightarrow> x \<noteq> prv \<Longrightarrow> x \<noteq> nxt \<Longrightarrow>
   slab_get sl' x = slab_get sl x"
  by (auto simp: unlink_links_def slab_get_modify split: if_splits)

lemma unlink_links_slab:
  assumes "unlink_links lv sl slot prv nxt = (lv', sl')"
  shows "live sl' = live sl" and "capacity sl' = capacity sl" and "slab_wf sl \<Longrightarrow> slab_wf sl'"
  using assms by (auto simp: unlink_links_def sl.len_modify sl.cap_modify sl.wf_modify split: if_splits)

lemma unlink_links_linked:
  assumes "unlink_links lv sl slot (last_of NIL xs) (first_of ys NIL) = (lv', sl')"
    and "NIL \<notin> set (xs @ ys)" and "linked (slab_get sl) NIL (xs @ slot # ys) NIL"
    and "distinct (xs @ slot # ys)"
  shows "linked (slab_get sl') NIL (xs @ ys) NIL"
proof -
  let ?s1 = "if xs = [] then sl else slab_modify sl (last xs) (\<lambda>t. t\<lparr>nd_next := first_of ys NIL\<rparr>)"
  let ?s2 = "if ys = [] then ?s1 else slab_modify ?s1 (hd ys) (\<lambda>t. t\<lparr>nd_prev := last_of NIL xs\<rparr>)"
  have "last_of NIL xs \<noteq> NIL \<longleftrightarrow> xs \<noteq> []" "first_of ys NIL \<noteq> NIL \<longleftrightarrow> ys \<noteq> []"
    using assms(2) last_not_NIL [of xs] hd_not_NIL [of ys] by (auto simp: last_of_def first_of_def)
  then have sl': "sl' = slab_modify ?s2 slot (\<lambda>n. n\<lparr>nd_prev := NIL, nd_next := NIL\<rparr>)"
    using assms(1) by (auto simp: unlink_links_def last_of_def first_of_def split: if_splits)
  have "linked (slab_get ?s2) NIL (xs @ ys) NIL"
    using assms(3,4) by (rule ls.linked_bypass) (rule refl)+
  then show ?thesis
    using assms(4) unfolding sl' by (subst ls.linked_modify_other) auto
qed

lemma unlink_rep:
  assumes rep: "side_rep sl sd sb Q" and wf: "slab_wf sl" and split: "Q p = xs @ slot # ys"
  shows "\<exists>sb' sl'. unlink sb sl slot = Some (sb', sl') \<and> contents sl' = contents sl \<and>
    live sl' = live sl \<and> capacity sl' = capacity sl \<and> slab_wf sl' \<and>
    side_rep sl' sd sb' (Q(p := xs @ ys)) \<and>
    (\<forall>x. x \<notin> set (Q p) \<longrightarrow> slab_get sl' x = slab_get sl x)"
proof -
  have q: "queue_ok sl sd p (Q p)" and l: "level_ok sl (omap_get (sb_levels sb) p) (Q p)"
    using rep by (simp_all add: side_rep_def)
  obtain nd where nd: "slab_get sl slot = Some nd" "nd_price nd = p" "0 < nd_remaining nd"
    using queue_slot [OF q, of slot] split by auto
  have lnk: "linked (slab_get sl) NIL (xs @ slot # ys) NIL" and dist: "distinct (xs @ slot # ys)"
    using q split by (simp_all add: queue_ok_def)
  then have ends: "nd_prev nd = last_of NIL xs" "nd_next nd = first_of ys NIL"
    using nd(1) by (auto simp: linked_append)
  have nonil: "NIL \<notin> set (xs @ slot # ys)"
    using queue_no_NIL [OF wf q] split by simp
  obtain lv where lv: "omap_get (sb_levels sb) p = Some lv" "lv_head lv = hd (xs @ slot # ys)"
    "lv_tail lv = last (xs @ slot # ys)" "lv_count lv = length (xs @ slot # ys)"
    "lv_total_qty lv = sum_list (map (qty_at sl) (xs @ slot # ys))" "fits I64 (lv_total_qty lv)"
    using l split by (auto simp: level_ok_def split: option.splits)
  obtain lv' sl' where links: "unlink_links lv sl slot (last_of NIL xs) (first_of ys NIL) = (lv', sl')"
    by (cases "unlink_links lv sl slot (last_of NIL xs) (first_of ys NIL)")
  have cont: "contents sl' = contents sl"
    using links by (rule contents_unlink_links)
  then have qty: "qty_at sl' = qty_at sl" by (simp add: qty_at_def fun_eq_iff)
  have slotq: "qty_at sl slot = nd_remaining nd"
    using nd(1) by (simp add: qty_at_def contents_def)
  have lv': "lv_head lv' = first_of (xs @ ys) NIL" "lv_tail lv' = last_of NIL (xs @ ys)"
    "lv_count lv' = lv_count lv" "lv_total_qty lv' = lv_total_qty lv"
    using links lv(2,3) nonil last_not_NIL [of xs] hd_not_NIL [of ys]
    by (auto simp: unlink_links_def first_of_def last_of_def split: if_splits)
  have sum: "lv_total_qty lv - nd_remaining nd = sum_list (map (qty_at sl) (xs @ ys))"
    using lv(5) slotq by simp
  have "0 \<le> qty_at sl x" if "x \<in> set (Q p)" for x
    using queue_positive [OF q that] by simp
  then have "0 \<le> sum_list (map (qty_at sl) (xs @ ys))"
    using split by (intro sum_list_nonneg) auto
  then have fit: "fits I64 (lv_total_qty lv - nd_remaining nd)"
    using sum nd(3) by (intro fits_nonneg_le [OF lv(6)]) simp_all
  let ?lv = "lv'\<lparr>lv_count := lv_count lv' - 1, lv_total_qty := lv_total_qty lv' - nd_remaining nd\<rparr>"
  define sb' where "sb' = (if xs @ ys = [] then sb\<lparr>sb_levels := omap_remove p (sb_levels sb)\<rparr>
             else sb\<lparr>sb_levels := omap_put p ?lv (sb_levels sb)\<rparr>)"
  have ul: "unlink sb sl slot = Some (sb', sl')"
    using nd lv(1,4) lv' fit ends links by (auto simp: unlink_def Let_def sb'_def)
  have tgt: "last_of NIL xs \<in> insert NIL (set (Q p))" "first_of ys NIL \<in> insert NIL (set (Q p))"
    using split last_in_set [of xs] hd_in_set [of ys] by (auto simp: last_of_def first_of_def)
  have frame: "slab_get sl' x = slab_get sl x" if "x \<notin> set (Q p)" for x
  proof (cases "x = NIL")
    case True
    then show ?thesis
      using sl.get_NIL [OF wf] sl.get_NIL unlink_links_slab(3) [OF links wf] by metis
  next
    case False
    with that tgt split show ?thesis by (intro unlink_links_frame [OF links]) auto
  qed
  have queue: "queue_ok sl' sd p (xs @ ys)"
    using q split dist unlink_links_linked [OF links _ lnk dist] nonil
    by (auto simp: queue_ok_def cont)
  have level: "level_ok sl' (omap_get (sb_levels sb') p) (xs @ ys)"
  proof (cases "xs @ ys = []")
    case True
    then show ?thesis by (simp add: level_ok_def sb'_def)
  next
    case False
    then show ?thesis
      using lv' lv(4) sum fit by (auto simp: level_ok_def qty first_of_def last_of_def sb'_def)
  qed
  have other: "queue_ok sl' sd p' (Q p') \<and> level_ok sl' (omap_get (sb_levels sb') p') (Q p')"
    if "p' \<noteq> p" for p'
  proof -
    have "slab_get sl' x = slab_get sl x" if "x \<in> set (Q p')" for x
      using that \<open>p' \<noteq> p\<close> side_rep_disjoint [OF rep, of x p' p] by (intro frame) auto
    then have "queue_ok sl' sd p' (Q p')" "level_ok sl' (omap_get (sb_levels sb) p') (Q p')"
      using rep queue_ok_frame [of sl sd p' "Q p'" sl'] level_ok_frame [of sl _ "Q p'" sl']
      by (auto simp: side_rep_def cont)
    with that show ?thesis by (simp add: sb'_def)
  qed
  have side: "sb_side sb' = sd"
    using rep by (simp add: side_rep_def sb'_def)
  have pos: "(Q(p := xs @ ys)) p' \<noteq> [] \<longrightarrow> 0 < p'" for p'
    using rep split by (auto simp: side_rep_def)
  have "side_rep sl' sd sb' (Q(p := xs @ ys))"
    unfolding side_rep_def using side queue level other pos by auto
  then show ?thesis
    using ul cont frame unlink_links_slab [OF links] wf
    by (intro exI [of _ sb'] exI [of _ sl']) auto
qed

end
