(* ===== verification/Dedup.thy ===== *)
theory Dedup
  imports Orders "HOL-Library.Product_Lexorder"
begin

text \<open>
  The bounded idempotency cache of \<open>crates/orderbook/src/dedup.rs\<close>: a map from (account, client id)
  to the recorded result and the FIFO of its keys, oldest first.
\<close>

section \<open>State and operations\<close>

type_synonym dedup_key = "account_id \<times> nat"

record dedup_cache =
  dd_capacity :: nat
  dd_map :: "(dedup_key, match_result) omap"
  dd_order :: "dedup_key list"

definition dd_with_capacity :: "nat \<Rightarrow> dedup_cache" where
  "dd_with_capacity n = \<lparr>dd_capacity = n, dd_map = omap_empty, dd_order = []\<rparr>"

definition dd_get :: "dedup_cache \<Rightarrow> account_id \<Rightarrow> nat \<Rightarrow> match_result option" where
  "dd_get c account client_id =
     (if dd_capacity c = 0 then None else omap_get (dd_map c) (account, client_id))"

fun dd_evict ::
  "nat \<Rightarrow> dedup_key list \<Rightarrow> (dedup_key, match_result) omap \<Rightarrow> dedup_key list \<times> (dedup_key, match_result) omap"
where
  "dd_evict cap [] m = ([], m)"
| "dd_evict cap (k # ks) m =
     (if length (k # ks) \<ge> cap then dd_evict cap ks (omap_remove k m) else (k # ks, m))"

definition dd_insert :: "dedup_cache \<Rightarrow> account_id \<Rightarrow> nat \<Rightarrow> match_result \<Rightarrow> dedup_cache" where
  "dd_insert c account client_id r =
     (if dd_capacity c = 0 then c
      else let key = (account, client_id) in
        case omap_get (dd_map c) key of
          Some _ \<Rightarrow> c\<lparr>dd_map := omap_put key r (dd_map c)\<rparr>
        | None \<Rightarrow>
            let (ord, m) = dd_evict (dd_capacity c) (dd_order c) (dd_map c)
            in c\<lparr>dd_order := ord @ [key], dd_map := omap_put key r m\<rparr>)"

definition dd_record_count :: "dedup_cache \<Rightarrow> nat" where
  "dd_record_count c = length (dd_order c)"

text \<open>The key loop of the representation check, with the keys seen so far.\<close>

fun dd_check_keys ::
  "(dedup_key, match_result) omap \<Rightarrow> dedup_key set \<Rightarrow> dedup_key list \<Rightarrow> (unit, book_state_error) result" where
  "dd_check_keys m seen [] = Ok ()"
| "dd_check_keys m seen (k # ks) =
     (if k \<in> seen then Err (NonCanonical ''dedup FIFO must not contain duplicate keys'')
      else case omap_get m k of
        None \<Rightarrow> Err (InvalidValue ''dedup FIFO key must have a cached result'')
      | Some _ \<Rightarrow> dd_check_keys m (insert k seen) ks)"

definition dd_validate :: "dedup_cache \<Rightarrow> nat \<Rightarrow> (unit, book_state_error) result" where
  "dd_validate c expected_capacity =
     (if dd_capacity c \<noteq> expected_capacity
      then Err (InvalidValue ''dedup capacity must match the logical book configuration'')
      else if length (dd_order c) \<noteq> omap_size (dd_map c)
      then Err (InvalidValue ''dedup FIFO and result map must contain the same keys'')
      else if omap_size (dd_map c) > dd_capacity c
      then Err (InvalidValue ''dedup records must not exceed capacity'')
      else dd_check_keys (dd_map c) {} (dd_order c))"

section \<open>The invariant\<close>

definition dd_wf :: "dedup_cache \<Rightarrow> bool" where
  "dd_wf c \<longleftrightarrow>
     distinct (dd_order c) \<and> length (dd_order c) \<le> dd_capacity c \<and>
     dom (omap_get (dd_map c)) = set (dd_order c)"

lemma dd_wf_None: "dd_wf c \<Longrightarrow> omap_get (dd_map c) k = None \<longleftrightarrow> k \<notin> set (dd_order c)"
  by (metis dd_wf_def domIff)

lemma dd_wf_Some: "dd_wf c \<Longrightarrow> k \<in> set (dd_order c) \<Longrightarrow> \<exists>r. omap_get (dd_map c) k = Some r"
  using dd_wf_None [of c k] by auto

lemma dd_wf_with_capacity: "dd_wf (dd_with_capacity n)"
  by (simp add: dd_wf_def dd_with_capacity_def dom_def)

text \<open>At or below capacity, eviction drops the oldest key and only when the window is full.\<close>

lemma dd_evict_eq:
  assumes "length ks \<le> cap" and "0 < cap"
  shows "dd_evict cap ks m =
    (if length ks = cap then (tl ks, omap_remove (hd ks) m) else (ks, m))"
proof (cases ks)
  case (Cons k rest)
  with assms show ?thesis by (cases rest) auto
qed (use assms in simp)

lemma dd_insert_known:
  assumes "0 < dd_capacity c" and "omap_get (dd_map c) (a, i) = Some r0"
  shows "dd_insert c a i r = c\<lparr>dd_map := omap_put (a, i) r (dd_map c)\<rparr>"
  using assms by (simp add: dd_insert_def)

lemma dd_insert_fresh:
  assumes "0 < dd_capacity c" and "dd_wf c" and "omap_get (dd_map c) (a, i) = None"
  shows "dd_insert c a i r =
    (if length (dd_order c) = dd_capacity c
     then c\<lparr>dd_order := tl (dd_order c) @ [(a, i)],
            dd_map := omap_put (a, i) r (omap_remove (hd (dd_order c)) (dd_map c))\<rparr>
     else c\<lparr>dd_order := dd_order c @ [(a, i)], dd_map := omap_put (a, i) r (dd_map c)\<rparr>)"
  using assms by (simp add: dd_insert_def dd_wf_def dd_evict_eq Let_def)

lemma dd_insert_capacity [simp]: "dd_capacity (dd_insert c a i r) = dd_capacity c"
  by (auto simp: dd_insert_def Let_def split: option.splits prod.splits)

lemma dd_insert_wf:
  assumes wf: "dd_wf c"
  shows "dd_wf (dd_insert c a i r)"
proof (cases "0 < dd_capacity c \<and> omap_get (dd_map c) (a, i) = None")
  case True
  then have new: "(a, i) \<notin> set (dd_order c)"
    using wf by (simp add: dd_wf_None)
  have dom: "dom (omap_get (dd_map c)) = set (dd_order c)" "distinct (dd_order c)"
    "length (dd_order c) \<le> dd_capacity c"
    using wf by (simp_all add: dd_wf_def)
  show ?thesis
  proof (cases "length (dd_order c) = dd_capacity c")
    case full: True
    then obtain k ks where "dd_order c = k # ks"
      using True by (cases "dd_order c") auto
    then show ?thesis
      using True full dom new dd_insert_fresh [OF _ wf, of a i r]
      by (auto simp: dd_wf_def omap_get_put_fun omap_get_remove_fun)
  next
    case False
    then show ?thesis
      using True dom new dd_insert_fresh [OF _ wf, of a i r]
      by (auto simp: dd_wf_def omap_get_put_fun)
  qed
next
  case False
  show ?thesis
  proof (cases "dd_capacity c = 0")
    case True
    then show ?thesis using wf by (simp add: dd_insert_def)
  next
    case pos: False
    with False obtain y where y: "omap_get (dd_map c) (a, i) = Some y" by auto
    then have "(a, i) \<in> set (dd_order c)" using dd_wf_None [OF wf, of "(a, i)"] by simp
    then show ?thesis
      using wf pos dd_insert_known [OF _ y, of r] by (simp add: dd_wf_def omap_get_put_fun insert_absorb)
  qed
qed

lemma dd_get_insert_same:
  assumes "dd_wf c" and "0 < dd_capacity c"
  shows "dd_get (dd_insert c a i r) a i = Some r"
  using assms by (cases "omap_get (dd_map c) (a, i)")
    (auto simp: dd_get_def dd_insert_known dd_insert_fresh)

section \<open>The replay-cache interface\<close>

text \<open>
  What a client of an idempotency cache relies on: the recorded result is returned while the key is
  in the window, and one recording pushes at most one older key out, the oldest.
\<close>

locale replay_cache =
  fixes wf :: "'c \<Rightarrow> bool"
    and cap :: "'c \<Rightarrow> nat"
    and window :: "'c \<Rightarrow> 'k list"
    and get :: "'c \<Rightarrow> 'k \<Rightarrow> 'r option"
    and put :: "'c \<Rightarrow> 'k \<Rightarrow> 'r \<Rightarrow> 'c"
  assumes wf_put: "wf c \<Longrightarrow> wf (put c k r)"
    and cap_put: "cap (put c k r) = cap c"
    and get_put_same: "wf c \<Longrightarrow> 0 < cap c \<Longrightarrow> get (put c k r) k = Some r"
    and get_put_other: "wf c \<Longrightarrow> j \<noteq> k \<Longrightarrow> j \<in> set (window (put c k r)) \<Longrightarrow>
      get (put c k r) j = get c j"
    and window_known: "wf c \<Longrightarrow> k \<in> set (window c) \<Longrightarrow> window (put c k r) = window c"
    and window_room: "wf c \<Longrightarrow> k \<notin> set (window c) \<Longrightarrow> length (window c) < cap c \<Longrightarrow>
      window (put c k r) = window c @ [k]"
    and window_full: "wf c \<Longrightarrow> k \<notin> set (window c) \<Longrightarrow> length (window c) = cap c \<Longrightarrow> 0 < cap c \<Longrightarrow>
      window (put c k r) = tl (window c) @ [k]"
    and window_bounded: "wf c \<Longrightarrow> length (window c) \<le> cap c"
begin

text \<open>A key recorded last keeps its place while fewer than \<open>cap\<close> other keys follow it.\<close>

lemma window_keeps:
  assumes "wf c" and "0 < cap c" and "window c = xs @ k # ys" and "length ys + 1 < cap c" and "j \<noteq> k"
  shows "\<exists>xs' ys'. window (put c j r) = xs' @ k # ys' \<and> length ys' \<le> length ys + 1"
proof (cases "j \<in> set (window c)")
  case True
  with assms have "window (put c j r) = xs @ k # ys" by (simp add: window_known)
  then show ?thesis by fastforce
next
  case False
  show ?thesis
  proof (cases "length (window c) = cap c")
    case True
    with assms(3,4) obtain x xs' where "xs = x # xs'" by (cases xs) auto
    then have "window (put c j r) = xs' @ k # (ys @ [j])"
      using window_full [OF assms(1) False True assms(2)] assms(3) by simp
    then show ?thesis by fastforce
  next
    case neq: False
    then have "window (put c j r) = xs @ k # (ys @ [j])"
      using window_room [OF assms(1) False] window_bounded [OF assms(1)] assms(3) by simp
    then show ?thesis by fastforce
  qed
qed

lemma get_after_others:
  assumes "wf c" and "0 < cap c" and "window c = xs @ k # ys" and "get c k = Some r"
    and "length ys + length js < cap c" and "k \<notin> fst ` set js"
  shows "get (fold (\<lambda>(j, q) d. put d j q) js c) k = Some r"
  using assms
proof (induction js arbitrary: c xs ys)
  case Nil
  then show ?case by simp
next
  case (Cons jq js)
  obtain j q where jq: "jq = (j, q)" by (cases jq)
  have jk: "j \<noteq> k" using Cons.prems jq by auto
  obtain xs' ys' where win: "window (put c j q) = xs' @ k # ys'" "length ys' \<le> length ys + 1"
    using window_keeps [OF Cons.prems(1,2,3), of j q] Cons.prems(5) jk by auto
  have "get (put c j q) k = Some r"
    using get_put_other [OF Cons.prems(1), of k j q] jk win Cons.prems(4) by simp
  then have "get (fold (\<lambda>(j, q) d. put d j q) js (put c j q)) k = Some r"
    using Cons.prems win by (intro Cons.IH [of _ xs' ys'])
      (simp_all add: wf_put cap_put)
  then show ?case by (simp add: jq)
qed

lemma get_within_window:
  assumes "wf c" and "length js < cap c" and "k \<notin> fst ` set js"
    and last: "window (put c k r) = xs @ [k]"
  shows "get (fold (\<lambda>(j, q) d. put d j q) js (put c k r)) k = Some r"
  using assms by (intro get_after_others [of _ xs k "[]"])
    (simp_all add: wf_put cap_put get_put_same)

end

definition dd_record :: "dedup_cache \<Rightarrow> dedup_key \<Rightarrow> match_result \<Rightarrow> dedup_cache" where
  "dd_record c k r = dd_insert c (fst k) (snd k) r"

definition dd_lookup :: "dedup_cache \<Rightarrow> dedup_key \<Rightarrow> match_result option" where
  "dd_lookup c k = dd_get c (fst k) (snd k)"

interpretation dd: replay_cache dd_wf dd_capacity dd_order dd_lookup dd_record
proof unfold_locales
  fix c :: dedup_cache and j k :: dedup_key and r :: match_result
  obtain a i where k: "k = (a, i)" by (cases k)
  show "dd_wf c \<Longrightarrow> dd_wf (dd_record c k r)"
    by (simp add: dd_record_def dd_insert_wf)
  show "dd_capacity (dd_record c k r) = dd_capacity c"
    by (simp add: dd_record_def)
  show "dd_wf c \<Longrightarrow> 0 < dd_capacity c \<Longrightarrow> dd_lookup (dd_record c k r) k = Some r"
    by (simp add: dd_record_def dd_lookup_def dd_get_insert_same)
  show "dd_wf c \<Longrightarrow> k \<in> set (dd_order c) \<Longrightarrow> dd_order (dd_record c k r) = dd_order c"
    using dd_wf_Some [of c k] by (auto simp: dd_record_def dd_insert_def Let_def k)
  show "dd_wf c \<Longrightarrow> k \<notin> set (dd_order c) \<Longrightarrow> length (dd_order c) < dd_capacity c \<Longrightarrow>
    dd_order (dd_record c k r) = dd_order c @ [k]"
    using dd_insert_fresh [of c a i r] by (auto simp: dd_record_def dd_wf_None k)
  show "dd_wf c \<Longrightarrow> k \<notin> set (dd_order c) \<Longrightarrow> length (dd_order c) = dd_capacity c \<Longrightarrow>
    0 < dd_capacity c \<Longrightarrow> dd_order (dd_record c k r) = tl (dd_order c) @ [k]"
    using dd_insert_fresh [of c a i r] by (auto simp: dd_record_def dd_wf_None k)
  show "dd_wf c \<Longrightarrow> length (dd_order c) \<le> dd_capacity c"
    by (simp add: dd_wf_def)
  show "dd_lookup (dd_record c k r) j = dd_lookup c j"
    if wf: "dd_wf c" and neq: "j \<noteq> k" and mem: "j \<in> set (dd_order (dd_record c k r))"
  proof (cases "0 < dd_capacity c \<and> omap_get (dd_map c) (a, i) = None")
    case True
    then have new: "k \<notin> set (dd_order c)" using wf by (simp add: dd_wf_None k)
    show ?thesis
    proof (cases "length (dd_order c) = dd_capacity c")
      case full: True
      then obtain h t where ord: "dd_order c = h # t"
        using True by (cases "dd_order c") auto
      then have "j \<noteq> h"
        using mem neq wf True full dd_insert_fresh [of c a i r] by (auto simp: dd_record_def dd_wf_def k)
      then show ?thesis
        using True full neq wf ord dd_insert_fresh [of c a i r]
        by (simp add: dd_record_def dd_lookup_def dd_get_def k)
    next
      case False
      then show ?thesis
        using True neq wf dd_insert_fresh [of c a i r]
        by (simp add: dd_record_def dd_lookup_def dd_get_def k)
    qed
  next
    case False
    then show ?thesis
      using neq by (auto simp: dd_record_def dd_lookup_def dd_get_def dd_insert_def Let_def k)
  qed
qed

section \<open>The validator decides the invariant\<close>

lemma dd_check_keys_iff:
  "dd_check_keys m seen ks = Ok () \<longleftrightarrow>
     distinct ks \<and> set ks \<inter> seen = {} \<and> (\<forall>k\<in>set ks. omap_get m k \<noteq> None)"
  by (induction ks arbitrary: seen) (auto split: option.splits)

lemma dd_validate_iff:
  "dd_validate c n = Ok () \<longleftrightarrow> dd_wf c \<and> dd_capacity c = n"
proof -
  let ?o = "dd_order c" and ?d = "dom (omap_get (dd_map c))"
  have fin: "finite ?d"
    using om.key_iff [of _ "dd_map c"] by (metis domIff finite_imageI finite_set rev_finite_subset subsetI)
  have "length ?o = card ?d \<and> distinct ?o \<and> set ?o \<subseteq> ?d \<longleftrightarrow> distinct ?o \<and> ?d = set ?o"
    using fin card_subset_eq [OF fin, of "set ?o"] by (auto simp: distinct_card)
  then show ?thesis
    unfolding dd_validate_def dd_wf_def
    by (auto simp: dd_check_keys_iff omap_size_card subset_iff distinct_card split: if_splits)
qed

section \<open>Properties\<close>

text \<open>C23 (safety). Exactly-once window: after a result is recorded for a new key, any sequence of fewer
  than \<open>capacity\<close> recordings for other keys leaves that result in place, so a repeated submission
  with the key replays the first result.
\<close>

theorem dedup_exactly_once_window:
  assumes "dd_wf c" and "length js < dd_capacity c" and "dd_lookup c k = None" and "k \<notin> fst ` set js"
  shows "dd_lookup (fold (\<lambda>(j, q) d. dd_record d j q) js (dd_record c k r)) k = Some r"
proof -
  have pos: "0 < dd_capacity c"
    using assms(2) by linarith
  then have new: "k \<notin> set (dd_order c)"
    using assms(1,3) by (simp add: dd_lookup_def dd_get_def dd_wf_None)
  have "\<exists>xs. dd_order (dd_record c k r) = xs @ [k]"
    using dd.window_room [OF assms(1) new] dd.window_full [OF assms(1) new _ pos]
      dd.window_bounded [OF assms(1)] by (cases "length (dd_order c) = dd_capacity c") auto
  then obtain xs where "dd_order (dd_record c k r) = xs @ [k]" ..
  then show ?thesis
    by (rule dd.get_within_window [OF assms(1,2,4)])
qed

lemma dedup_exactly_once_window_witness:
  "dd_lookup (fold (\<lambda>(j, q) d. dd_record d j q) [((1, 8), rejected), ((2, 7), rejected)]
     (dd_record (dd_with_capacity 3) (1, 7) rejected)) (1, 7) = Some rejected"
  by (rule dedup_exactly_once_window [OF dd_wf_with_capacity])
    (simp_all add: dd_with_capacity_def dd_lookup_def dd_get_def)

end
