(* ===== verification/Hashing.thy ===== *)
theory Hashing
  imports Prelude
begin

text \<open>
  Fixed-width little-endian byte strings, and the domain-separated hashing of
  \<open>crates/crypto/src/hash.rs\<close>. SHA-256 itself is third-party code: it is the argument \<open>sha\<close> of every
  definition that hashes, a function from byte strings to digests. A digest \<open>[u8; 32]\<close> is a
  \<open>256 word\<close> whose little-endian bytes are the array, so bytewise XOR is the XOR of the word.
\<close>

unbundle bit_operations_syntax

section \<open>Little-endian integers\<close>

fun le_bytes :: "nat \<Rightarrow> nat \<Rightarrow> bytes" where
  "le_bytes 0 x = []"
| "le_bytes (Suc n) x = word_of_nat (x mod 256) # le_bytes n (x div 256)"

fun le_nat :: "bytes \<Rightarrow> nat" where
  "le_nat [] = 0"
| "le_nat (b # bs) = unat b + 256 * le_nat bs"

definition le_i64 :: "int \<Rightarrow> bytes" where
  "le_i64 x = le_bytes 8 (nat (x mod 2 ^ 64))"

definition i64_of_bytes :: "bytes \<Rightarrow> int" where
  "i64_of_bytes bs = (let x = int (le_nat bs) in if x < 2 ^ 63 then x else x - 2 ^ 64)"

lemma length_le_bytes [simp]: "length (le_bytes n x) = n"
  by (induction n arbitrary: x) simp_all

lemma length_le_i64 [simp]: "length (le_i64 x) = 8"
  by (simp add: le_i64_def)

lemma unat_byte_mod: "unat (word_of_nat (x mod 256) :: byte) = x mod 256"
  by (simp add: unat_of_nat)

lemma le_nat_le_bytes: "le_nat (le_bytes n x) = x mod 256 ^ n"
  by (induction n arbitrary: x) (simp_all add: unat_byte_mod mod_mult2_eq)

lemma le_nat_le_bytes_id: "x < 256 ^ n \<Longrightarrow> le_nat (le_bytes n x) = x"
  by (simp add: le_nat_le_bytes)

lemma le_nat_less: "le_nat bs < 256 ^ length bs"
proof (induction bs)
  case Nil
  then show ?case by simp
next
  case (Cons b bs)
  have "unat b < 256"
    using unsigned_less [of b, where ?'a = nat] by simp
  with Cons show ?case by simp
qed

lemma le_bytes_le_nat: "le_bytes (length bs) (le_nat bs) = bs"
proof (induction bs)
  case Nil
  then show ?case by simp
next
  case (Cons b bs)
  have "unat b < 256"
    using unsigned_less [of b, where ?'a = nat] by simp
  with Cons show ?case by simp
qed

lemma i64_round_trip:
  assumes "fits I64 x"
  shows "i64_of_bytes (le_i64 x) = x"
proof -
  have "nat (x mod 2 ^ 64) < 256 ^ 8"
    by (simp add: nat_less_iff)
  then have "le_nat (le_i64 x) = nat (x mod 2 ^ 64)"
    by (simp add: le_i64_def le_nat_le_bytes_id)
  moreover have "x mod 2 ^ 64 = (if x < 0 then x + 2 ^ 64 else x)"
  proof (cases "x < 0")
    case True
    have "x mod 2 ^ 64 = (x + 2 ^ 64) mod 2 ^ 64" by simp
    also have "\<dots> = x + 2 ^ 64"
      using assms True by (intro mod_pos_pos_trivial) (simp_all add: fits_def)
    finally show ?thesis using True by simp
  next
    case False
    then show ?thesis using assms by (simp add: fits_def mod_pos_pos_trivial)
  qed
  ultimately show ?thesis
    using assms by (simp add: i64_of_bytes_def Let_def fits_def)
qed

section \<open>Domain-separated hashing\<close>

type_synonym hash = "256 word"
type_synonym sha256 = "bytes \<Rightarrow> hash"

definition ascii :: "string \<Rightarrow> bytes" where
  "ascii s = map of_char s"

definition hash_bytes :: "hash \<Rightarrow> bytes" where
  "hash_bytes h = le_bytes 32 (unat h)"

definition hash_domain :: "sha256 \<Rightarrow> bytes \<Rightarrow> bytes \<Rightarrow> hash" where
  "hash_domain sha tag data = sha (le_bytes 8 (length tag) @ tag @ le_bytes 8 (length data) @ data)"

definition DOMAIN_EXECUTION :: bytes where
  "DOMAIN_EXECUTION = ascii ''dexos:execution:v1''"

definition DOMAIN_ORDERBOOK_STATE :: bytes where
  "DOMAIN_ORDERBOOK_STATE = ascii ''dexos:orderbook:state:v3''"

section \<open>XOR aggregates\<close>

definition xor_all :: "hash list \<Rightarrow> hash" where
  "xor_all hs = foldr (XOR) hs 0"

lemma xor_all_simps [simp]: "xor_all [] = 0" "xor_all (h # hs) = h XOR xor_all hs"
  by (simp_all add: xor_all_def)

lemma xor_all_append: "xor_all (xs @ ys) = xor_all xs XOR xor_all ys"
  by (induction xs) (simp_all add: ac_simps)

lemma xor_cancel [simp]: "(a XOR (a XOR b)) = (b :: hash)"
  by (simp add: bit_eq_iff bit_simps) 

lemma xor_all_middle: "xor_all (xs @ y # ys) = y XOR xor_all (xs @ ys)"
  by (simp add: xor_all_append ac_simps)

end
