(* ===== verification/Book.thy ===== *)
theory Book
  imports LevelRep Dedup Hashing
begin

text \<open>
  The central-limit order book of \<open>crates/orderbook/src/book.rs\<close>: submission, matching, cancellation,
  replacement, baskets, queries and the state root. The dry-run planner is in theory \<open>Planner\<close>, the state
  codec in \<open>BookState\<close> and \<open>BookRestore\<close>.

  An operation that mutates the book returns its result and the new book; \<open>None\<close> is a call that does
  not return (an \<open>expect\<close> that fails, or a loop that never leaves). The container clones that only
  restore reserved capacity have no counterpart. SHA-256 is the argument \<open>sha\<close>.
\<close>

unbundle bit_operations_syntax

section \<open>State\<close>

record locator =
  loc_slot :: nat
  loc_side :: side
  loc_account :: account_id

record order_book =
  bk_config :: book_config
  bk_slab :: "node slab"
  bk_bids :: side_book
  bk_asks :: side_book
  bk_id_index :: "(order_id, locator) omap"
  bk_account_orders :: "(account_id, order_id list) omap"
  bk_positions :: "(account_id, quantity) omap"
  bk_dedup :: dedup_cache
  bk_order_leaf_xor :: hash

definition book_new :: "book_config \<Rightarrow> order_book" where
  "book_new cfg =
     \<lparr>bk_config = cfg, bk_slab = with_capacity (cfg_capacity cfg), bk_bids = side_new Bid,
      bk_asks = side_new Ask, bk_id_index = omap_empty, bk_account_orders = omap_empty,
      bk_positions = omap_empty, bk_dedup = dd_with_capacity (cfg_dedup_capacity cfg),
      bk_order_leaf_xor = 0\<rparr>"

definition side_of :: "side \<Rightarrow> order_book \<Rightarrow> side_book" where
  "side_of sd b = (case sd of Bid \<Rightarrow> bk_bids b | Ask \<Rightarrow> bk_asks b)"

definition set_side :: "side \<Rightarrow> side_book \<Rightarrow> order_book \<Rightarrow> order_book" where
  "set_side sd sb b = (case sd of Bid \<Rightarrow> b\<lparr>bk_bids := sb\<rparr> | Ask \<Rightarrow> b\<lparr>bk_asks := sb\<rparr>)"

section \<open>Queries\<close>

definition best_bid :: "order_book \<Rightarrow> price option" where
  "best_bid b = best_price (bk_bids b)"

definition best_ask :: "order_book \<Rightarrow> price option" where
  "best_ask b = best_price (bk_asks b)"

definition resting_len :: "order_book \<Rightarrow> nat" where
  "resting_len b = live (bk_slab b)"

definition book_contains :: "order_book \<Rightarrow> order_id \<Rightarrow> bool" where
  "book_contains b i = (omap_get (bk_id_index b) i \<noteq> None)"

definition would_cross :: "order_book \<Rightarrow> side \<Rightarrow> price \<Rightarrow> bool" where
  "would_cross b sd p =
     (case sd of
        Bid \<Rightarrow> (case best_price (bk_asks b) of None \<Rightarrow> False | Some a \<Rightarrow> p \<ge> a)
      | Ask \<Rightarrow> (case best_price (bk_bids b) of None \<Rightarrow> False | Some d \<Rightarrow> p \<le> d))"

definition can_rest_without_match :: "order_book \<Rightarrow> new_order \<Rightarrow> (bool, order_error) result" where
  "can_rest_without_match b ord =
     (if no_quantity ord \<le> 0 then Err NonPositiveQuantity
      else if no_price ord \<le> 0 then Err NonPositivePrice
      else if book_contains b (no_order_id ord) then Err DuplicateOrderId
      else if slab_is_full (bk_slab b) then Err CapacityExhausted
      else let current = level_total (side_of (no_side ord) b) (no_price ord) in
        and_then (map_err (\<lambda>_. OrderOverflow) (scalar_checked_add I64 current (no_quantity ord)))
          (\<lambda>_. Ok (\<not> would_cross b (no_side ord) (no_price ord))))"

definition owner :: "order_book \<Rightarrow> order_id \<Rightarrow> account_id option" where
  "owner b i = map_option loc_account (omap_get (bk_id_index b) i)"

definition book_resting_order :: "order_book \<Rightarrow> order_id \<Rightarrow> resting_order option" where
  "book_resting_order b i =
     do { loc \<leftarrow> omap_get (bk_id_index b) i;
          nd \<leftarrow> slab_get (bk_slab b) (loc_slot loc);
          Some \<lparr>ro_order_id = nd_order_id nd, ro_account = nd_account nd, ro_side = nd_side nd,
                ro_price = nd_price nd, ro_remaining = nd_remaining nd\<rparr> }"

definition resting_orders :: "order_book \<Rightarrow> resting_order list" where
  "resting_orders b = List.map_filter (book_resting_order b) (sort (omap_keys (bk_id_index b)))"

definition position :: "order_book \<Rightarrow> account_id \<Rightarrow> quantity" where
  "position b account = (case omap_get (bk_positions b) account of None \<Rightarrow> 0 | Some q \<Rightarrow> q)"

definition set_position :: "order_book \<Rightarrow> account_id \<Rightarrow> quantity \<Rightarrow> order_book" where
  "set_position b account q = b\<lparr>bk_positions := omap_put account q (bk_positions b)\<rparr>"

definition level_quantity :: "order_book \<Rightarrow> side \<Rightarrow> price \<Rightarrow> quantity" where
  "level_quantity b sd p = level_total (side_of sd b) p"

definition total_resting_quantity :: "order_book \<Rightarrow> quantity option" where
  "total_resting_quantity b =
     do { bq \<leftarrow> sum_remaining (bk_bids b) (bk_slab b);
          aq \<leftarrow> sum_remaining (bk_asks b) (bk_slab b);
          Some (scalar_saturating_add I64 bq aq) }"

section \<open>The order-leaf aggregate\<close>

fun side_tag :: "side \<Rightarrow> nat" where
  "side_tag Bid = 0"
| "side_tag Ask = 1"

definition order_leaf :: "sha256 \<Rightarrow> node \<Rightarrow> hash" where
  "order_leaf sha n =
     hash_domain sha DOMAIN_EXECUTION
       (le_bytes 8 (nd_order_id n) @ le_bytes 4 (nd_account n) @ le_bytes 1 (side_tag (nd_side n)) @
        le_i64 (nd_price n) @ le_i64 (nd_remaining n) @ le_bytes 8 (nd_client_id n) @ replicate 11 0)"

definition BOOK_ROOT_SCHEMA_VERSION :: nat where "BOOK_ROOT_SCHEMA_VERSION = 2"

definition finalize_root :: "sha256 \<Rightarrow> hash \<Rightarrow> hash" where
  "finalize_root sha acc =
     hash_domain sha DOMAIN_EXECUTION (le_bytes 1 BOOK_ROOT_SCHEMA_VERSION @ hash_bytes acc)"

definition auth_insert :: "sha256 \<Rightarrow> node \<Rightarrow> order_book \<Rightarrow> order_book" where
  "auth_insert sha n b = b\<lparr>bk_order_leaf_xor := bk_order_leaf_xor b XOR order_leaf sha n\<rparr>"

definition auth_remove :: "sha256 \<Rightarrow> node \<Rightarrow> order_book \<Rightarrow> order_book" where
  "auth_remove sha n b = b\<lparr>bk_order_leaf_xor := bk_order_leaf_xor b XOR order_leaf sha n\<rparr>"

definition auth_update_remaining :: "sha256 \<Rightarrow> order_book \<Rightarrow> nat \<Rightarrow> quantity \<Rightarrow> order_book" where
  "auth_update_remaining sha b slot new_remaining =
     (case slab_get (bk_slab b) slot of
        None \<Rightarrow> b
      | Some n \<Rightarrow>
          let b1 = auth_remove sha n b;
              b2 = b1\<lparr>bk_slab := slab_modify (bk_slab b1) slot (\<lambda>m. m\<lparr>nd_remaining := new_remaining\<rparr>)\<rparr>
          in (case slab_get (bk_slab b2) slot of None \<Rightarrow> b2 | Some n2 \<Rightarrow> auth_insert sha n2 b2))"

definition state_root :: "sha256 \<Rightarrow> order_book \<Rightarrow> hash" where
  "state_root sha b = finalize_root sha (bk_order_leaf_xor b)"

definition state_root_full_rebuild :: "sha256 \<Rightarrow> order_book \<Rightarrow> hash option" where
  "state_root_full_rebuild sha b =
     do { bs \<leftarrow> side_canonical (bk_bids b) (bk_slab b);
          as \<leftarrow> side_canonical (bk_asks b) (bk_slab b);
          Some (finalize_root sha (fold (\<lambda>n acc. acc XOR order_leaf sha n) (bs @ as) 0)) }"

section \<open>Resting and removing\<close>

text \<open>\<open>binary_search\<close> on a sorted slice: the position of the first element that is not smaller.\<close>

definition search_pos :: "order_id list \<Rightarrow> order_id \<Rightarrow> nat" where
  "search_pos ids i = length (takeWhile (\<lambda>x. x < i) ids)"

definition ids_insert :: "order_id list \<Rightarrow> order_id \<Rightarrow> order_id list" where
  "ids_insert ids i = take (search_pos ids i) ids @ i # drop (search_pos ids i) ids"

definition ids_remove :: "order_id list \<Rightarrow> order_id \<Rightarrow> order_id list" where
  "ids_remove ids i =
     (let pos = search_pos ids i in
      if pos < length ids \<and> ids ! pos = i then take pos ids @ drop (pos + 1) ids else ids)"

definition rest_order :: "sha256 \<Rightarrow> order_book \<Rightarrow> new_order \<Rightarrow> quantity \<Rightarrow>
  ((unit, order_error) result \<times> order_book) option" where
  "rest_order sha b ord remaining =
     (case scalar_checked_add I64 (level_total (side_of (no_side ord) b) (no_price ord)) remaining of
        Inl _ \<Rightarrow> Some (Err OrderOverflow, b)
      | Inr _ \<Rightarrow>
          (case slab_insert (bk_slab b) (node_new ord remaining) of
             None \<Rightarrow> None
           | Some (Inl _, sl) \<Rightarrow> Some (Err CapacityExhausted, b\<lparr>bk_slab := sl\<rparr>)
           | Some (Inr slot, sl) \<Rightarrow>
               do { (sb, sl') \<leftarrow> push_back (side_of (no_side ord) b) sl slot;
                    let b1 = (set_side (no_side ord) sb b)\<lparr>bk_slab := sl'\<rparr>;
                        b2 = (case slab_get sl' slot of None \<Rightarrow> b1 | Some n \<Rightarrow> auth_insert sha n b1);
                        b3 = b2\<lparr>bk_id_index := omap_put (no_order_id ord)
                                  \<lparr>loc_slot = slot, loc_side = no_side ord, loc_account = no_account ord\<rparr>
                                  (bk_id_index b2)\<rparr>;
                        ids = (case omap_get (bk_account_orders b3) (no_account ord) of
                                 None \<Rightarrow> [] | Some l \<Rightarrow> l)
                    in Some (Ok (), b3\<lparr>bk_account_orders := omap_put (no_account ord)
                                         (ids_insert ids (no_order_id ord)) (bk_account_orders b3)\<rparr>) }))"

definition remove_resting :: "sha256 \<Rightarrow> order_book \<Rightarrow> side \<Rightarrow> nat \<Rightarrow> order_book option" where
  "remove_resting sha b sd slot =
     (case slab_get (bk_slab b) slot of
        None \<Rightarrow> Some b
      | Some n \<Rightarrow>
          let b1 = auth_remove sha n b in
          do { (sb, sl) \<leftarrow> unlink (side_of sd b1) (bk_slab b1) slot;
               (_, sl') \<leftarrow> slab_remove sl slot;
               let b2 = (set_side sd sb b1)\<lparr>bk_slab := sl'\<rparr>;
                   b3 = b2\<lparr>bk_id_index := omap_remove (nd_order_id n) (bk_id_index b2)\<rparr>
               in Some (case omap_get (bk_account_orders b3) (nd_account n) of
                          None \<Rightarrow> b3
                        | Some ids \<Rightarrow>
                            b3\<lparr>bk_account_orders := omap_put (nd_account n)
                                 (ids_remove ids (nd_order_id n)) (bk_account_orders b3)\<rparr>) })"

section \<open>Matching\<close>

record match_state =
  m_book :: order_book
  m_remaining :: quantity
  m_fills :: "fill list"
  m_stp :: "stp_cancellation list"

definition stp_cancel :: "node \<Rightarrow> stp_cancellation" where
  "stp_cancel n = \<lparr>sc_order_id = nd_order_id n, sc_account = nd_account n, sc_side = nd_side n,
                   sc_price = nd_price n, sc_remaining = nd_remaining n\<rparr>"

definition make_fill :: "new_order \<Rightarrow> node \<Rightarrow> quantity \<Rightarrow> fill" where
  "make_fill taker maker q =
     \<lparr>maker_order = nd_order_id maker, taker_order = no_order_id taker,
      maker_account = nd_account maker, taker_account = no_account taker,
      fill_price = nd_price maker, fill_quantity = q, taker_side = no_side taker\<rparr>"

datatype level_exit = NextLevel | Finished | StoppedByStp

text \<open>Consume or reduce the maker at the head of the level, after its fill is recorded.\<close>

definition apply_fill ::
  "sha256 \<Rightarrow> order_book \<Rightarrow> side \<Rightarrow> price \<Rightarrow> nat \<Rightarrow> node \<Rightarrow> quantity \<Rightarrow> order_book option" where
  "apply_fill sha b mside opp slot maker q =
     (let new_rem = scalar_saturating_sub I64 (nd_remaining maker) q in
      if new_rem = 0 then remove_resting sha b mside slot
      else let b1 = auth_update_remaining sha b slot new_rem in
        do { sb \<leftarrow> reduce_level_qty (side_of mside b1) opp q; Some (set_side mside sb b1) })"

text \<open>The inner loop of \<open>run_match\<close>: work through one price level from its head.\<close>

partial_function (option) match_level ::
  "sha256 \<Rightarrow> new_order \<Rightarrow> price \<Rightarrow> match_state \<Rightarrow> (level_exit \<times> match_state) option" where
  "match_level sha taker opp st =
     (if m_remaining st \<le> 0 then Some (Finished, st)
      else let mside = opposite (no_side taker) in
      case head_at (side_of mside (m_book st)) opp of
        None \<Rightarrow> Some (NextLevel, st)
      | Some slot \<Rightarrow>
          (case slab_get (bk_slab (m_book st)) slot of
             None \<Rightarrow> Some (NextLevel, st)
           | Some maker \<Rightarrow>
               if nd_account maker = no_account taker then
                 (case cfg_stp (bk_config (m_book st)) of
                    CancelMaker \<Rightarrow>
                      do { b \<leftarrow> remove_resting sha (m_book st) mside slot;
                           match_level sha taker opp
                             (st\<lparr>m_book := b, m_stp := m_stp st @ [stp_cancel maker]\<rparr>) }
                  | CancelTaker \<Rightarrow> Some (StoppedByStp, st)
                  | CancelBoth \<Rightarrow>
                      do { b \<leftarrow> remove_resting sha (m_book st) mside slot;
                           Some (StoppedByStp,
                             st\<lparr>m_book := b, m_stp := m_stp st @ [stp_cancel maker]\<rparr>) })
               else
                 (let q = (if m_remaining st \<le> nd_remaining maker then m_remaining st else nd_remaining maker)
                  in do { b \<leftarrow> apply_fill sha (m_book st) mside opp slot maker q;
                          match_level sha taker opp
                            (st\<lparr>m_book := b,
                                m_remaining := scalar_saturating_sub I64 (m_remaining st) q,
                                m_fills := m_fills st @ [make_fill taker maker q]\<rparr>) })))"

text \<open>The outer loop: best opposite level first, while it crosses.\<close>

partial_function (option) match_loop ::
  "sha256 \<Rightarrow> new_order \<Rightarrow> bool \<Rightarrow> match_state \<Rightarrow> (bool \<times> match_state) option" where
  "match_loop sha taker is_market st =
     (if m_remaining st \<le> 0 then Some (False, st)
      else case best_price (side_of (opposite (no_side taker)) (m_book st)) of
        None \<Rightarrow> Some (False, st)
      | Some opp \<Rightarrow>
          if \<not> crosses (no_side taker) is_market (no_price taker) opp then Some (False, st)
          else do { (ex, st') \<leftarrow> match_level sha taker opp st;
                    case ex of
                      NextLevel \<Rightarrow> match_loop sha taker is_market st'
                    | Finished \<Rightarrow> Some (False, st')
                    | StoppedByStp \<Rightarrow> Some (True, st') })"

definition run_match ::
  "sha256 \<Rightarrow> order_book \<Rightarrow> new_order \<Rightarrow> bool \<Rightarrow> quantity \<Rightarrow> (bool \<times> match_state) option" where
  "run_match sha b taker is_market start_qty =
     match_loop sha taker is_market
       \<lparr>m_book = b, m_remaining = start_qty, m_fills = [], m_stp = []\<rparr>"

definition crossable_qty :: "order_book \<Rightarrow> new_order \<Rightarrow> bool \<Rightarrow> int \<Rightarrow> int option" where
  "crossable_qty b taker is_market need =
     side_crossable_qty (side_of (opposite (no_side taker)) b) (bk_slab b) (no_side taker)
       (no_account taker) (no_price taker) is_market (cfg_stp (bk_config b)) need"

section \<open>Commands\<close>

text \<open>The reduce-only clamp of \<open>execute_with_report\<close>: \<open>None\<close> is the early rejection.\<close>

definition reduce_clamp :: "order_book \<Rightarrow> new_order \<Rightarrow> quantity option" where
  "reduce_clamp b ord =
     (let qty = no_quantity ord in
      if no_reduce_only ord \<or> no_order_type ord = ReduceOnly then
        (let pos = position b (no_account ord) in
         case no_side ord of
           Ask \<Rightarrow> if pos \<le> 0 then None else Some (if qty > pos then pos else qty)
         | Bid \<Rightarrow> if pos \<ge> 0 then None
                  else (let avail = prim_saturate I64 (- pos) in Some (if qty > avail then avail else qty)))
      else Some qty)"

type_synonym 'a outcome = "('a, order_error) result \<times> order_book"

definition report :: "fill list \<Rightarrow> order_outcome \<Rightarrow> stp_cancellation list \<Rightarrow> match_report" where
  "report fs oc stp = \<lparr>rep_result = \<lparr>mr_fills = fs, mr_outcome = oc\<rparr>, rep_stp_cancelled = stp\<rparr>"

text \<open>After matching: complete, rest the residual, or cancel it.\<close>

definition settle_residual ::
  "sha256 \<Rightarrow> new_order \<Rightarrow> bool \<Rightarrow> quantity \<Rightarrow> bool \<Rightarrow> match_state \<Rightarrow> match_report outcome option" where
  "settle_residual sha ord is_market qty stopped st =
     (let remaining = m_remaining st;
          filled = scalar_saturating_sub I64 qty remaining;
          will_rest = (\<not> is_market \<and> \<not> stopped \<and> no_tif ord = Gtc \<and> no_order_type ord \<noteq> Market)
      in if remaining = 0 then Some (Ok (report (m_fills st) FullyFilled (m_stp st)), m_book st)
         else if will_rest then
           (case rest_order sha (m_book st) ord remaining of
              None \<Rightarrow> None
            | Some (Inr _, b) \<Rightarrow>
                Some (Ok (report (m_fills st)
                            (if filled > 0 then PartiallyFilledResting remaining else Resting remaining)
                            (m_stp st)), b)
            | Some (Inl e, b) \<Rightarrow>
                if filled > 0 then
                  Some (Ok (report (m_fills st) (PartiallyFilledCancelled filled) (m_stp st)), b)
                else if m_stp st \<noteq> [] then Some (Ok (report (m_fills st) Rejected (m_stp st)), b)
                else Some (Err e, b))
         else Some (Ok (report (m_fills st)
                          (if filled > 0 then PartiallyFilledCancelled filled else Rejected)
                          (m_stp st)), m_book st))"

definition execute_with_report ::
  "sha256 \<Rightarrow> order_book \<Rightarrow> new_order \<Rightarrow> match_report outcome option" where
  "execute_with_report sha b ord =
     (let is_market = (no_order_type ord = Market) in
      if no_quantity ord \<le> 0 then Some (Err NonPositiveQuantity, b)
      else if \<not> is_market \<and> no_price ord \<le> 0 then Some (Err NonPositivePrice, b)
      else if book_contains b (no_order_id ord) then Some (Err DuplicateOrderId, b)
      else case reduce_clamp b ord of
        None \<Rightarrow> Some (Ok \<lparr>rep_result = rejected, rep_stp_cancelled = []\<rparr>, b)
      | Some qty \<Rightarrow>
          if no_order_type ord = PostOnly then
            (if would_cross b (no_side ord) (no_price ord)
             then Some (Ok \<lparr>rep_result = rejected, rep_stp_cancelled = []\<rparr>, b)
             else do { (r, b') \<leftarrow> rest_order sha b ord qty;
                       Some (and_then r (\<lambda>_. Ok (report [] (Resting qty) [])), b') })
          else
            do { avail \<leftarrow> (if no_tif ord = Fok then crossable_qty b ord is_market qty else Some qty);
                 if avail < qty
                 then Some (Ok \<lparr>rep_result = rejected, rep_stp_cancelled = []\<rparr>, b)
                 else do { (stopped, st) \<leftarrow> run_match sha b ord is_market qty;
                           settle_residual sha ord is_market qty stopped st } })"

definition execute :: "sha256 \<Rightarrow> order_book \<Rightarrow> new_order \<Rightarrow> match_result outcome option" where
  "execute sha b ord =
     do { (r, b') \<leftarrow> execute_with_report sha b ord; Some (and_then r (\<lambda>rep. Ok (rep_result rep)), b') }"

definition submit :: "sha256 \<Rightarrow> order_book \<Rightarrow> new_order \<Rightarrow> match_result outcome option" where
  "submit sha b ord =
     (case dd_get (bk_dedup b) (no_account ord) (no_client_id ord) of
        Some cached \<Rightarrow> Some (Ok cached, b)
      | None \<Rightarrow>
          (case execute sha b ord of
             None \<Rightarrow> None
           | Some (Inl e, b') \<Rightarrow> Some (Err e, b')
           | Some (Inr r, b') \<Rightarrow>
               Some (Ok r, b'\<lparr>bk_dedup := dd_insert (bk_dedup b') (no_account ord) (no_client_id ord) r\<rparr>)))"

definition place_with_report :: "sha256 \<Rightarrow> order_book \<Rightarrow> new_order \<Rightarrow> match_report outcome option" where
  "place_with_report sha b ord = execute_with_report sha b ord"

definition place :: "sha256 \<Rightarrow> order_book \<Rightarrow> new_order \<Rightarrow> match_result outcome option" where
  "place sha b ord =
     do { (r, b') \<leftarrow> place_with_report sha b ord; Some (and_then r (\<lambda>rep. Ok (rep_result rep)), b') }"

definition cancel :: "sha256 \<Rightarrow> order_book \<Rightarrow> order_id \<Rightarrow> unit outcome option" where
  "cancel sha b i =
     (case omap_get (bk_id_index b) i of
        None \<Rightarrow> Some (Err UnknownOrder, b)
      | Some loc \<Rightarrow> do { b' \<leftarrow> remove_resting sha b (loc_side loc) (loc_slot loc); Some (Ok (), b') })"

fun cancel_ids :: "sha256 \<Rightarrow> order_id list \<Rightarrow> order_book \<Rightarrow> order_book option" where
  "cancel_ids sha [] b = Some b"
| "cancel_ids sha (i # is) b =
     (case omap_get (bk_id_index b) i of
        None \<Rightarrow> cancel_ids sha is b
      | Some loc \<Rightarrow>
          do { b' \<leftarrow> remove_resting sha b (loc_side loc) (loc_slot loc); cancel_ids sha is b' })"

definition cancel_all :: "sha256 \<Rightarrow> order_book \<Rightarrow> account_id \<Rightarrow> (nat \<times> order_book) option" where
  "cancel_all sha b account =
     (let targets = (case omap_get (bk_account_orders b) account of None \<Rightarrow> [] | Some ids \<Rightarrow> ids)
      in do { b' \<leftarrow> cancel_ids sha targets b; Some (min (length targets) u32_max, b') })"

definition replacement :: "order_id \<Rightarrow> node \<Rightarrow> price \<Rightarrow> quantity \<Rightarrow> new_order" where
  "replacement i n p q =
     \<lparr>no_order_id = i, no_account = nd_account n, no_side = nd_side n, no_order_type = Limit,
      no_tif = Gtc, no_price = p, no_quantity = q, no_client_id = nd_client_id n,
      no_reduce_only = False\<rparr>"

text \<open>The overflow pre-check of \<open>replace_with_report\<close> for a replacement that rests in full.\<close>

definition replace_precheck ::
  "order_book \<Rightarrow> node \<Rightarrow> price \<Rightarrow> quantity \<Rightarrow> (unit, order_error) result" where
  "replace_precheck b n p q =
     (if would_cross b (nd_side n) p then Ok ()
      else let sb = side_of (nd_side n) b in
        and_then
          (if nd_price n = p
           then map_err (\<lambda>_. OrderOverflow) (scalar_checked_sub I64 (level_total sb p) (nd_remaining n))
           else Ok (level_total sb p))
          (\<lambda>lt. and_then (map_err (\<lambda>_. OrderOverflow) (scalar_checked_add I64 lt q)) (\<lambda>_. Ok ())))"

definition replace_with_report ::
  "sha256 \<Rightarrow> order_book \<Rightarrow> order_id \<Rightarrow> price \<Rightarrow> quantity \<Rightarrow> match_report outcome option" where
  "replace_with_report sha b i p q =
     (if q \<le> 0 then Some (Err NonPositiveQuantity, b)
      else if p \<le> 0 then Some (Err NonPositivePrice, b)
      else case omap_get (bk_id_index b) i of
        None \<Rightarrow> Some (Err UnknownOrder, b)
      | Some loc \<Rightarrow>
          (case slab_get (bk_slab b) (loc_slot loc) of
             None \<Rightarrow> Some (Err UnknownOrder, b)
           | Some n \<Rightarrow>
               (case replace_precheck b n p q of
                  Inl e \<Rightarrow> Some (Err e, b)
                | Inr _ \<Rightarrow>
                    do { b' \<leftarrow> remove_resting sha b (loc_side loc) (loc_slot loc);
                         execute_with_report sha b' (replacement i n p q) })))"

definition replace ::
  "sha256 \<Rightarrow> order_book \<Rightarrow> order_id \<Rightarrow> price \<Rightarrow> quantity \<Rightarrow> match_result outcome option" where
  "replace sha b i p q =
     do { (r, b') \<leftarrow> replace_with_report sha b i p q;
          Some (and_then r (\<lambda>rep. Ok (rep_result rep)), b') }"

fun basket_check :: "order_book \<Rightarrow> order_id list \<Rightarrow> new_order list \<Rightarrow> (unit, order_error) result" where
  "basket_check b seen [] = Ok ()"
| "basket_check b seen (leg # legs) =
     (if no_quantity leg \<le> 0 then Err NonPositiveQuantity
      else if no_order_type leg \<noteq> Market \<and> no_price leg \<le> 0 then Err NonPositivePrice
      else if no_order_id leg \<in> set seen then Err BasketDuplicateId
      else if book_contains b (no_order_id leg) then Err DuplicateOrderId
      else basket_check b (no_order_id leg # seen) legs)"

fun basket_apply ::
  "sha256 \<Rightarrow> order_book \<Rightarrow> new_order list \<Rightarrow> match_result list \<Rightarrow> order_book \<Rightarrow>
   match_result list outcome option" where
  "basket_apply sha snapshot [] out b = Some (Ok out, b)"
| "basket_apply sha snapshot (leg # legs) out b =
     (case submit sha b leg of
        None \<Rightarrow> None
      | Some (Inr res, b') \<Rightarrow> basket_apply sha snapshot legs (out @ [res]) b'
      | Some (Inl e, b') \<Rightarrow> Some (Err e, snapshot))"

definition submit_basket ::
  "sha256 \<Rightarrow> order_book \<Rightarrow> new_order list \<Rightarrow> match_result list outcome option" where
  "submit_basket sha b legs =
     (if length legs > cfg_max_basket_legs (bk_config b) then Some (Err BasketTooLarge, b)
      else case basket_check b [] legs of
        Inl e \<Rightarrow> Some (Err e, b)
      | Inr _ \<Rightarrow> basket_apply sha b legs [] b)"

end
