(* ===== verification/BookIndex.thy ===== *)
theory BookIndex
  imports Book
begin

text \<open>
  The derived indexes of the book over its live orders: the order-id index, the sorted per-account
  id lists and the XOR aggregate of the order leaves. Each is a function of the live orders \<open>M\<close> (slot
  to order); the lemmas say how inserting, removing and reducing one order carries it along.
\<close>

unbundle bit_operations_syntax

section \<open>XOR over a finite set\<close>

interpretation hx: comm_monoid_set "(XOR) :: hash \<Rightarrow> hash \<Rightarrow> hash" 0
  by standard (simp_all add: ac_simps)

definition order_xor :: "(node \<Rightarrow> hash) \<Rightarrow> (nat \<Rightarrow> node option) \<Rightarrow> hash" where
  "order_xor f M = hx.F (\<lambda>x. f (the (M x))) (dom M)"

lemma order_xor_empty: "order_xor f (\<lambda>_. None) = 0"
  by (simp add: order_xor_def)

lemma order_xor_insert:
  assumes "finite (dom M)" and "M x = None"
  shows "order_xor f (M(x \<mapsto> n)) = f n XOR order_xor f M"
proof -
  have "hx.F (\<lambda>y. f (the ((M(x \<mapsto> n)) y))) (dom M) = hx.F (\<lambda>y. f (the (M y))) (dom M)"
    using assms(2) by (intro hx.cong) auto
  then show ?thesis
    using assms by (simp add: order_xor_def domIff)
qed

lemma order_xor_remove:
  assumes "finite (dom M)" and "M x = Some n"
  shows "order_xor f (M(x := None)) = order_xor f M XOR f n"
proof -
  have "(M(x := None))(x \<mapsto> n) = M"
    using assms(2) by auto
  then have "order_xor f M = f n XOR order_xor f (M(x := None))"
    using order_xor_insert [of "M(x := None)" x f n] assms(1) by simp
  then show ?thesis
    by (simp add: ac_simps)
qed

lemma order_xor_update:
  assumes "finite (dom M)" and "M x = Some n"
  shows "order_xor f (M(x \<mapsto> n')) = (order_xor f M XOR f n) XOR f n'"
  using order_xor_insert [of "M(x := None)" x f n'] order_xor_remove [OF assms, of f] assms(1)
  by (simp add: ac_simps)

lemma hx_list: "distinct xs \<Longrightarrow> hx.F g (set xs) = xor_all (map g xs)"
  by (induction xs) simp_all

lemma order_xor_list:
  "distinct xs \<Longrightarrow> set xs = dom M \<Longrightarrow> order_xor f M = xor_all (map (\<lambda>x. f (the (M x))) xs)"
  using hx_list [of xs "\<lambda>x. f (the (M x))"] by (simp add: order_xor_def)

section \<open>Sorted id lists\<close>

lemma sorted_split_at:
  "sorted_wrt (<) ids \<Longrightarrow>
   \<exists>a b. ids = a @ b \<and> search_pos ids i = length a \<and> (\<forall>x\<in>set a. x < i) \<and> (\<forall>x\<in>set b. i \<le> x)"
proof (induction ids)
  case Nil
  then show ?case by (simp add: search_pos_def)
next
  case (Cons y ids)
  show ?case
  proof (cases "y < i")
    case True
    from Cons obtain a b where "ids = a @ b" "search_pos ids i = length a" "\<forall>x\<in>set a. x < i" "\<forall>x\<in>set b. i \<le> x"
      by auto
    with True show ?thesis
      by (intro exI [of _ "y # a"] exI [of _ b]) (simp add: search_pos_def)
  next
    case False
    with Cons.prems show ?thesis
      by (intro exI [of _ "[]"] exI [of _ "y # ids"]) (auto simp: search_pos_def)
  qed
qed

lemma ids_insert_ok:
  assumes "sorted_wrt (<) ids" and "i \<notin> set ids"
  shows "sorted_wrt (<) (ids_insert ids i)" and "set (ids_insert ids i) = insert i (set ids)"
proof -
  obtain a b where ab: "ids = a @ b" "search_pos ids i = length a" "\<forall>x\<in>set a. x < i" "\<forall>x\<in>set b. i \<le> x"
    using sorted_split_at [OF assms(1)] by blast
  then have "ids_insert ids i = a @ i # b"
    by (simp add: ids_insert_def)
  moreover have "\<forall>x\<in>set b. i < x"
    using ab assms(2) by (metis Un_iff order_less_le set_append)
  ultimately show "sorted_wrt (<) (ids_insert ids i)" "set (ids_insert ids i) = insert i (set ids)"
    using assms(1) ab by (auto simp: sorted_wrt_append)
qed

lemma ids_remove_found:
  assumes "sorted_wrt (<) (a @ i # b)"
  shows "ids_remove (a @ i # b) i = a @ b"
proof -
  have "\<forall>x\<in>set a. x < i"
    using assms by (simp add: sorted_wrt_append)
  then have "search_pos (a @ i # b) i = length a"
    by (simp add: search_pos_def)
  then show ?thesis
    by (simp add: ids_remove_def)
qed

lemma ids_remove_absent: "i \<notin> set ids \<Longrightarrow> ids_remove ids i = ids"
  unfolding ids_remove_def Let_def using nth_mem by metis

lemma ids_remove_ok:
  assumes "sorted_wrt (<) ids"
  shows "sorted_wrt (<) (ids_remove ids i)" and "set (ids_remove ids i) = set ids - {i}"
proof -
  have "sorted_wrt (<) (ids_remove ids i) \<and> set (ids_remove ids i) = set ids - {i}"
  proof (cases "i \<in> set ids")
    case True
    then obtain a b where ids: "ids = a @ i # b"
      by (auto dest: split_list)
    then show ?thesis
      using assms ids_remove_found [of a i b] by (auto simp: sorted_wrt_append)
  next
    case False
    then show ?thesis
      using assms by (simp add: ids_remove_absent)
  qed
  then show "sorted_wrt (<) (ids_remove ids i)" "set (ids_remove ids i) = set ids - {i}"
    by simp_all
qed

section \<open>The order-id index\<close>

definition locates :: "(nat \<Rightarrow> node option) \<Rightarrow> order_id \<Rightarrow> locator \<Rightarrow> bool" where
  "locates M i loc \<longleftrightarrow>
     (\<exists>n. M (loc_slot loc) = Some n \<and> nd_order_id n = i \<and> nd_side n = loc_side loc \<and>
          nd_account n = loc_account loc)"

definition index_ok :: "(nat \<Rightarrow> node option) \<Rightarrow> (order_id, locator) omap \<Rightarrow> bool" where
  "index_ok M idx \<longleftrightarrow> (\<forall>i loc. omap_get idx i = Some loc \<longleftrightarrow> locates M i loc)"

lemma index_ok_node:
  assumes "index_ok M idx" and "M x = Some n"
  shows "omap_get idx (nd_order_id n) = Some \<lparr>loc_slot = x, loc_side = nd_side n, loc_account = nd_account n\<rparr>"
  using assms by (simp add: index_ok_def locates_def)

lemma index_ok_lookup:
  assumes "index_ok M idx" and "omap_get idx i = Some loc"
  obtains n where "M (loc_slot loc) = Some n" "nd_order_id n = i" "nd_side n = loc_side loc"
    "nd_account n = loc_account loc"
  using assms by (auto simp: index_ok_def locates_def)

lemma index_ok_unique:
  assumes "index_ok M idx" and "M x = Some n" and "M y = Some m" and "nd_order_id n = nd_order_id m"
  shows "x = y"
  using index_ok_node [OF assms(1,2)] index_ok_node [OF assms(1,3)] assms(4) by simp

lemma index_ok_absent:
  "index_ok M idx \<Longrightarrow> omap_get idx i = None \<longleftrightarrow> (\<forall>x n. M x = Some n \<longrightarrow> nd_order_id n \<noteq> i)"
  by (metis index_ok_lookup index_ok_node not_Some_eq)

lemma index_ok_insert:
  assumes ok: "index_ok M idx" and "M x = None" and absent: "omap_get idx (nd_order_id n) = None"
    and loc: "loc = \<lparr>loc_slot = x, loc_side = nd_side n, loc_account = nd_account n\<rparr>"
  shows "index_ok (M(x \<mapsto> n)) (omap_put (nd_order_id n) loc idx)"
  unfolding index_ok_def
proof (intro allI)
  fix i l
  have old: "omap_get idx i = Some l \<longleftrightarrow> locates M i l"
    using ok by (simp add: index_ok_def)
  have "\<not> locates M (nd_order_id n) l"
    using ok absent by (metis index_ok_def option.distinct(1))
  then show "omap_get (omap_put (nd_order_id n) loc idx) i = Some l \<longleftrightarrow> locates (M(x \<mapsto> n)) i l"
    using old assms(2) by (cases l) (auto simp: locates_def loc)
qed

lemma index_ok_remove:
  assumes ok: "index_ok M idx" and n: "M x = Some n"
  shows "index_ok (M(x := None)) (omap_remove (nd_order_id n) idx)"
  unfolding index_ok_def
proof (intro allI)
  fix i l
  have "omap_get idx i = Some l \<longleftrightarrow> locates M i l"
    using ok by (simp add: index_ok_def)
  moreover have "loc_slot l = x" if "locates M (nd_order_id n) l"
    using that index_ok_unique [OF ok _ n] by (auto simp: locates_def)
  ultimately show "omap_get (omap_remove (nd_order_id n) idx) i = Some l \<longleftrightarrow> locates (M(x := None)) i l"
    using n by (auto simp: locates_def)
qed

lemma index_ok_update:
  assumes "index_ok M idx" and "M x = Some n" and "nd_order_id n' = nd_order_id n"
    and "nd_side n' = nd_side n" and "nd_account n' = nd_account n"
  shows "index_ok (M(x \<mapsto> n')) idx"
proof -
  have "locates (M(x \<mapsto> n')) i l \<longleftrightarrow> locates M i l" for i l
    using assms by (auto simp: locates_def)
  then show ?thesis
    using assms(1) by (simp add: index_ok_def)
qed

lemma index_ok_empty: "index_ok (\<lambda>_. None) omap_empty"
  by (simp add: index_ok_def locates_def)

section \<open>The per-account lists\<close>

definition account_ids :: "(account_id, order_id list) omap \<Rightarrow> account_id \<Rightarrow> order_id list" where
  "account_ids acc a = (case omap_get acc a of None \<Rightarrow> [] | Some ids \<Rightarrow> ids)"

definition owned :: "(nat \<Rightarrow> node option) \<Rightarrow> account_id \<Rightarrow> order_id set" where
  "owned M a = {nd_order_id n | x n. M x = Some n \<and> nd_account n = a}"

definition accounts_ok :: "(nat \<Rightarrow> node option) \<Rightarrow> (account_id, order_id list) omap \<Rightarrow> bool" where
  "accounts_ok M acc \<longleftrightarrow>
     (\<forall>a. sorted_wrt (<) (account_ids acc a) \<and> set (account_ids acc a) = owned M a)"

lemma account_ids_put [simp]:
  "account_ids (omap_put a ids acc) a' = (if a' = a then ids else account_ids acc a')"
  by (simp add: account_ids_def)

lemma owned_insert:
  "M x = None \<Longrightarrow>
   owned (M(x \<mapsto> n)) a = (if nd_account n = a then insert (nd_order_id n) (owned M a) else owned M a)"
proof -
  assume none: "M x = None"
  have "(M(x \<mapsto> n)) y = Some m \<longleftrightarrow> (y = x \<and> m = n) \<or> M y = Some m" for y m
    using none by auto
  then show ?thesis
    unfolding owned_def by auto
qed

lemma owned_remove:
  assumes "index_ok M idx" and "M x = Some n"
  shows "owned (M(x := None)) a = (if nd_account n = a then owned M a - {nd_order_id n} else owned M a)"
proof -
  have "(M(x := None)) y = Some m \<longleftrightarrow> M y = Some m \<and> nd_order_id m \<noteq> nd_order_id n" for y m
    using index_ok_unique [OF assms(1) _ assms(2), of y m] assms(2) by (cases "y = x") auto
  then have eq: "owned (M(x := None)) a = {i. \<exists>y m. M y = Some m \<and> nd_account m = a \<and> nd_order_id m = i \<and> i \<noteq> nd_order_id n}"
    unfolding owned_def by auto
  have "nd_account m = nd_account n" if "M y = Some m" "nd_order_id m = nd_order_id n" for y m
    using index_ok_unique [OF assms(1) that(1) assms(2) that(2)] that(1) assms(2) by simp
  then show ?thesis
    unfolding eq unfolding owned_def by (cases "nd_account n = a") (auto, metis)
qed

lemma accounts_ok_insert:
  assumes ok: "accounts_ok M acc" and "M x = None" and "\<And>a. nd_order_id n \<notin> owned M a"
  shows "accounts_ok (M(x \<mapsto> n))
    (omap_put (nd_account n) (ids_insert (account_ids acc (nd_account n)) (nd_order_id n)) acc)"
  using ok assms(3) ids_insert_ok [of "account_ids acc (nd_account n)" "nd_order_id n"]
  by (simp add: accounts_ok_def owned_insert [of M, OF assms(2)])

lemma accounts_ok_remove:
  assumes ok: "accounts_ok M acc" and idx: "index_ok M idx" and n: "M x = Some n"
  shows "\<exists>ids. omap_get acc (nd_account n) = Some ids \<and>
    accounts_ok (M(x := None)) (omap_put (nd_account n) (ids_remove ids (nd_order_id n)) acc)"
proof -
  have "nd_order_id n \<in> set (account_ids acc (nd_account n))"
    using ok n by (auto simp: accounts_ok_def owned_def)
  then obtain ids where ids: "omap_get acc (nd_account n) = Some ids" "account_ids acc (nd_account n) = ids"
    by (cases "omap_get acc (nd_account n)") (simp_all add: account_ids_def)
  then have "sorted_wrt (<) ids" "set ids = owned M (nd_account n)"
    using ok by (auto simp: accounts_ok_def)
  then show ?thesis
    using ok ids ids_remove_ok [of ids "nd_order_id n"]
    by (simp add: accounts_ok_def owned_remove [OF idx n])
qed

lemma accounts_ok_update:
  assumes "accounts_ok M acc" and "M x = Some n" and "nd_order_id n' = nd_order_id n"
    and "nd_account n' = nd_account n"
  shows "accounts_ok (M(x \<mapsto> n')) acc"
proof -
  have "owned (M(x \<mapsto> n')) a = owned M a" for a
    unfolding owned_def
  proof (rule Collect_cong)
    fix i
    show "(\<exists>y m. i = nd_order_id m \<and> (M(x \<mapsto> n')) y = Some m \<and> nd_account m = a) \<longleftrightarrow>
      (\<exists>y m. i = nd_order_id m \<and> M y = Some m \<and> nd_account m = a)"
      using assms(2-4) by (metis fun_upd_apply option.inject)
  qed
  then show ?thesis
    using assms(1) by (simp add: accounts_ok_def)
qed

lemma accounts_ok_empty: "accounts_ok (\<lambda>_. None) omap_empty"
  by (simp add: accounts_ok_def account_ids_def owned_def)

end
