(* ===== verification/Priority.thy ===== *)
theory Priority
  imports Orders
begin

text \<open>
  Price-time priority as a flat list. A side of the book is a family of FIFO queues, one per price;
  \<open>flat\<close> lists all of them best price first. The lemmas say what appending to one queue and removing
  from one queue do to the flat list. Nothing here depends on how the queues are stored.
\<close>

definition pkey :: "side \<Rightarrow> price \<Rightarrow> int" where
  "pkey sd p = (case sd of Ask \<Rightarrow> p | Bid \<Rightarrow> - p)"

definition price_list :: "side \<Rightarrow> price set \<Rightarrow> price list" where
  "price_list sd S = (case sd of Ask \<Rightarrow> sorted_list_of_set S | Bid \<Rightarrow> rev (sorted_list_of_set S))"

definition flat :: "side \<Rightarrow> (price \<Rightarrow> 'a list) \<Rightarrow> 'a list" where
  "flat sd Q = concat (map Q (price_list sd {p. Q p \<noteq> []}))"

lemma pkey_inj: "pkey sd p = pkey sd q \<longleftrightarrow> p = q"
  by (cases sd) (simp_all add: pkey_def)

lemma set_price_list: "finite S \<Longrightarrow> set (price_list sd S) = S"
  by (cases sd) (simp_all add: price_list_def)

lemma sorted_price_list: "sorted_wrt (\<lambda>p q. pkey sd p < pkey sd q) (price_list sd S)"
proof -
  have "sorted_wrt (<) (sorted_list_of_set S)"
    by simp
  then show ?thesis
    by (cases sd) (simp_all add: price_list_def pkey_def sorted_wrt_rev)
qed

lemma price_list_filter:
  "finite S \<Longrightarrow> T \<subseteq> S \<Longrightarrow> filter (\<lambda>p. p \<in> T) (price_list sd S) = price_list sd T"
proof -
  assume fin: "finite S" and sub: "T \<subseteq> S"
  have "sorted_list_of_set T = filter (\<lambda>p. p \<in> T) (sorted_list_of_set S)"
    using fin sub finite_subset [OF sub fin]
    by (intro sorted_distinct_set_unique) (auto simp: sorted_wrt_filter)
  then show ?thesis
    by (cases sd) (simp_all add: price_list_def rev_filter)
qed

lemma concat_skip_empty: "concat (map Q (filter (\<lambda>p. Q p \<noteq> []) ps)) = concat (map Q ps)"
  by (induction ps) auto

lemma flat_superset:
  assumes "finite S" and "{p. Q p \<noteq> []} \<subseteq> S"
  shows "flat sd Q = concat (map Q (price_list sd S))"
proof -
  have "price_list sd {p. Q p \<noteq> []} = filter (\<lambda>p. Q p \<noteq> []) (price_list sd S)"
    using price_list_filter [OF assms, of sd] by simp
  then show ?thesis
    by (simp add: flat_def concat_skip_empty)
qed

text \<open>Where a price falls among the others.\<close>

lemma price_list_split:
  assumes "finite S" and "p \<in> S"
  obtains A B where "price_list sd S = A @ p # B"
    and "\<And>a. a \<in> set A \<Longrightarrow> pkey sd a < pkey sd p" and "\<And>b. b \<in> set B \<Longrightarrow> pkey sd p < pkey sd b"
proof -
  have "p \<in> set (price_list sd S)"
    using assms by (simp add: set_price_list)
  then obtain A B where "price_list sd S = A @ p # B"
    by (auto dest: split_list)
  then show thesis
    using sorted_price_list [of sd S] that [of A B] by (auto simp: sorted_wrt_append)
qed

lemma set_flat: "finite {p. Q p \<noteq> []} \<Longrightarrow> x \<in> set (flat sd Q) \<longleftrightarrow> (\<exists>p. x \<in> set (Q p))"
  by (simp add: flat_def set_price_list) (metis empty_iff empty_set)

lemma filter_all: "(\<And>x. x \<in> set xs \<Longrightarrow> P x) \<Longrightarrow> filter P xs = xs"
  by (simp add: filter_id_conv)

lemma filter_none: "(\<And>x. x \<in> set xs \<Longrightarrow> \<not> P x) \<Longrightarrow> filter P xs = []"
  by (simp add: filter_empty_conv)

text \<open>The queue of one price sits between the better and the worse prices.\<close>

lemma flat_split:
  assumes fin: "finite {q. Q q \<noteq> []}"
  obtains L R where
    "\<And>ys. flat sd (Q(p := ys)) = L @ ys @ R"
    and "flat sd Q = L @ Q p @ R"
    and "\<And>x. x \<in> set L \<Longrightarrow> \<exists>q. x \<in> set (Q q) \<and> pkey sd q < pkey sd p"
    and "\<And>x. x \<in> set R \<Longrightarrow> \<exists>q. x \<in> set (Q q) \<and> pkey sd p < pkey sd q"
proof -
  let ?S = "insert p {q. Q q \<noteq> []}"
  obtain A B where AB: "price_list sd ?S = A @ p # B"
    "\<And>a. a \<in> set A \<Longrightarrow> pkey sd a < pkey sd p" "\<And>b. b \<in> set B \<Longrightarrow> pkey sd p < pkey sd b"
    using fin by (rule_tac price_list_split [of ?S p sd]) auto
  then have "p \<notin> set A" "p \<notin> set B" by auto
  then have eq: "map (Q(p := ys)) A = map Q A" "map (Q(p := ys)) B = map Q B" for ys
    by auto
  have upd: "flat sd (Q(p := ys)) = concat (map Q A) @ ys @ concat (map Q B)" for ys
  proof -
    have "{q. (Q(p := ys)) q \<noteq> []} \<subseteq> ?S" by auto
    then have "flat sd (Q(p := ys)) = concat (map (Q(p := ys)) (A @ p # B))"
      using flat_superset [of ?S "Q(p := ys)" sd] fin AB(1) by simp
    then show ?thesis by (simp only: map_append list.map eq concat_append concat.simps fun_upd_same)
  qed
  have "flat sd Q = concat (map Q A) @ Q p @ concat (map Q B)"
    using upd [of "Q p"] by simp
  with upd AB show thesis
    by (intro that [of "concat (map Q A)" "concat (map Q B)"]) auto
qed

lemma flat_append_slot:
  assumes fin: "finite {q. Q q \<noteq> []}" and price: "\<And>q x. x \<in> set (Q q) \<Longrightarrow> f x = q"
  shows "flat sd (Q(p := Q p @ [s])) =
    filter (\<lambda>x. pkey sd (f x) \<le> pkey sd p) (flat sd Q) @ s # filter (\<lambda>x. pkey sd p < pkey sd (f x)) (flat sd Q)"
proof -
  obtain L R where LR: "\<And>ys. flat sd (Q(p := ys)) = L @ ys @ R" "flat sd Q = L @ Q p @ R"
    "\<And>x. x \<in> set L \<Longrightarrow> \<exists>q. x \<in> set (Q q) \<and> pkey sd q < pkey sd p"
    "\<And>x. x \<in> set R \<Longrightarrow> \<exists>q. x \<in> set (Q q) \<and> pkey sd p < pkey sd q"
    using flat_split [OF fin, of sd p] by blast
  have "pkey sd (f x) < pkey sd p" if "x \<in> set L" for x
    using LR(3) [OF that] price by auto
  moreover have "pkey sd p < pkey sd (f x)" if "x \<in> set R" for x
    using LR(4) [OF that] price by auto
  moreover have "pkey sd (f x) = pkey sd p" if "x \<in> set (Q p)" for x
    using price [OF that] by simp
  ultimately have "filter (\<lambda>x. pkey sd (f x) \<le> pkey sd p) L = L"
      "filter (\<lambda>x. pkey sd (f x) \<le> pkey sd p) (Q p) = Q p"
      "filter (\<lambda>x. pkey sd (f x) \<le> pkey sd p) R = []"
      "filter (\<lambda>x. pkey sd p < pkey sd (f x)) L = []"
      "filter (\<lambda>x. pkey sd p < pkey sd (f x)) (Q p) = []"
      "filter (\<lambda>x. pkey sd p < pkey sd (f x)) R = R"
    by (simp_all add: filter_all filter_none less_imp_le not_le not_less)
  then have "filter (\<lambda>x. pkey sd (f x) \<le> pkey sd p) (flat sd Q) = L @ Q p"
    and "filter (\<lambda>x. pkey sd p < pkey sd (f x)) (flat sd Q) = R"
    using LR(2) by simp_all
  then show ?thesis
    using LR(1) by simp
qed

lemma flat_delete_slot:
  assumes fin: "finite {q. Q q \<noteq> []}" and q: "Q p = xs @ s # ys" and "distinct (Q p)"
    and only: "\<And>q. s \<in> set (Q q) \<Longrightarrow> q = p"
  shows "flat sd (Q(p := xs @ ys)) = filter (\<lambda>x. x \<noteq> s) (flat sd Q)"
proof -
  obtain L R where LR: "\<And>zs. flat sd (Q(p := zs)) = L @ zs @ R" "flat sd Q = L @ Q p @ R"
    "\<And>x. x \<in> set L \<Longrightarrow> \<exists>q. x \<in> set (Q q) \<and> pkey sd q < pkey sd p"
    "\<And>x. x \<in> set R \<Longrightarrow> \<exists>q. x \<in> set (Q q) \<and> pkey sd p < pkey sd q"
    using flat_split [OF fin, of sd p] by blast
  have "s \<notin> set L" "s \<notin> set R"
    using LR(3,4) only by blast+
  moreover have "s \<notin> set xs" "s \<notin> set ys"
    using assms(3) q by auto
  ultimately have "filter (\<lambda>x. x \<noteq> s) (L @ (xs @ s # ys) @ R) = L @ (xs @ ys) @ R"
    by (simp, metis (mono_tags, lifting) filter_all)
  then show ?thesis
    using LR(1,2) q by simp
qed

text \<open>When a price is the best, its queue comes first.\<close>

lemma flat_best:
  assumes fin: "finite {q. Q q \<noteq> []}" and best: "\<And>q. Q q \<noteq> [] \<Longrightarrow> pkey sd p \<le> pkey sd q"
  obtains R where "\<And>ys. flat sd (Q(p := ys)) = ys @ R" and "flat sd Q = Q p @ R"
    and "\<And>x. x \<in> set R \<Longrightarrow> \<exists>q. x \<in> set (Q q) \<and> pkey sd p < pkey sd q"
proof -
  obtain L R where LR: "\<And>ys. flat sd (Q(p := ys)) = L @ ys @ R" "flat sd Q = L @ Q p @ R"
    "\<And>x. x \<in> set L \<Longrightarrow> \<exists>q. x \<in> set (Q q) \<and> pkey sd q < pkey sd p"
    "\<And>x. x \<in> set R \<Longrightarrow> \<exists>q. x \<in> set (Q q) \<and> pkey sd p < pkey sd q"
    using flat_split [OF fin, of sd p] by blast
  have "L = []"
  proof (rule ccontr)
    assume "L \<noteq> []"
    then obtain q where "hd L \<in> set (Q q)" "pkey sd q < pkey sd p"
      using LR(3) [of "hd L"] by auto
    moreover from this have "Q q \<noteq> []" by auto
    ultimately show False using best by fastforce
  qed
  with LR that show thesis by auto
qed

lemma flat_sorted:
  assumes "finite {q. Q q \<noteq> []}" and price: "\<And>q x. x \<in> set (Q q) \<Longrightarrow> f x = q"
  shows "sorted_wrt (\<lambda>x y. pkey sd (f x) \<le> pkey sd (f y)) (flat sd Q)"
proof -
  have "sorted_wrt (\<lambda>x y. pkey sd (f x) \<le> pkey sd (f y)) (concat (map Q ps))"
    if "sorted_wrt (\<lambda>p q. pkey sd p < pkey sd q) ps" for ps
    using that
  proof (induction ps)
    case (Cons p ps)
    have "sorted_wrt (\<lambda>x y. pkey sd (f x) \<le> pkey sd (f y)) (Q p)"
    proof (rule sorted_wrt_mono_rel [of _ "\<lambda>_ _. True"])
      show "pkey sd (f x) \<le> pkey sd (f y)" if "x \<in> set (Q p)" "y \<in> set (Q p)" for x y
        using that price by simp
    qed (simp add: sorted_wrt_iff_nth_less)
    with Cons show ?case
      by (fastforce simp: sorted_wrt_append price)
  qed simp
  then show ?thesis
    by (simp add: flat_def sorted_price_list)
qed

lemma flat_distinct:
  assumes "finite {q. Q q \<noteq> []}" and "\<And>q. distinct (Q q)"
    and "\<And>p q x. x \<in> set (Q p) \<Longrightarrow> x \<in> set (Q q) \<Longrightarrow> p = q"
  shows "distinct (flat sd Q)"
proof -
  have "distinct (concat (map Q ps))" if "distinct ps" for ps
    using that by (induction ps) (use assms in auto)
  moreover have "distinct (price_list sd S)" for S
    by (cases sd) (simp_all add: price_list_def)
  ultimately show ?thesis
    by (simp add: flat_def)
qed

end
