(* ===== verification/LevelScan.thy ===== *)
theory LevelScan
  imports LevelRep Priority
begin

text \<open>
  Reading a side book: the best price, the levels in matching order, the walks along a level, and
  the update of one order's quantity. Everything a walk sees is a function of the flat list of
  resting orders, best price first and oldest first within a price.
\<close>

section \<open>The flat list of resting orders\<close>

definition slot_order :: "node slab \<Rightarrow> nat \<Rightarrow> node" where
  "slot_order sl x = the (contents sl x)"

definition side_orders :: "node slab \<Rightarrow> side \<Rightarrow> (price \<Rightarrow> nat list) \<Rightarrow> node list" where
  "side_orders sl sd Q = map (slot_order sl) (flat sd Q)"

lemma slot_order_get: "slab_get sl x = Some n \<Longrightarrow> slot_order sl x = payload n"
  by (simp add: slot_order_def contents_def)

lemma qty_at_slot_order: "qty_at sl x = nd_remaining (slot_order sl x)"
  by (simp add: qty_at_def slot_order_def)

lemma side_rep_finite: "side_rep sl sd sb Q \<Longrightarrow> finite {p. Q p \<noteq> []}"
proof -
  assume rep: "side_rep sl sd sb Q"
  have "{p. Q p \<noteq> []} = set (omap_keys (sb_levels sb))"
    using side_keys [OF rep] by auto
  then show ?thesis by simp
qed

lemma slot_order_props:
  assumes "side_rep sl sd sb Q" and "x \<in> set (Q p)"
  shows "nd_price (slot_order sl x) = p" and "nd_side (slot_order sl x) = sd"
    and "0 < nd_remaining (slot_order sl x)"
  using side_rep_slot [OF assms] by (auto simp: slot_order_get)

lemma side_orders_sorted:
  assumes "side_rep sl sd sb Q"
  shows "sorted_wrt (\<lambda>m n. pkey sd (nd_price m) \<le> pkey sd (nd_price n)) (side_orders sl sd Q)"
  unfolding side_orders_def sorted_wrt_map
  using side_rep_finite [OF assms] slot_order_props(1) [OF assms] by (rule flat_sorted)

lemma side_orders_props:
  assumes "side_rep sl sd sb Q" and "n \<in> set (side_orders sl sd Q)"
  shows "nd_side n = sd" and "0 < nd_remaining n" and "0 < nd_price n"
proof -
  obtain x p where x: "n = slot_order sl x" "x \<in> set (Q p)"
    using assms set_flat [OF side_rep_finite [OF assms(1)]] by (auto simp: side_orders_def)
  have "0 < p"
    using x(2) assms(1) unfolding side_rep_def by (metis empty_iff empty_set)
  then show "nd_side n = sd" "0 < nd_remaining n" "0 < nd_price n"
    using slot_order_props [OF assms(1) x(2)] x(1) by simp_all
qed

lemma queue_distinct: "queue_ok sl sd p xs \<Longrightarrow> distinct xs"
  by (simp add: queue_ok_def)

lemma flat_distinct_rep: "side_rep sl sd sb Q \<Longrightarrow> distinct (flat sd Q)"
  by (rule flat_distinct)
    (erule side_rep_finite, erule queue_distinct [OF side_rep_queue], erule (2) side_rep_disjoint)

section \<open>Best price and levels in matching order\<close>

lemma keys_ascending: "sorted_wrt (<) (omap_keys m)"
  using entries_ascending [of m] by (simp add: omap_keys_def)

lemma levels_keys: "map fst (levels_best_first sb) =
    (case sb_side sb of Ask \<Rightarrow> omap_keys (sb_levels sb) | Bid \<Rightarrow> rev (omap_keys (sb_levels sb)))"
  by (cases "sb_side sb") (simp_all add: levels_best_first_def omap_keys_def rev_map)

lemma levels_best_first_keys:
  assumes rep: "side_rep sl sd sb Q"
  shows "map fst (levels_best_first sb) = price_list sd {p. Q p \<noteq> []}"
proof -
  have "{p. Q p \<noteq> []} = set (omap_keys (sb_levels sb))"
    using side_keys [OF rep] by auto
  moreover have "sorted_list_of_set (set ks) = ks" if "sorted_wrt (<) ks" for ks :: "int list"
    using that by (simp add: strict_sorted_iff sorted_list_of_set.idem_if_sorted_distinct)
  ultimately have "sorted_list_of_set {p. Q p \<noteq> []} = omap_keys (sb_levels sb)"
    using keys_ascending by metis
  moreover have "sb_side sb = sd"
    using rep by (simp add: side_rep_def)
  ultimately show ?thesis
    by (cases sd) (simp_all add: levels_keys price_list_def)
qed

lemma levels_best_first_head:
  assumes "side_rep sl sd sb Q" and "(p, lv) \<in> set (levels_best_first sb)"
  shows "Q p \<noteq> []" and "lv_head lv = first_of (Q p) NIL"
proof -
  have "omap_get (sb_levels sb) p = Some lv"
    using assms(2) om.in_iter_iff [of p lv "sb_levels sb"]
    by (cases "sb_side sb") (simp_all add: levels_best_first_def)
  then show "Q p \<noteq> []" "lv_head lv = first_of (Q p) NIL"
    using side_rep_level [OF assms(1), of p] by (auto simp: level_ok_def first_of_def)
qed

lemma best_price_levels:
  "best_price sb = (case levels_best_first sb of [] \<Rightarrow> None | (p, _) # _ \<Rightarrow> Some p)"
proof (cases "sb_side sb")
  case Bid
  then show ?thesis
    by (cases "entries (sb_levels sb)" rule: rev_cases)
      (auto simp: best_price_def omap_last_def omap_keys_def levels_best_first_def)
next
  case Ask
  then show ?thesis
    by (cases "entries (sb_levels sb)")
      (auto simp: best_price_def omap_first_def omap_keys_def levels_best_first_def)
qed

lemma best_price_list:
  assumes "side_rep sl sd sb Q"
  shows "best_price sb = (case price_list sd {p. Q p \<noteq> []} of [] \<Rightarrow> None | p # _ \<Rightarrow> Some p)"
  using levels_best_first_keys [OF assms, symmetric]
  by (cases "levels_best_first sb") (auto simp: best_price_levels)

lemma best_price_None:
  assumes "side_rep sl sd sb Q"
  shows "best_price sb = None \<longleftrightarrow> (\<forall>p. Q p = [])"
  using best_price_list [OF assms] set_price_list [OF side_rep_finite [OF assms], of sd]
  by (auto split: list.splits)

lemma best_price_Some:
  assumes "side_rep sl sd sb Q" and "best_price sb = Some p"
  shows "Q p \<noteq> []" and "Q q \<noteq> [] \<Longrightarrow> pkey sd p \<le> pkey sd q"
proof -
  let ?S = "{p. Q p \<noteq> []}"
  obtain ps where ps: "price_list sd ?S = p # ps"
    using best_price_list [OF assms(1)] assms(2) by (auto split: list.splits)
  have set: "set (price_list sd ?S) = ?S"
    using set_price_list [OF side_rep_finite [OF assms(1)]] .
  then show "Q p \<noteq> []"
    using ps by auto
  show "pkey sd p \<le> pkey sd q" if "Q q \<noteq> []"
    using that set ps sorted_price_list [of sd ?S] by (auto simp: less_imp_le)
qed

lemma best_price_orders:
  assumes "side_rep sl sd sb Q"
  shows "best_price sb = map_option nd_price (List.find (\<lambda>_. True) (side_orders sl sd Q))"
proof (cases "best_price sb")
  case None
  then have "flat sd Q = []"
    using best_price_None [OF assms] set_flat [OF side_rep_finite [OF assms], of _ sd] by fastforce
  with None show ?thesis by (simp add: side_orders_def)
next
  case (Some p)
  then obtain R where "flat sd Q = Q p @ R" "Q p \<noteq> []"
    using best_price_Some [OF assms Some] flat_best [OF side_rep_finite [OF assms], of sd p] by metis
  then obtain x xs where "flat sd Q = x # xs" "x \<in> set (Q p)"
    by (cases "Q p") auto
  then show ?thesis
    using Some slot_order_props(1) [OF assms] by (simp add: side_orders_def)
qed

lemma head_at_rep:
  assumes "side_rep sl sd sb Q" and "slab_wf sl"
  shows "head_at sb p = (case Q p of [] \<Rightarrow> None | x # _ \<Rightarrow> Some x)"
  using side_rep_level [OF assms(1), of p] queue_no_NIL [OF assms(2) side_rep_queue [OF assms(1)], of p]
  by (auto simp: head_at_def level_ok_def split: option.splits list.splits)

section \<open>Walks along a level\<close>

lemma linked_walk:
  assumes "linked (slab_get sl) p (x # xs) NIL" and "slab_get sl x = Some n"
  shows "nd_next n = first_of xs NIL" and "linked (slab_get sl) x xs NIL"
  using assms by auto

lemma chain_nodes_linked:
  assumes "linked (slab_get sl) p xs NIL" and "NIL \<notin> set xs"
  shows "chain_nodes sl (first_of xs NIL) = Some (map (\<lambda>x. the (slab_get sl x)) xs)"
  using assms
proof (induction xs arbitrary: p)
  case Nil
  then show ?case by (simp add: chain_nodes.simps)
next
  case (Cons x xs)
  then obtain n where n: "slab_get sl x = Some n" by auto
  with Cons show ?case
    using linked_walk [OF Cons.prems(1) n] by (subst chain_nodes.simps) auto
qed

text \<open>What the liquidity scan counts, on a list of orders.\<close>

fun count_level :: "account_id \<Rightarrow> stp_policy \<Rightarrow> int \<Rightarrow> int \<Rightarrow> node list \<Rightarrow> scan \<times> int" where
  "count_level taker stp need acc [] = (Continue, acc)"
| "count_level taker stp need acc (n # ns) =
     (if nd_account n = taker then
        (if stp = CancelMaker then count_level taker stp need acc ns else (Stop, acc))
      else let acc' = prim_saturate I64 (acc + nd_remaining n) in
        if acc' \<ge> need then (Stop, acc') else count_level taker stp need acc' ns)"

lemma accumulate_level_linked:
  assumes "linked (slab_get sl) p xs NIL" and "NIL \<notin> set xs"
  shows "accumulate_level sl (first_of xs NIL) taker stp acc need =
    Some (count_level taker stp need acc (map (slot_order sl) xs))"
  using assms
proof (induction xs arbitrary: p acc)
  case Nil
  then show ?case by (simp add: accumulate_level.simps)
next
  case (Cons x xs)
  then obtain n where n: "slab_get sl x = Some n" by auto
  with Cons show ?case
    using linked_walk [OF Cons.prems(1) n]
    by (subst accumulate_level.simps) (auto simp: slot_order_get Let_def split: stp_policy.splits)
qed

fun count_orders ::
  "side \<Rightarrow> account_id \<Rightarrow> price \<Rightarrow> bool \<Rightarrow> stp_policy \<Rightarrow> int \<Rightarrow> int \<Rightarrow> node list \<Rightarrow> int" where
  "count_orders tside taker tprice mkt stp need acc [] = acc"
| "count_orders tside taker tprice mkt stp need acc (n # ns) =
     (if \<not> crosses tside mkt tprice (nd_price n) then acc
      else if nd_account n = taker then
        (if stp = CancelMaker then count_orders tside taker tprice mkt stp need acc ns else acc)
      else let acc' = prim_saturate I64 (acc + nd_remaining n) in
        if acc' \<ge> need then acc' else count_orders tside taker tprice mkt stp need acc' ns)"

lemma count_orders_append:
  assumes "\<And>n. n \<in> set ns \<Longrightarrow> crosses tside mkt tprice (nd_price n)"
  shows "count_orders tside taker tprice mkt stp need acc (ns @ ms) =
    (case count_level taker stp need acc ns of
       (Stop, acc') \<Rightarrow> acc'
     | (Continue, acc') \<Rightarrow> count_orders tside taker tprice mkt stp need acc' ms)"
  using assms by (induction ns arbitrary: acc) (auto simp: Let_def)

lemma crossable_levels_rep:
  assumes rep: "side_rep sl sd sb Q" and wf: "slab_wf sl" and sub: "set ls \<subseteq> set (levels_best_first sb)"
  shows "crossable_levels sl ls tside taker tprice mkt stp need acc =
    Some (count_orders tside taker tprice mkt stp need acc
      (map (slot_order sl) (concat (map (\<lambda>l. Q (fst l)) ls))))"
  using sub
proof (induction ls arbitrary: acc)
  case Nil
  then show ?case by simp
next
  case (Cons l ls)
  obtain p lv where l: "l = (p, lv)" by fastforce
  have head: "Q p \<noteq> []" "lv_head lv = first_of (Q p) NIL"
    using levels_best_first_head [OF rep, of p lv] Cons.prems l by auto
  have acc: "accumulate_level sl (lv_head lv) taker stp acc need =
      Some (count_level taker stp need acc (map (slot_order sl) (Q p)))"
    using side_rep_queue [OF rep, of p] queue_no_NIL [OF wf side_rep_queue [OF rep], of p]
      accumulate_level_linked [of sl NIL "Q p"] head(2) by (simp add: queue_ok_def)
  have price: "nd_price n = p" if "n \<in> set (map (slot_order sl) (Q p))" for n
  proof -
    from that obtain x where "n = slot_order sl x" "x \<in> set (Q p)" by auto
    then show ?thesis using slot_order_props(1) [OF rep] by simp
  qed
  show ?case
  proof (cases "crosses tside mkt tprice p")
    case True
    have "count_orders tside taker tprice mkt stp need acc
        (map (slot_order sl) (Q p) @ map (slot_order sl) (concat (map (\<lambda>l. Q (fst l)) ls))) =
      (case count_level taker stp need acc (map (slot_order sl) (Q p)) of
         (Stop, acc') \<Rightarrow> acc'
       | (Continue, acc') \<Rightarrow> count_orders tside taker tprice mkt stp need acc'
           (map (slot_order sl) (concat (map (\<lambda>l. Q (fst l)) ls))))"
    proof (rule count_orders_append)
      show "crosses tside mkt tprice (nd_price n)" if "n \<in> set (map (slot_order sl) (Q p))" for n
        using True price [OF that] by simp
    qed
    then show ?thesis
      using Cons.IH Cons.prems True acc l by (simp split: prod.split scan.split)
  next
    case False
    obtain x xs where x: "Q p = x # xs" "nd_price (slot_order sl x) = p"
      using head(1) price [of "slot_order sl (hd (Q p))"] by (cases "Q p") simp_all
    then show ?thesis
      using False by (simp add: l)
  qed
qed

lemma side_crossable_qty_rep:
  assumes "side_rep sl sd sb Q" and "slab_wf sl"
  shows "side_crossable_qty sb sl tside taker tprice mkt stp need =
    Some (count_orders tside taker tprice mkt stp need 0 (side_orders sl sd Q))"
proof -
  have "map (\<lambda>l. Q (fst l)) (levels_best_first sb) = map Q (price_list sd {p. Q p \<noteq> []})"
    by (simp add: comp_def flip: levels_best_first_keys [OF assms(1)])
  then show ?thesis
    using crossable_levels_rep [OF assms, of "levels_best_first sb"]
    by (simp add: side_crossable_qty_def side_orders_def flat_def)
qed

section \<open>Reducing an order\<close>

lemma linked_same_links:
  assumes "\<And>x. map_option (\<lambda>n. (nd_prev n, nd_next n)) (g' x) = map_option (\<lambda>n. (nd_prev n, nd_next n)) (g x)"
  shows "linked g' p xs e = linked g p xs e"
proof (induction xs arbitrary: p)
  case (Cons x xs)
  then show ?case
    using assms [of x] by (cases "g x"; cases "g' x") auto
qed simp

lemma sum_list_update_one:
  "distinct xs \<Longrightarrow> x \<in> set xs \<Longrightarrow> (\<And>y. y \<in> set xs \<Longrightarrow> y \<noteq> x \<Longrightarrow> f y = g y) \<Longrightarrow>
   sum_list (map f xs) = sum_list (map g xs) - g x + (f x :: int)"
proof (induction xs)
  case (Cons a xs)
  show ?case
  proof (cases "x = a")
    case True
    with Cons.prems have "map f xs = map g xs" by auto
    then have "sum_list (map f xs) = sum_list (map g xs)" by (rule arg_cong)
    with True show ?thesis by simp
  next
    case False
    with Cons show ?thesis by auto
  qed
qed simp

lemma reduce_rep:
  assumes rep: "side_rep sl sd sb Q" and slot: "slot \<in> set (Q p)" "slab_get sl slot = Some nd"
    and r: "0 < r" "r = nd_remaining nd - q" "0 \<le> q"
    and sl': "sl' = slab_modify sl slot (\<lambda>m. m\<lparr>nd_remaining := r\<rparr>)"
  shows "\<exists>sb'. reduce_level_qty sb p q = Some sb' \<and> side_rep sl' sd sb' Q"
proof -
  have get: "slab_get sl' x = (if x = slot then Some (nd\<lparr>nd_remaining := r\<rparr>) else slab_get sl x)" for x
    using slot(2) by (simp add: sl' sl.get_modify)
  have q: "queue_ok sl' sd p' (Q p')" for p'
  proof -
    have "linked (slab_get sl') NIL (Q p') NIL = linked (slab_get sl) NIL (Q p') NIL"
      using slot(2) by (intro linked_same_links) (simp add: get)
    moreover have "\<exists>n. contents sl' x = Some n \<and> nd_side n = sd \<and> nd_price n = p' \<and> 0 < nd_remaining n"
      if x: "x \<in> set (Q p')" for x
    proof -
      obtain n where "slab_get sl x = Some n" "nd_side n = sd" "nd_price n = p'" "0 < nd_remaining n"
        using side_rep_slot [OF rep x] by auto
      then show ?thesis
        using slot(2) r(1) by (auto simp: contents_def get)
    qed
    ultimately show ?thesis
      using side_rep_queue [OF rep, of p'] by (simp add: queue_ok_def)
  qed
  obtain lv where lv: "omap_get (sb_levels sb) p = Some lv" "lv_head lv = hd (Q p)" "lv_tail lv = last (Q p)"
    "lv_count lv = length (Q p)" "lv_total_qty lv = sum_list (map (qty_at sl) (Q p))" "fits I64 (lv_total_qty lv)"
    using side_rep_level [OF rep, of p] slot(1) by (auto simp: level_ok_def split: option.splits)
  have dist: "distinct (Q p)"
    using side_rep_queue [OF rep] by (simp add: queue_ok_def)
  have qty: "qty_at sl' x = (if x = slot then r else qty_at sl x)" for x
    by (simp add: qty_at_def contents_def get)
  have "qty_at sl slot = nd_remaining nd"
    using slot(2) by (simp add: qty_at_def contents_def)
  then have sum: "sum_list (map (qty_at sl') (Q p)) = lv_total_qty lv - q"
    using sum_list_update_one [OF dist slot(1), of "qty_at sl'" "qty_at sl"] r(2) lv(5) by (simp add: qty)
  have "0 \<le> sum_list (map (qty_at sl') (Q p))"
    using queue_positive [OF q] by (intro sum_list_nonneg) (auto simp: less_imp_le)
  then have fit: "fits I64 (lv_total_qty lv - q)"
    using sum r(3) by (intro fits_nonneg_le [OF lv(6)]) simp_all
  let ?sb = "sb\<lparr>sb_levels := omap_put p (lv\<lparr>lv_total_qty := lv_total_qty lv - q\<rparr>) (sb_levels sb)\<rparr>"
  have "level_ok sl' (omap_get (sb_levels ?sb) p') (Q p')" for p'
  proof (cases "p' = p")
    case True
    then show ?thesis
      using lv slot(1) sum fit by (auto simp: level_ok_def)
  next
    case False
    then have "slot \<notin> set (Q p')"
      using side_rep_disjoint [OF rep slot(1)] by auto
    then show ?thesis
      using False side_rep_level [OF rep, of p']
      by (rule_tac level_ok_frame [of sl _ "Q p'"]) (auto simp: contents_def get)
  qed
  then have "side_rep sl' sd ?sb Q"
    using q rep by (simp add: side_rep_def)
  then show ?thesis
    using lv(1) fit by (auto simp: reduce_level_qty_def)
qed

end
