(* ===== verification/BookRep.thy ===== *)
theory BookRep
  imports BookIndex LevelScan
begin

text \<open>
  The invariant of the order book. \<open>book_rep sha b Q\<close> says that the queues \<open>Q\<close> (slots per side and
  price) are what the book stores: the slab, the level links, the id index, the account lists and the
  leaf aggregate all describe the same live orders, and the book is not crossed. The lemmas say what
  resting, removing and reducing an order do to it.
\<close>

unbundle bit_operations_syntax

section \<open>The invariant\<close>

type_synonym queues = "side \<Rightarrow> price \<Rightarrow> nat list"

definition queued :: "queues \<Rightarrow> nat set" where
  "queued Q = {x. \<exists>sd p. x \<in> set (Q sd p)}"

definition uncrossed :: "queues \<Rightarrow> bool" where
  "uncrossed Q \<longleftrightarrow> (\<forall>p q. Q Bid p \<noteq> [] \<longrightarrow> Q Ask q \<noteq> [] \<longrightarrow> p < q)"

definition live_orders :: "order_book \<Rightarrow> nat \<Rightarrow> node option" where
  "live_orders b = contents (bk_slab b)"

definition book_rep :: "sha256 \<Rightarrow> order_book \<Rightarrow> queues \<Rightarrow> bool" where
  "book_rep sha b Q \<longleftrightarrow>
     slab_wf (bk_slab b) \<and> capacity (bk_slab b) = cfg_capacity (bk_config b) \<and>
     (\<forall>sd. side_rep (bk_slab b) sd (side_of sd b) (Q sd)) \<and>
     dom (live_orders b) = queued Q \<and>
     (\<forall>x n. live_orders b x = Some n \<longrightarrow> node_typed n) \<and>
     index_ok (live_orders b) (bk_id_index b) \<and>
     accounts_ok (live_orders b) (bk_account_orders b) \<and>
     bk_order_leaf_xor b = order_xor (order_leaf sha) (live_orders b) \<and>
     uncrossed Q \<and>
     dd_wf (bk_dedup b) \<and> dd_capacity (bk_dedup b) = cfg_dedup_capacity (bk_config b) \<and>
     (\<forall>a q. omap_get (bk_positions b) a = Some q \<longrightarrow> fits I64 q)"

text \<open>What matching, resting and cancelling leave alone.\<close>

definition kept :: "order_book \<Rightarrow> order_book \<Rightarrow> bool" where
  "kept b b' \<longleftrightarrow> bk_config b' = bk_config b \<and> bk_positions b' = bk_positions b \<and> bk_dedup b' = bk_dedup b"

lemma kept_refl [simp]: "kept b b"
  by (simp add: kept_def)

lemma kept_trans [trans]: "kept a b \<Longrightarrow> kept b c \<Longrightarrow> kept a c"
  by (simp add: kept_def)

lemma side_of_set_side [simp]:
  "side_of sd (set_side sd' sb b) = (if sd = sd' then sb else side_of sd b)"
  by (cases sd; cases sd') (simp_all add: side_of_def set_side_def)

lemma set_side_fields [simp]:
  "bk_config (set_side sd sb b) = bk_config b" "bk_slab (set_side sd sb b) = bk_slab b"
  "bk_id_index (set_side sd sb b) = bk_id_index b" "bk_account_orders (set_side sd sb b) = bk_account_orders b"
  "bk_positions (set_side sd sb b) = bk_positions b" "bk_dedup (set_side sd sb b) = bk_dedup b"
  "bk_order_leaf_xor (set_side sd sb b) = bk_order_leaf_xor b"
  by (cases sd; simp add: set_side_def)+

lemma side_of_updates [simp]:
  "side_of sd (b\<lparr>bk_slab := s\<rparr>) = side_of sd b" "side_of sd (b\<lparr>bk_id_index := i\<rparr>) = side_of sd b"
  "side_of sd (b\<lparr>bk_account_orders := a\<rparr>) = side_of sd b" "side_of sd (b\<lparr>bk_positions := ps\<rparr>) = side_of sd b"
  "side_of sd (b\<lparr>bk_dedup := d\<rparr>) = side_of sd b" "side_of sd (b\<lparr>bk_order_leaf_xor := h\<rparr>) = side_of sd b"
  by (cases sd; simp add: side_of_def)+

lemma order_leaf_payload [simp]: "order_leaf sha (payload n) = order_leaf sha n"
  by (simp add: order_leaf_def)

lemma node_typed_payload [simp]: "node_typed (payload n) = node_typed n"
  by (simp add: node_typed_def)

lemma live_orders_updates [simp]:
  "live_orders (b\<lparr>bk_id_index := i\<rparr>) = live_orders b" "live_orders (b\<lparr>bk_account_orders := a\<rparr>) = live_orders b"
  "live_orders (b\<lparr>bk_order_leaf_xor := h\<rparr>) = live_orders b" "live_orders (b\<lparr>bk_positions := ps\<rparr>) = live_orders b"
  "live_orders (b\<lparr>bk_dedup := d\<rparr>) = live_orders b" "live_orders (set_side sd sb b) = live_orders b"
  "live_orders (b\<lparr>bk_slab := s\<rparr>) = contents s"
  by (simp_all add: live_orders_def)

section \<open>Consequences\<close>

lemma book_rep_side: "book_rep sha b Q \<Longrightarrow> side_rep (bk_slab b) sd (side_of sd b) (Q sd)"
  by (simp add: book_rep_def)

lemma book_rep_wf: "book_rep sha b Q \<Longrightarrow> slab_wf (bk_slab b)"
  by (simp add: book_rep_def)

lemma book_rep_finite: "book_rep sha b Q \<Longrightarrow> finite (dom (live_orders b))"
  using sl.len_card [of "bk_slab b"] by (simp add: book_rep_def live_orders_def contents_def dom_map_option_comp dom_def)

lemma live_orders_get: "slab_get (bk_slab b) x = Some n \<Longrightarrow> live_orders b x = Some (payload n)"
  by (simp add: live_orders_def contents_def)

lemma live_orders_Some:
  "live_orders b x = Some m \<longleftrightarrow> (\<exists>n. slab_get (bk_slab b) x = Some n \<and> m = payload n)"
  by (auto simp: live_orders_def contents_def)

lemma queue_length_le:
  assumes "book_rep sha b Q"
  shows "length (Q sd p) \<le> live (bk_slab b)"
proof -
  have "set (Q sd p) \<subseteq> dom (slab_get (bk_slab b))"
    using side_rep_slot [OF book_rep_side [OF assms]] by blast
  then have "card (set (Q sd p)) \<le> live (bk_slab b)"
    using sl.len_card [OF book_rep_wf [OF assms]] by (simp add: card_mono)
  moreover have "distinct (Q sd p)"
    using side_rep_queue [OF book_rep_side [OF assms]] by (rule queue_distinct)
  ultimately show ?thesis
    by (simp add: distinct_card)
qed

lemma book_contains_iff:
  "book_rep sha b Q \<Longrightarrow> book_contains b i \<longleftrightarrow> (\<exists>x n. live_orders b x = Some n \<and> nd_order_id n = i)"
  using index_ok_absent [of "live_orders b" "bk_id_index b" i]
  by (auto simp: book_rep_def book_contains_def)

lemma queued_slot:
  assumes "book_rep sha b Q" and "live_orders b x = Some n"
  shows "\<exists>ys zs. Q (nd_side n) (nd_price n) = ys @ x # zs"
proof -
  have "x \<in> queued Q"
    using assms by (auto simp: book_rep_def)
  then obtain sd p where "x \<in> set (Q sd p)"
    by (auto simp: queued_def)
  moreover from this have "nd_side n = sd" "nd_price n = p"
    using side_rep_slot [OF book_rep_side [OF assms(1)], of x sd p] assms(2)
    by (auto simp: live_orders_Some)
  ultimately show ?thesis
    by (simp add: split_list)
qed

lemma other_side_slots:
  assumes "book_rep sha b Q" and "x \<in> set (Q sd p)" and "y \<in> set (Q sd' p')" and "sd \<noteq> sd'"
  shows "x \<noteq> y"
  using side_rep_slot [OF book_rep_side [OF assms(1)] assms(2)]
    side_rep_slot [OF book_rep_side [OF assms(1)] assms(3)] assms(4) by auto

section \<open>Removing an order\<close>

lemma queued_remove:
  assumes "book_rep sha b Q" and "Q sd p = xs @ slot # ys"
  shows "queued (Q(sd := (Q sd)(p := xs @ ys))) = queued Q - {slot}"
proof -
  have in_p: "slot \<in> set (Q sd p)" and dist: "distinct (xs @ slot # ys)"
    using assms side_rep_queue [OF book_rep_side [OF assms(1)], of sd p] by (simp_all add: queue_ok_def)
  have only: "sd' = sd \<and> p' = p" if "slot \<in> set (Q sd' p')" for sd' p'
    using that in_p other_side_slots [OF assms(1) that in_p]
      side_rep_disjoint [OF book_rep_side [OF assms(1)], of slot sd p p'] by blast
  show ?thesis
  proof (rule set_eqI)
    fix x
    show "x \<in> queued (Q(sd := (Q sd)(p := xs @ ys))) \<longleftrightarrow> x \<in> queued Q - {slot}"
    proof (cases "x = slot")
      case True
      then show ?thesis
        using only dist by (auto simp: queued_def split: if_splits)
    next
      case False
      have "x \<in> set ((Q(sd := (Q sd)(p := xs @ ys))) sd' p') \<longleftrightarrow> x \<in> set (Q sd' p')" for sd' p'
        using False assms(2) by auto
      then show ?thesis
        using False by (simp add: queued_def)
    qed
  qed
qed

text \<open>The slab and the two sides after \<open>unlink\<close> and \<open>Slab::remove\<close>.\<close>

lemma remove_slot_sides:
  assumes rep: "book_rep sha b Q" and split: "Q sd p = xs @ slot # ys"
  obtains sb sl1 sl2 n1 where "unlink (side_of sd b) (bk_slab b) slot = Some (sb, sl1)"
    and "slab_remove sl1 slot = Some (Ok n1, sl2)" and "contents sl2 = (live_orders b)(slot := None)"
    and "live sl2 + 1 = live (bk_slab b)" and "capacity sl2 = capacity (bk_slab b)" and "slab_wf sl2"
    and "side_rep sl2 sd sb ((Q sd)(p := xs @ ys))"
    and "\<And>s. s \<noteq> sd \<Longrightarrow> side_rep sl2 s (side_of s b) (Q s)"
proof -
  let ?sl = "bk_slab b"
  have side: "side_rep ?sl s (side_of s b) (Q s)" for s
    using rep by (rule book_rep_side)
  have in_p: "slot \<in> set (Q sd p)" using split by simp
  obtain sb sl1 where u: "unlink (side_of sd b) ?sl slot = Some (sb, sl1)" "contents sl1 = contents ?sl"
    "live sl1 = live ?sl" "capacity sl1 = capacity ?sl" "slab_wf sl1"
    "side_rep sl1 sd sb ((Q sd)(p := xs @ ys))" "\<And>x. x \<notin> set (Q sd p) \<Longrightarrow> slab_get sl1 x = slab_get ?sl x"
    using unlink_rep [OF side book_rep_wf [OF rep] split] by blast
  obtain n1 where n1: "slab_get sl1 slot = Some n1"
    using side_rep_slot [OF side in_p] u(2) by (metis contents_def map_option_eq_Some)
  obtain sl2 where r: "slab_remove sl1 slot = Some (Ok n1, sl2)" "slab_get sl2 = (slab_get sl1)(slot := None)"
    "live sl2 + 1 = live sl1" "capacity sl2 = capacity sl1" "slab_wf sl2"
    using sl.remove_live [OF u(5) n1] by blast
  have "contents sl2 = (live_orders b)(slot := None)"
    using r(2) u(2) by (auto simp: live_orders_def contents_def fun_eq_iff)
  moreover have "side_rep sl2 sd sb ((Q sd)(p := xs @ ys))"
  proof -
    have "x \<noteq> slot" if "x \<in> set (((Q sd)(p := xs @ ys)) p')" for p' x
      using that queued_remove [OF rep split] by (fastforce simp: queued_def split: if_splits)
    then show ?thesis
      using u(6) r(2) by (rule_tac side_rep_frame [of sl1]) auto
  qed
  moreover have "side_rep sl2 s (side_of s b) (Q s)" if other: "s \<noteq> sd" for s
  proof -
    have "slab_get sl2 x = slab_get ?sl x" if "x \<in> set (Q s p')" for p' x
      using that u(7) [of x] r(2) other_side_slots [OF rep that _ other, of x p]
        other_side_slots [OF rep that in_p other] by auto
    then show ?thesis
      using side by (rule_tac side_rep_frame [of ?sl]) auto
  qed
  ultimately show thesis
    using that u r by simp
qed

lemma remove_resting_rep:
  assumes rep: "book_rep sha b Q" and split: "Q sd p = xs @ slot # ys"
  shows "\<exists>b'. remove_resting sha b sd slot = Some b' \<and>
    book_rep sha b' (Q(sd := (Q sd)(p := xs @ ys))) \<and>
    live_orders b' = (live_orders b)(slot := None) \<and> live (bk_slab b') + 1 = live (bk_slab b) \<and> kept b b'"
proof -
  let ?Q = "Q(sd := (Q sd)(p := xs @ ys))"
  obtain n where n: "slab_get (bk_slab b) slot = Some n"
    using side_rep_slot [OF book_rep_side [OF rep], of slot sd p] split by auto
  then have live: "live_orders b slot = Some (payload n)"
    by (rule live_orders_get)
  obtain sb sl1 sl2 n1 where u: "unlink (side_of sd b) (bk_slab b) slot = Some (sb, sl1)"
    "slab_remove sl1 slot = Some (Ok n1, sl2)" "contents sl2 = (live_orders b)(slot := None)"
    "live sl2 + 1 = live (bk_slab b)" "capacity sl2 = capacity (bk_slab b)" "slab_wf sl2"
    "side_rep sl2 sd sb ((Q sd)(p := xs @ ys))" "\<And>s. s \<noteq> sd \<Longrightarrow> side_rep sl2 s (side_of s b) (Q s)"
    by (rule remove_slot_sides [OF rep split]) (rule that)
  have idx: "index_ok (live_orders b) (bk_id_index b)" and acc: "accounts_ok (live_orders b) (bk_account_orders b)"
    using rep by (simp_all add: book_rep_def)
  obtain ids where ids: "omap_get (bk_account_orders b) (nd_account n) = Some ids"
    "accounts_ok ((live_orders b)(slot := None))
       (omap_put (nd_account n) (ids_remove ids (nd_order_id n)) (bk_account_orders b))"
    using accounts_ok_remove [OF acc idx live] by auto
  define b' where "b' = (set_side sd sb (auth_remove sha n b))\<lparr>bk_slab := sl2,
      bk_id_index := omap_remove (nd_order_id n) (bk_id_index b),
      bk_account_orders := omap_put (nd_account n) (ids_remove ids (nd_order_id n)) (bk_account_orders b)\<rparr>"
  have run: "remove_resting sha b sd slot = Some b'"
    using n u(1,2) ids(1) by (simp add: remove_resting_def Let_def auth_remove_def b'_def)
  have lo: "live_orders b' = (live_orders b)(slot := None)"
    using u(3) by (simp add: b'_def live_orders_def)
  have fields: "bk_slab b' = sl2" "kept b b'" "side_of s b' = (if s = sd then sb else side_of s b)" for s
    by (simp_all add: b'_def kept_def auth_remove_def)
  have "order_xor (order_leaf sha) (live_orders b') = bk_order_leaf_xor b'"
    unfolding lo using order_xor_remove [OF book_rep_finite [OF rep] live, of "order_leaf sha"] rep
    by (simp add: b'_def auth_remove_def book_rep_def)
  moreover have "index_ok (live_orders b') (bk_id_index b')"
    unfolding lo using index_ok_remove [OF idx live] by (simp add: b'_def)
  moreover have "accounts_ok (live_orders b') (bk_account_orders b')"
    unfolding lo using ids(2) by (simp add: b'_def)
  moreover have "uncrossed ?Q"
    using rep split by (auto simp: book_rep_def uncrossed_def)
  moreover have "dom (live_orders b') = queued ?Q"
    using rep queued_remove [OF rep split] by (simp add: lo book_rep_def)
  moreover have "side_rep (bk_slab b') s (side_of s b') (?Q s)" for s
    using u(7,8) fields(1,3) by simp
  ultimately have "book_rep sha b' ?Q"
    using rep u(5,6) fields(1,2) by (auto simp: book_rep_def kept_def lo split: if_splits)
  then show ?thesis
    using run lo fields u(4) by auto
qed

section \<open>Resting an order\<close>

lemma would_cross_iff:
  assumes "book_rep sha b Q"
  shows "would_cross b sd p \<longleftrightarrow> (\<exists>q. Q (opposite sd) q \<noteq> [] \<and> (case sd of Bid \<Rightarrow> q \<le> p | Ask \<Rightarrow> p \<le> q))"
proof -
  have side: "side_rep (bk_slab b) s (side_of s b) (Q s)" for s
    using assms by (rule book_rep_side)
  have "would_cross b sd p \<longleftrightarrow>
    (\<exists>q. best_price (side_of (opposite sd) b) = Some q \<and> (case sd of Bid \<Rightarrow> q \<le> p | Ask \<Rightarrow> p \<le> q))"
    by (cases sd) (auto simp: would_cross_def side_of_def split: option.splits)
  also have "\<dots> \<longleftrightarrow> (\<exists>q. Q (opposite sd) q \<noteq> [] \<and> (case sd of Bid \<Rightarrow> q \<le> p | Ask \<Rightarrow> p \<le> q))"
  proof
    assume "\<exists>q. Q (opposite sd) q \<noteq> [] \<and> (case sd of Bid \<Rightarrow> q \<le> p | Ask \<Rightarrow> p \<le> q)"
    then obtain q where q: "Q (opposite sd) q \<noteq> []" "case sd of Bid \<Rightarrow> q \<le> p | Ask \<Rightarrow> p \<le> q" by blast
    then obtain q' where q': "best_price (side_of (opposite sd) b) = Some q'"
      using best_price_None [OF side] by blast
    then have "pkey (opposite sd) q' \<le> pkey (opposite sd) q"
      using best_price_Some(2) [OF side q' q(1)] by simp
    then show "\<exists>q. best_price (side_of (opposite sd) b) = Some q \<and> (case sd of Bid \<Rightarrow> q \<le> p | Ask \<Rightarrow> p \<le> q)"
      using q(2) q' by (cases sd) (auto simp: pkey_def)
  qed (use best_price_Some(1) [OF side] in blast)
  finally show ?thesis .
qed

lemma uncrossed_append:
  assumes "book_rep sha b Q" and "\<not> would_cross b sd p"
  shows "uncrossed (Q(sd := (Q sd)(p := Q sd p @ [slot])))"
proof -
  have "uncrossed Q"
    using assms(1) by (simp add: book_rep_def)
  then show ?thesis
    using assms(2) would_cross_iff [OF assms(1), of sd p]
    by (cases sd) (auto simp: uncrossed_def not_le split: if_splits)
qed

lemma queued_append:
  "queued (Q(sd := (Q sd)(p := Q sd p @ [slot]))) = insert slot (queued Q)"
proof -
  have "x \<in> set ((Q(sd := (Q sd)(p := Q sd p @ [slot]))) s q) \<longleftrightarrow> x \<in> set (Q s q) \<or> s = sd \<and> q = p \<and> x = slot"
    for x s q by auto
  then show ?thesis
    unfolding queued_def by auto
qed

text \<open>The slab and the two sides after \<open>Slab::insert\<close> and \<open>push_back\<close>.\<close>

lemma insert_slot_sides:
  assumes rep: "book_rep sha b Q" and n: "nd_side n = sd" "nd_price n = p" "payload n = n"
    and pos: "0 < p" "0 < nd_remaining n"
    and fit: "fits I64 (level_total (side_of sd b) p + nd_remaining n)" and room: "live (bk_slab b) < capacity (bk_slab b)"
  obtains slot sl1 sb sl2 where "slab_insert (bk_slab b) n = Some (Ok slot, sl1)"
    and "push_back (side_of sd b) sl1 slot = Some (sb, sl2)"
    and "live_orders b slot = None" and "contents sl2 = (live_orders b)(slot \<mapsto> n)"
    and "live sl2 = live (bk_slab b) + 1" and "capacity sl2 = capacity (bk_slab b)" and "slab_wf sl2"
    and "side_rep sl2 sd sb ((Q sd)(p := Q sd p @ [slot]))"
    and "\<And>s. s \<noteq> sd \<Longrightarrow> side_rep sl2 s (side_of s b) (Q s)"
proof -
  let ?sl = "bk_slab b"
  have side: "side_rep ?sl s (side_of s b) (Q s)" for s
    using rep by (rule book_rep_side)
  have wf: "slab_wf ?sl" using rep by (rule book_rep_wf)
  obtain slot sl1 where i: "slab_insert ?sl n = Some (Ok slot, sl1)" "slab_get ?sl slot = None"
    "slab_get sl1 = (slab_get ?sl)(slot \<mapsto> n)" "live sl1 = live ?sl + 1" "capacity sl1 = capacity ?sl" "slab_wf sl1"
    using sl.insert_space [OF wf room, of n] by blast
  have fresh: "slot \<notin> set (Q s p')" for s p'
    using side_rep_slot [OF side, of slot s p'] i(2) by auto
  have side1: "side_rep sl1 s (side_of s b) (Q s)" for s
    using side fresh by (rule_tac side_rep_frame [of ?sl]) (auto simp: i(3))
  have "length (Q sd p) < u32_max"
    using queue_length_le [OF rep, of sd p] room wf by (simp add: slab_wf_def)
  then obtain sb sl2 where u: "push_back (side_of sd b) sl1 slot = Some (sb, sl2)" "contents sl2 = contents sl1"
    "live sl2 = live sl1" "capacity sl2 = capacity sl1" "slab_wf sl2"
    "side_rep sl2 sd sb ((Q sd)(p := Q sd p @ [slot]))"
    "\<And>x. x \<noteq> slot \<Longrightarrow> x \<notin> set (Q sd p) \<Longrightarrow> slab_get sl2 x = slab_get sl1 x"
    using push_back_rep [OF side1 i(6), of slot n sd p] i(3) n pos fresh fit by auto
  have "contents sl2 = (live_orders b)(slot \<mapsto> n)"
    using u(2) i(3) n(3) by (auto simp: live_orders_def contents_def fun_eq_iff)
  moreover have "side_rep sl2 s (side_of s b) (Q s)" if other: "s \<noteq> sd" for s
  proof -
    have "slab_get sl2 x = slab_get sl1 x" if "x \<in> set (Q s p')" for p' x
      using that u(7) [of x] fresh other_side_slots [OF rep that _ other, of x p] by auto
    then show ?thesis
      using side1 by (rule_tac side_rep_frame [of sl1]) auto
  qed
  moreover have "live_orders b slot = None"
    using i(2) by (simp add: live_orders_def contents_def)
  ultimately show thesis
    using that [of slot sl1 sb sl2] i u by simp
qed

text \<open>The invariant after the indexes have followed.\<close>

lemma inserted_rep:
  assumes rep: "book_rep sha b Q" and fresh: "live_orders b slot = None" and typed: "node_typed n"
    and lo: "live_orders b' = (live_orders b)(slot \<mapsto> n)" and slab: "slab_wf (bk_slab b')" "capacity (bk_slab b') = capacity (bk_slab b)"
    and sides: "\<And>s. side_rep (bk_slab b') s (side_of s b') ((Q(sd := (Q sd)(p := Q sd p @ [slot]))) s)"
    and absent: "omap_get (bk_id_index b) (nd_order_id n) = None"
    and idx: "bk_id_index b' = omap_put (nd_order_id n)
       \<lparr>loc_slot = slot, loc_side = nd_side n, loc_account = nd_account n\<rparr> (bk_id_index b)"
    and accounts: "accounts_ok (live_orders b') (bk_account_orders b')"
    and leaf: "bk_order_leaf_xor b' = bk_order_leaf_xor b XOR order_leaf sha n"
    and uncr: "uncrossed (Q(sd := (Q sd)(p := Q sd p @ [slot])))" and kept: "kept b b'"
  shows "book_rep sha b' (Q(sd := (Q sd)(p := Q sd p @ [slot])))"
proof -
  have "index_ok (live_orders b) (bk_id_index b)"
    using rep by (simp add: book_rep_def)
  then have "index_ok (live_orders b') (bk_id_index b')"
    unfolding lo idx by (rule index_ok_insert) (simp_all add: fresh absent)
  moreover have "order_xor (order_leaf sha) (live_orders b') = bk_order_leaf_xor b'"
    unfolding lo leaf using order_xor_insert [OF book_rep_finite [OF rep] fresh, of "order_leaf sha" n] rep
    by (simp add: book_rep_def ac_simps)
  moreover have "dom (live_orders b') = queued (Q(sd := (Q sd)(p := Q sd p @ [slot])))"
    using rep by (simp add: lo queued_append book_rep_def)
  moreover have "\<forall>x m. live_orders b' x = Some m \<longrightarrow> node_typed m"
    using rep typed by (simp add: lo book_rep_def)
  ultimately show ?thesis
    using rep slab sides accounts uncr kept by (simp add: book_rep_def kept_def)
qed

lemma node_new_payload [simp]: "payload (node_new ord q) = node_new ord q"
  by (simp add: node_new_def payload_def)

lemma node_new_fields [simp]:
  "nd_order_id (node_new ord q) = no_order_id ord" "nd_account (node_new ord q) = no_account ord"
  "nd_side (node_new ord q) = no_side ord" "nd_price (node_new ord q) = no_price ord"
  "nd_remaining (node_new ord q) = q" "nd_client_id (node_new ord q) = no_client_id ord"
  by (simp_all add: node_new_def)

lemma rest_order_overflow:
  "\<not> fits I64 (level_total (side_of (no_side ord) b) (no_price ord) + q) \<Longrightarrow>
   rest_order sha b ord q = Some (Err OrderOverflow, b)"
  by (simp add: rest_order_def scalar_checked_add_def prim_checked_def)

lemma rest_order_full:
  assumes "slab_wf (bk_slab b)" and "live (bk_slab b) = capacity (bk_slab b)"
    and "fits I64 (level_total (side_of (no_side ord) b) (no_price ord) + q)"
  shows "rest_order sha b ord q = Some (Err CapacityExhausted, b)"
  using sl.insert_full [OF assms(1,2)] assms(3)
  by (simp add: rest_order_def scalar_checked_add_def prim_checked_def)

lemma rest_order_rep:
  assumes rep: "book_rep sha b Q" and typed: "order_typed ord" "fits I64 q" and pos: "0 < no_price ord" "0 < q"
    and new: "\<not> book_contains b (no_order_id ord)"
    and uncr: "\<not> would_cross b (no_side ord) (no_price ord)"
    and fit: "fits I64 (level_total (side_of (no_side ord) b) (no_price ord) + q)"
    and room: "live (bk_slab b) < capacity (bk_slab b)"
  shows "\<exists>slot b'. rest_order sha b ord q = Some (Ok (), b') \<and>
    book_rep sha b' (Q(no_side ord := (Q (no_side ord))(no_price ord := Q (no_side ord) (no_price ord) @ [slot]))) \<and>
    live_orders b slot = None \<and> live_orders b' = (live_orders b)(slot \<mapsto> node_new ord q) \<and>
    live (bk_slab b') = live (bk_slab b) + 1 \<and> kept b b'"
proof -
  let ?n = "node_new ord q" and ?sd = "no_side ord" and ?p = "no_price ord"
  obtain slot sl1 sb sl2 where i: "slab_insert (bk_slab b) ?n = Some (Ok slot, sl1)"
    "push_back (side_of ?sd b) sl1 slot = Some (sb, sl2)"
    "live_orders b slot = None" "contents sl2 = (live_orders b)(slot \<mapsto> ?n)"
    "live sl2 = live (bk_slab b) + 1" "capacity sl2 = capacity (bk_slab b)" "slab_wf sl2"
    "side_rep sl2 ?sd sb ((Q ?sd)(?p := Q ?sd ?p @ [slot]))"
    "\<And>s. s \<noteq> ?sd \<Longrightarrow> side_rep sl2 s (side_of s b) (Q s)"
    by (rule insert_slot_sides [OF rep, of ?n ?sd ?p]) (use pos fit room in simp_all)
  let ?Q = "Q(?sd := (Q ?sd)(?p := Q ?sd ?p @ [slot]))"
  obtain m where m: "slab_get sl2 slot = Some m" "payload m = ?n"
    using fun_cong [OF i(4), of slot] by (auto simp: contents_def)
  have leaf: "order_leaf sha m = order_leaf sha ?n"
    using m(2) order_leaf_payload by metis
  let ?loc = "\<lparr>loc_slot = slot, loc_side = ?sd, loc_account = no_account ord\<rparr>"
  define b' where "b' = (set_side ?sd sb b)\<lparr>bk_slab := sl2,
      bk_order_leaf_xor := bk_order_leaf_xor b XOR order_leaf sha ?n,
      bk_id_index := omap_put (no_order_id ord) ?loc (bk_id_index b),
      bk_account_orders := omap_put (no_account ord)
        (ids_insert (account_ids (bk_account_orders b) (no_account ord)) (no_order_id ord)) (bk_account_orders b)\<rparr>"
  have run: "rest_order sha b ord q = Some (Ok (), b')"
    using fit i(1,2) m(1) leaf
    by (simp add: rest_order_def scalar_checked_add_def prim_checked_def Let_def auth_insert_def b'_def account_ids_def)
  have lo: "live_orders b' = (live_orders b)(slot \<mapsto> ?n)"
    using i(4) by (simp add: b'_def live_orders_def)
  have fields: "bk_slab b' = sl2" "kept b b'" "side_of s b' = (if s = ?sd then sb else side_of s b)" for s
    by (simp_all add: b'_def kept_def)
  have absent: "omap_get (bk_id_index b) (no_order_id ord) = None"
    using new by (simp add: book_contains_def)
  have idx: "index_ok (live_orders b) (bk_id_index b)"
    using rep by (simp add: book_rep_def)
  have "no_order_id ord \<notin> owned (live_orders b) a" for a
    using index_ok_absent [OF idx, of "no_order_id ord"] absent by (fastforce simp: owned_def)
  then have "accounts_ok (live_orders b') (bk_account_orders b')"
    unfolding lo using accounts_ok_insert [of "live_orders b" "bk_account_orders b" slot ?n] i(3) rep
    by (simp add: b'_def book_rep_def)
  moreover have "node_typed ?n"
    using typed by (simp add: node_typed_def order_typed_def)
  moreover have "side_rep (bk_slab b') s (side_of s b') (?Q s)" for s
    using i(8,9) fields(1,3) by simp
  ultimately have "book_rep sha b' ?Q"
    using absent i(6,7) fields(1,2) uncrossed_append [OF rep uncr]
    by (intro inserted_rep [OF rep i(3) _ lo]) (simp_all add: b'_def)
  then show ?thesis
    using run lo fields i(3,5) by auto
qed

section \<open>Reducing an order\<close>

lemma reduce_order_rep:
  assumes rep: "book_rep sha b Q" and slot: "slot \<in> set (Q sd p)" "slab_get (bk_slab b) slot = Some n"
    and q: "0 < q" "q < nd_remaining n"
  shows "\<exists>b'. apply_fill sha b sd p slot n q = Some b' \<and> book_rep sha b' Q \<and>
    live_orders b' = (live_orders b)(slot \<mapsto> (payload n)\<lparr>nd_remaining := nd_remaining n - q\<rparr>) \<and>
    live (bk_slab b') = live (bk_slab b) \<and> kept b b'"
proof -
  let ?r = "nd_remaining n - q"
  define sl' where "sl' = slab_modify (bk_slab b) slot (\<lambda>m. m\<lparr>nd_remaining := ?r\<rparr>)"
  have live: "live_orders b slot = Some (payload n)"
    using slot(2) by (rule live_orders_get)
  have n: "node_typed n"
    using rep live by (fastforce simp: book_rep_def)
  have sat: "scalar_saturating_sub I64 (nd_remaining n) q = ?r"
    using n q by (auto simp: scalar_saturating_sub_def node_typed_def intro!: prim_saturate_id fits_nonneg_le [of I64 "nd_remaining n"])
  obtain sb where sb: "reduce_level_qty (side_of sd b) p q = Some sb" "side_rep sl' sd sb (Q sd)"
    using reduce_rep [OF book_rep_side [OF rep] slot, of ?r q sl'] q by (auto simp: sl'_def)
  have get: "slab_get sl' = (slab_get (bk_slab b))(slot \<mapsto> n\<lparr>nd_remaining := ?r\<rparr>)"
    using slot(2) by (auto simp: sl'_def sl.get_modify fun_eq_iff)
  have other: "side_rep sl' s (side_of s b) (Q s)" if "s \<noteq> sd" for s
  proof -
    have "x \<noteq> slot" if "x \<in> set (Q s p')" for x p'
      using other_side_slots [OF rep that slot(1)] \<open>s \<noteq> sd\<close> by simp
    then show ?thesis
      using book_rep_side [OF rep] by (rule_tac side_rep_frame [of "bk_slab b"]) (auto simp: get)
  qed
  define b' where "b' = set_side sd sb (b\<lparr>bk_slab := sl',
      bk_order_leaf_xor := (bk_order_leaf_xor b XOR order_leaf sha n) XOR order_leaf sha (n\<lparr>nd_remaining := ?r\<rparr>)\<rparr>)"
  have run: "apply_fill sha b sd p slot n q = Some b'"
    using slot(2) sb(1) q get
    by (simp add: apply_fill_def sat auth_update_remaining_def Let_def auth_remove_def auth_insert_def b'_def
        sl'_def [symmetric])
  let ?n = "(payload n)\<lparr>nd_remaining := ?r\<rparr>"
  have lo: "live_orders b' = (live_orders b)(slot \<mapsto> ?n)"
    by (auto simp: b'_def live_orders_def contents_def get fun_eq_iff)
  have leaf: "order_leaf sha ?n = order_leaf sha (n\<lparr>nd_remaining := ?r\<rparr>)"
    using order_leaf_payload [of sha "n\<lparr>nd_remaining := ?r\<rparr>"] by simp
  have "order_xor (order_leaf sha) (live_orders b') = bk_order_leaf_xor b'"
    unfolding lo using order_xor_update [OF book_rep_finite [OF rep] live, of "order_leaf sha" ?n] rep
    by (simp add: b'_def leaf book_rep_def)
  moreover have "index_ok (live_orders b') (bk_id_index b')" "accounts_ok (live_orders b') (bk_account_orders b')"
    unfolding lo using index_ok_update [of "live_orders b" "bk_id_index b", OF _ live, of ?n]
      accounts_ok_update [of "live_orders b" "bk_account_orders b", OF _ live, of ?n] rep by (simp_all add: b'_def book_rep_def)
  moreover have "side_rep (bk_slab b') s (side_of s b') (Q s)" for s
    using sb(2) other by (simp add: b'_def)
  moreover have "slab_wf sl'" "capacity sl' = capacity (bk_slab b)" "live sl' = live (bk_slab b)"
    using book_rep_wf [OF rep] by (simp_all add: sl'_def sl.wf_modify sl.cap_modify sl.len_modify)
  moreover have "bk_slab b' = sl'" "kept b b'"
    by (simp_all add: b'_def kept_def)
  moreover have "node_typed ?n"
    using n q by (auto simp: node_typed_def intro!: fits_nonneg_le [of I64 "nd_remaining n"])
  moreover have "dom (live_orders b') = queued Q"
    using rep live by (auto simp: lo book_rep_def)
  ultimately have "book_rep sha b' Q"
    using rep by (auto simp: book_rep_def kept_def lo split: if_splits)
  then show ?thesis
    using run lo \<open>kept b b'\<close> \<open>bk_slab b' = sl'\<close> \<open>live sl' = live (bk_slab b)\<close> by auto
qed

lemma consume_order_rep:
  assumes rep: "book_rep sha b Q" and split: "Q sd p = xs @ slot # ys" and n: "slab_get (bk_slab b) slot = Some n"
  shows "\<exists>b'. apply_fill sha b sd p slot n (nd_remaining n) = Some b' \<and>
    book_rep sha b' (Q(sd := (Q sd)(p := xs @ ys))) \<and>
    live_orders b' = (live_orders b)(slot := None) \<and> live (bk_slab b') + 1 = live (bk_slab b) \<and> kept b b'"
  using remove_resting_rep [OF rep split]
  by (simp add: apply_fill_def scalar_saturating_sub_def prim_saturate_id)

end
