(* ===== verification/MatchSpec.thy ===== *)
theory MatchSpec
  imports Book Priority
begin

text \<open>
  The abstract matcher: price-time priority over one list of resting orders, best first. It says
  what \<open>OrderBook::run_match\<close> has to do, without slab, links, levels or indexes; theory \<open>Matching\<close>
  proves that the book does it. The lemmas here are the market rules themselves.
\<close>

section \<open>The abstract matcher\<close>

record match_spec =
  sp_stopped :: bool
  sp_remaining :: quantity
  sp_fills :: "fill list"
  sp_stp :: "stp_cancellation list"
  sp_makers :: "node list"

fun spec_match :: "stp_policy \<Rightarrow> new_order \<Rightarrow> bool \<Rightarrow> quantity \<Rightarrow> node list \<Rightarrow> match_spec" where
  "spec_match stp taker mkt rem [] =
     \<lparr>sp_stopped = False, sp_remaining = rem, sp_fills = [], sp_stp = [], sp_makers = []\<rparr>"
| "spec_match stp taker mkt rem (m # ms) =
     (if rem \<le> 0 \<or> \<not> crosses (no_side taker) mkt (no_price taker) (nd_price m) then
        \<lparr>sp_stopped = False, sp_remaining = rem, sp_fills = [], sp_stp = [], sp_makers = m # ms\<rparr>
      else if nd_account m = no_account taker then
        (case stp of
           CancelMaker \<Rightarrow>
             (let r = spec_match stp taker mkt rem ms in r\<lparr>sp_stp := stp_cancel m # sp_stp r\<rparr>)
         | CancelTaker \<Rightarrow>
             \<lparr>sp_stopped = True, sp_remaining = rem, sp_fills = [], sp_stp = [], sp_makers = m # ms\<rparr>
         | CancelBoth \<Rightarrow>
             \<lparr>sp_stopped = True, sp_remaining = rem, sp_fills = [], sp_stp = [stp_cancel m], sp_makers = ms\<rparr>)
      else if rem < nd_remaining m then
        \<lparr>sp_stopped = False, sp_remaining = 0, sp_fills = [make_fill taker m rem], sp_stp = [],
         sp_makers = m\<lparr>nd_remaining := nd_remaining m - rem\<rparr> # ms\<rparr>
      else
        (let r = spec_match stp taker mkt (rem - nd_remaining m) ms
         in r\<lparr>sp_fills := make_fill taker m (nd_remaining m) # sp_fills r\<rparr>))"

lemma spec_match_done:
  "rem \<le> 0 \<Longrightarrow> spec_match stp taker mkt rem ms =
     \<lparr>sp_stopped = False, sp_remaining = rem, sp_fills = [], sp_stp = [], sp_makers = ms\<rparr>"
  by (cases ms) simp_all

lemma spec_match_no_cross:
  "(ms \<noteq> [] \<Longrightarrow> \<not> crosses (no_side taker) mkt (no_price taker) (nd_price (hd ms))) \<Longrightarrow>
   spec_match stp taker mkt rem ms =
     \<lparr>sp_stopped = False, sp_remaining = rem, sp_fills = [], sp_stp = [], sp_makers = ms\<rparr>"
  by (cases ms) simp_all

text \<open>Where a resting order goes: behind every order at its price or better.\<close>

definition spec_rest :: "node \<Rightarrow> node list \<Rightarrow> node list" where
  "spec_rest n ms =
     (let k = pkey (nd_side n) (nd_price n) in
      filter (\<lambda>m. pkey (nd_side n) (nd_price m) \<le> k) ms @ n #
      filter (\<lambda>m. k < pkey (nd_side n) (nd_price m)) ms)"

section \<open>The market rules\<close>

abbreviation traded :: "fill list \<Rightarrow> quantity" where
  "traded fs \<equiv> sum_list (map fill_quantity fs)"

abbreviation makers_ok :: "node list \<Rightarrow> bool" where
  "makers_ok ms \<equiv> \<forall>m\<in>set ms. 0 < nd_remaining m"

lemma spec_remaining_bounds:
  "0 \<le> rem \<Longrightarrow> makers_ok ms \<Longrightarrow>
   0 \<le> sp_remaining (spec_match stp taker mkt rem ms) \<and> sp_remaining (spec_match stp taker mkt rem ms) \<le> rem"
proof (induction stp taker mkt rem ms rule: spec_match.induct)
  case (2 stp taker mkt rem m ms)
  have "0 < nd_remaining m"
    using 2 by simp
  with 2 show ?case
    by (cases stp) (fastforce simp: Let_def)+
qed simp

text \<open>Every traded unit comes out of the taker's quantity.\<close>

lemma spec_conserves_taker:
  "traded (sp_fills (spec_match stp taker mkt rem ms)) + sp_remaining (spec_match stp taker mkt rem ms) = rem"
  by (induction stp taker mkt rem ms rule: spec_match.induct)
    (auto simp: Let_def make_fill_def split: stp_policy.splits)

text \<open>Every unit that leaves the makers is traded or cancelled.\<close>

lemma spec_conserves_makers:
  "sum_list (map nd_remaining ms) =
     sum_list (map nd_remaining (sp_makers (spec_match stp taker mkt rem ms))) +
     traded (sp_fills (spec_match stp taker mkt rem ms)) +
     sum_list (map sc_remaining (sp_stp (spec_match stp taker mkt rem ms)))"
  by (induction stp taker mkt rem ms rule: spec_match.induct)
    (auto simp: Let_def make_fill_def stp_cancel_def split: stp_policy.splits)

text \<open>No account trades with itself, and every fill is at a price the taker accepts.\<close>

lemma spec_fill_facts:
  assumes "makers_ok ms" and "f \<in> set (sp_fills (spec_match stp taker mkt rem ms))"
  shows "taker_order f = no_order_id taker \<and> taker_account f = no_account taker \<and> taker_side f = no_side taker \<and>
    maker_account f \<noteq> no_account taker \<and> crosses (no_side taker) mkt (no_price taker) (fill_price f) \<and>
    0 < fill_quantity f \<and>
    (\<exists>m\<in>set ms. maker_order f = nd_order_id m \<and> maker_account f = nd_account m \<and>
       fill_price f = nd_price m \<and> fill_quantity f \<le> nd_remaining m)"
  using assms
  by (induction stp taker mkt rem ms rule: spec_match.induct)
    (auto simp: Let_def make_fill_def split: stp_policy.splits if_splits)

lemma spec_makers_from:
  "n \<in> set (sp_makers (spec_match stp taker mkt rem ms)) \<Longrightarrow>
   \<exists>m\<in>set ms. n = m \<or> (\<exists>r>0. n = m\<lparr>nd_remaining := r\<rparr>)"
  by (induction stp taker mkt rem ms rule: spec_match.induct)
    (force simp: Let_def split: stp_policy.splits if_splits)+

text \<open>Price-time priority: the makers consumed are a prefix, taken in order.\<close>

lemma spec_fill_makers_subseq:
  "map maker_order (sp_fills (spec_match stp taker mkt rem ms)) =
     map nd_order_id (filter (\<lambda>m. nd_account m \<noteq> no_account taker)
       (take (length (sp_fills (spec_match stp taker mkt rem ms)) +
              (if stp = CancelMaker then length (sp_stp (spec_match stp taker mkt rem ms)) else 0)) ms))"
proof (induction stp taker mkt rem ms rule: spec_match.induct)
  case (2 stp taker mkt rem m ms)
  then show ?case
    by (cases stp) (auto simp: Let_def make_fill_def split: if_splits)
qed simp

text \<open>A residual that is not stopped finds no crossing maker left.\<close>

lemma spec_no_cross_left:
  assumes "0 < sp_remaining (spec_match stp taker mkt rem ms)" and "\<not> sp_stopped (spec_match stp taker mkt rem ms)"
    and "sp_makers (spec_match stp taker mkt rem ms) \<noteq> []"
  shows "\<not> crosses (no_side taker) mkt (no_price taker) (nd_price (hd (sp_makers (spec_match stp taker mkt rem ms))))"
  using assms
  by (induction stp taker mkt rem ms rule: spec_match.induct)
    (auto simp: Let_def split: stp_policy.splits if_splits)

end
