(* ===== verification/Matching.thy ===== *)
theory Matching
  imports BookRep MatchSpec
begin

text \<open>
  The matching loops refine the abstract matcher. \<open>maker_list b Q sd\<close> is the abstraction: the resting
  orders of one side in matching order. The loops of \<open>run_match\<close> return, keep the book invariant, and
  leave exactly the orders, fills and cancellations of \<open>spec_match\<close>.
\<close>

section \<open>The abstraction\<close>

definition maker_list :: "order_book \<Rightarrow> queues \<Rightarrow> side \<Rightarrow> node list" where
  "maker_list b Q sd = map (\<lambda>x. the (live_orders b x)) (flat sd (Q sd))"

lemma maker_list_side_orders: "maker_list b Q sd = side_orders (bk_slab b) sd (Q sd)"
  by (simp add: maker_list_def side_orders_def slot_order_def live_orders_def)

lemma maker_list_same:
  assumes "Q' sd = Q sd" and "\<And>x p. x \<in> set (Q sd p) \<Longrightarrow> live_orders b' x = live_orders b x"
    and "finite {p. Q sd p \<noteq> []}"
  shows "maker_list b' Q' sd = maker_list b Q sd"
  using assms by (auto simp: maker_list_def set_flat)

lemma book_rep_finite_side: "book_rep sha b Q \<Longrightarrow> finite {p. Q sd p \<noteq> []}"
  using side_rep_finite [OF book_rep_side] .

text \<open>The head of the best level is the head of the maker list.\<close>

lemma maker_list_best:
  assumes rep: "book_rep sha b Q" and level: "Q sd p = slot # ys"
    and best: "\<And>q. Q sd q \<noteq> [] \<Longrightarrow> pkey sd p \<le> pkey sd q"
  obtains rest n where "slab_get (bk_slab b) slot = Some n" and "nd_price n = p" and "0 < nd_remaining n"
    and "live_orders b slot = Some (payload n)" and "maker_list b Q sd = payload n # rest"
    and "\<And>b' Q'. Q' = Q(sd := (Q sd)(p := ys)) \<Longrightarrow> live_orders b' = (live_orders b)(slot := None) \<Longrightarrow>
      maker_list b' Q' sd = rest \<and> maker_list b' Q' (opposite sd) = maker_list b Q (opposite sd)"
    and "\<And>b' m. live_orders b' = (live_orders b)(slot \<mapsto> m) \<Longrightarrow>
      maker_list b' Q sd = m # rest \<and> maker_list b' Q (opposite sd) = maker_list b Q (opposite sd)"
    and "length (flat sd ((Q sd)(p := ys))) + 1 = length (flat sd (Q sd))"
proof -
  obtain R where R: "\<And>zs. flat sd ((Q sd)(p := zs)) = zs @ R" "flat sd (Q sd) = Q sd p @ R"
    using flat_best [OF book_rep_finite_side [OF rep], of sd sd p] best by metis
  obtain n where n: "slab_get (bk_slab b) slot = Some n" "nd_price n = p" "0 < nd_remaining n"
    using side_rep_slot [OF book_rep_side [OF rep], of slot sd p] level by auto
  have live: "live_orders b slot = Some (payload n)"
    using n(1) by (rule live_orders_get)
  have "distinct (flat sd (Q sd))"
    using book_rep_side [OF rep] by (rule flat_distinct_rep)
  then have fresh: "slot \<notin> set (ys @ R)"
    using R(2) level by simp
  have other: "maker_list b' Q' (opposite sd) = maker_list b Q (opposite sd)"
    if "Q' (opposite sd) = Q (opposite sd)" "\<And>x. x \<noteq> slot \<Longrightarrow> live_orders b' x = live_orders b x" for b' Q'
    using that other_side_slots [OF rep, of _ "opposite sd" _ slot sd p] level
    by (intro maker_list_same book_rep_finite_side [OF rep]) auto
  let ?rest = "map (\<lambda>x. the (live_orders b x)) (ys @ R)"
  have rest: "map (\<lambda>x. the (live_orders b' x)) (ys @ R) = ?rest"
    if same: "\<And>x. x \<noteq> slot \<Longrightarrow> live_orders b' x = live_orders b x" for b'
  proof (rule map_cong [OF refl])
    fix x
    assume "x \<in> set (ys @ R)"
    then have "x \<noteq> slot" using fresh by blast
    then show "the (live_orders b' x) = the (live_orders b x)" by (rule arg_cong [where f = the, OF same])
  qed
  show thesis
  proof (rule that [of n ?rest])
    show "maker_list b' Q' sd = ?rest \<and> maker_list b' Q' (opposite sd) = maker_list b Q (opposite sd)"
      if "Q' = Q(sd := (Q sd)(p := ys))" "live_orders b' = (live_orders b)(slot := None)" for b' Q'
    proof -
      have same: "live_orders b' x = live_orders b x" if "x \<noteq> slot" for x
        using that \<open>live_orders b' = (live_orders b)(slot := None)\<close> by simp
      have "maker_list b' Q' sd = map (\<lambda>x. the (live_orders b' x)) (ys @ R)"
        using that(1) R(1) by (simp add: maker_list_def)
      then show ?thesis
        using rest [OF same] other [of Q' b', OF _ same] that(1) by simp
    qed
    show "maker_list b' Q sd = m # ?rest \<and> maker_list b' Q (opposite sd) = maker_list b Q (opposite sd)"
      if "live_orders b' = (live_orders b)(slot \<mapsto> m)" for b' m
    proof -
      have same: "live_orders b' x = live_orders b x" if "x \<noteq> slot" for x
        using that \<open>live_orders b' = (live_orders b)(slot \<mapsto> m)\<close> by simp
      have "maker_list b' Q sd = m # map (\<lambda>x. the (live_orders b' x)) (ys @ R)"
        using that level R(2) by (simp add: maker_list_def)
      then show ?thesis
        using rest [OF same] other [of Q b', OF _ same] by simp
    qed
  qed (use n live R level in \<open>simp_all add: maker_list_def\<close>)
qed

section \<open>One level\<close>

text \<open>The result of the whole match, seen from an intermediate state of the loops.\<close>

definition spec_from :: "stp_policy \<Rightarrow> new_order \<Rightarrow> bool \<Rightarrow> match_state \<Rightarrow> node list \<Rightarrow> match_spec" where
  "spec_from stp taker mkt st ms =
     (let r = spec_match stp taker mkt (m_remaining st) ms
      in r\<lparr>sp_fills := m_fills st @ sp_fills r, sp_stp := m_stp st @ sp_stp r\<rparr>)"

definition spec_of :: "bool \<Rightarrow> match_state \<Rightarrow> node list \<Rightarrow> match_spec" where
  "spec_of stopped st ms =
     \<lparr>sp_stopped = stopped, sp_remaining = m_remaining st, sp_fills = m_fills st, sp_stp = m_stp st,
      sp_makers = ms\<rparr>"

lemma payload_views [simp]: "stp_cancel (payload n) = stp_cancel n" "make_fill t (payload n) q = make_fill t n q"
  by (simp_all add: stp_cancel_def make_fill_def)

lemma spec_from_done: "m_remaining st \<le> 0 \<Longrightarrow> spec_from stp taker mkt st ms = spec_of False st ms"
  by (simp add: spec_from_def spec_of_def spec_match_done)

lemma spec_from_no_cross:
  "(ms \<noteq> [] \<Longrightarrow> \<not> crosses (no_side taker) mkt (no_price taker) (nd_price (hd ms))) \<Longrightarrow>
   spec_from stp taker mkt st ms = spec_of False st ms"
  using spec_match_no_cross [of ms taker mkt stp "m_remaining st"] by (simp add: spec_from_def spec_of_def)

definition level_result ::
  "sha256 \<Rightarrow> new_order \<Rightarrow> bool \<Rightarrow> price \<Rightarrow> match_state \<Rightarrow> queues \<Rightarrow> level_exit \<Rightarrow> match_state \<Rightarrow> queues \<Rightarrow> bool" where
  "level_result sha taker mkt opp st Q ex st' Q' \<longleftrightarrow>
     (let ms = opposite (no_side taker); stp = cfg_stp (bk_config (m_book st));
          from = spec_from stp taker mkt st (maker_list (m_book st) Q ms);
          left = maker_list (m_book st') Q' ms
      in book_rep sha (m_book st') Q' \<and> kept (m_book st) (m_book st') \<and> fits I64 (m_remaining st') \<and>
         maker_list (m_book st') Q' (no_side taker) = maker_list (m_book st) Q (no_side taker) \<and>
         (case ex of
            NextLevel \<Rightarrow> from = spec_from stp taker mkt st' left \<and>
              length (flat ms (Q' ms)) + length (Q ms opp) = length (flat ms (Q ms))
          | Finished \<Rightarrow> from = spec_of False st' left
          | StoppedByStp \<Rightarrow> from = spec_of True st' left))"

lemma level_result_step:
  assumes "level_result sha taker mkt opp st1 Q1 ex st' Q'"
    and "kept (m_book st) (m_book st1)"
    and "maker_list (m_book st1) Q1 (no_side taker) = maker_list (m_book st) Q (no_side taker)"
    and "spec_from (cfg_stp (bk_config (m_book st))) taker mkt st (maker_list (m_book st) Q (opposite (no_side taker))) =
      spec_from (cfg_stp (bk_config (m_book st))) taker mkt st1 (maker_list (m_book st1) Q1 (opposite (no_side taker)))"
    and "length (flat (opposite (no_side taker)) (Q1 (opposite (no_side taker)))) + 1 =
      length (flat (opposite (no_side taker)) (Q (opposite (no_side taker))))"
    and "length (Q1 (opposite (no_side taker)) opp) + 1 = length (Q (opposite (no_side taker)) opp)"
  shows "level_result sha taker mkt opp st Q ex st' Q'"
proof -
  have cfg: "bk_config (m_book st1) = bk_config (m_book st)"
    using assms(2) by (simp add: kept_def)
  have "kept (m_book st) (m_book st')"
    using assms(1,2) kept_trans by (auto simp: level_result_def Let_def)
  then show ?thesis
    using assms(1,3-6) unfolding level_result_def Let_def cfg by (cases ex) auto
qed

text \<open>
  The situation at the head of a non-empty level with quantity left to fill: \<open>n\<close> is the maker in
  \<open>slot\<close>, \<open>ys\<close> the slots behind it, \<open>rest\<close> the makers behind it.
\<close>

definition at_head ::
  "sha256 \<Rightarrow> new_order \<Rightarrow> bool \<Rightarrow> price \<Rightarrow> match_state \<Rightarrow> queues \<Rightarrow> nat \<Rightarrow> nat list \<Rightarrow> node \<Rightarrow> node list \<Rightarrow> bool" where
  "at_head sha taker mkt opp st Q slot ys n rest \<longleftrightarrow>
     (let ms = opposite (no_side taker); b = m_book st in
      book_rep sha b Q \<and> fits I64 (m_remaining st) \<and> 0 < m_remaining st \<and>
      crosses (no_side taker) mkt (no_price taker) opp \<and> Q ms opp = slot # ys \<and>
      (\<forall>q. Q ms q \<noteq> [] \<longrightarrow> pkey ms opp \<le> pkey ms q) \<and>
      head_at (side_of ms b) opp = Some slot \<and> slab_get (bk_slab b) slot = Some n \<and> nd_price n = opp \<and>
      0 < nd_remaining n \<and> maker_list b Q ms = payload n # rest)"

lemma at_headI:
  assumes rep: "book_rep sha (m_book st) Q" and "fits I64 (m_remaining st)" and "0 < m_remaining st"
    and "crosses (no_side taker) mkt (no_price taker) opp" and level: "Q (opposite (no_side taker)) opp = slot # ys"
    and best: "\<And>q. Q (opposite (no_side taker)) q \<noteq> [] \<Longrightarrow>
      pkey (opposite (no_side taker)) opp \<le> pkey (opposite (no_side taker)) q"
  shows "\<exists>n rest. at_head sha taker mkt opp st Q slot ys n rest"
proof -
  obtain rest n where "slab_get (bk_slab (m_book st)) slot = Some n" "nd_price n = opp" "0 < nd_remaining n"
    "maker_list (m_book st) Q (opposite (no_side taker)) = payload n # rest"
    using best by (rule_tac maker_list_best [OF rep level]) auto
  moreover have "head_at (side_of (opposite (no_side taker)) (m_book st)) opp = Some slot"
    using head_at_rep [OF book_rep_side [OF rep] book_rep_wf [OF rep]] level by simp
  ultimately show ?thesis
    using assms by (auto simp: at_head_def Let_def)
qed

text \<open>One iteration that takes the head maker off the book and goes on in \<open>st1\<close>.\<close>

definition consumed ::
  "sha256 \<Rightarrow> new_order \<Rightarrow> bool \<Rightarrow> price \<Rightarrow> match_state \<Rightarrow> queues \<Rightarrow> nat list \<Rightarrow> match_state \<Rightarrow> bool" where
  "consumed sha taker mkt opp st Q ys st1 \<longleftrightarrow>
     (let ms = opposite (no_side taker); Q1 = Q(ms := (Q ms)(opp := ys)) in
      match_level sha taker opp st = match_level sha taker opp st1 \<and>
      book_rep sha (m_book st1) Q1 \<and> fits I64 (m_remaining st1) \<and>
      (\<forall>ex st' Q'. level_result sha taker mkt opp st1 Q1 ex st' Q' \<longrightarrow> level_result sha taker mkt opp st Q ex st' Q'))"

lemma at_head_gone:
  assumes "at_head sha taker mkt opp st Q slot ys n rest"
    and "Q1 = Q(opposite (no_side taker) := (Q (opposite (no_side taker)))(opp := ys))"
    and "live_orders b1 = (live_orders (m_book st))(slot := None)"
  shows "maker_list b1 Q1 (opposite (no_side taker)) = rest"
    and "maker_list b1 Q1 (no_side taker) = maker_list (m_book st) Q (no_side taker)"
    and "length (flat (opposite (no_side taker)) (Q1 (opposite (no_side taker)))) + 1 =
      length (flat (opposite (no_side taker)) (Q (opposite (no_side taker))))"
proof -
  let ?ms = "opposite (no_side taker)"
  have rep: "book_rep sha (m_book st) Q" and level: "Q ?ms opp = slot # ys"
    and best: "\<And>q. Q ?ms q \<noteq> [] \<Longrightarrow> pkey ?ms opp \<le> pkey ?ms q" and ml: "maker_list (m_book st) Q ?ms = payload n # rest"
    using assms(1) by (auto simp: at_head_def Let_def)
  show "maker_list b1 Q1 ?ms = rest" "maker_list b1 Q1 (no_side taker) = maker_list (m_book st) Q (no_side taker)"
    "length (flat ?ms (Q1 ?ms)) + 1 = length (flat ?ms (Q ?ms))"
    by (rule maker_list_best [OF rep level best]; use assms(2,3) ml in simp)+
qed

lemma at_head_reduced:
  assumes "at_head sha taker mkt opp st Q slot ys n rest" and "live_orders b1 = (live_orders (m_book st))(slot \<mapsto> m)"
  shows "maker_list b1 Q (opposite (no_side taker)) = m # rest"
    and "maker_list b1 Q (no_side taker) = maker_list (m_book st) Q (no_side taker)"
proof -
  let ?ms = "opposite (no_side taker)"
  have rep: "book_rep sha (m_book st) Q" and level: "Q ?ms opp = slot # ys"
    and best: "\<And>q. Q ?ms q \<noteq> [] \<Longrightarrow> pkey ?ms opp \<le> pkey ?ms q" and ml: "maker_list (m_book st) Q ?ms = payload n # rest"
    using assms(1) by (auto simp: at_head_def Let_def)
  show "maker_list b1 Q ?ms = m # rest" "maker_list b1 Q (no_side taker) = maker_list (m_book st) Q (no_side taker)"
    by (rule maker_list_best [OF rep level best]; use assms(2) ml in simp)+
qed

lemma consumedI:
  assumes head: "at_head sha taker mkt opp st Q slot ys n rest"
    and run: "match_level sha taker opp st = match_level sha taker opp st1"
    and Q1: "Q1 = Q(opposite (no_side taker) := (Q (opposite (no_side taker)))(opp := ys))"
    and b1: "book_rep sha (m_book st1) Q1" "live_orders (m_book st1) = (live_orders (m_book st))(slot := None)"
      "kept (m_book st) (m_book st1)" and fit: "fits I64 (m_remaining st1)"
    and spec: "spec_from (cfg_stp (bk_config (m_book st))) taker mkt st (payload n # rest) =
      spec_from (cfg_stp (bk_config (m_book st))) taker mkt st1 rest"
  shows "consumed sha taker mkt opp st Q ys st1"
proof -
  have "level_result sha taker mkt opp st Q ex st' Q'" if "level_result sha taker mkt opp st1 Q1 ex st' Q'" for ex st' Q'
    using at_head_gone [OF head Q1 b1(2)] head spec Q1 b1(3)
    by (intro level_result_step [OF that]) (auto simp: at_head_def Let_def)
  then show ?thesis
    using run b1(1) fit Q1 by (auto simp: consumed_def Let_def)
qed

lemma match_level_own:
  assumes head: "at_head sha taker mkt opp st Q slot ys n rest" and own: "nd_account n = no_account taker"
  shows "(\<exists>ex st' Q'. match_level sha taker opp st = Some (ex, st') \<and> level_result sha taker mkt opp st Q ex st' Q') \<or>
    (\<exists>st1. consumed sha taker mkt opp st Q ys st1)"
proof -
  let ?ms = "opposite (no_side taker)" and ?stp = "cfg_stp (bk_config (m_book st))"
  let ?Q = "Q(?ms := (Q ?ms)(opp := ys))"
  note hd = head [unfolded at_head_def Let_def]
  obtain b1 where b1: "remove_resting sha (m_book st) ?ms slot = Some b1" "book_rep sha b1 ?Q"
    "live_orders b1 = (live_orders (m_book st))(slot := None)" "kept (m_book st) b1"
    using remove_resting_rep [of sha "m_book st" Q ?ms opp "[]" slot ys] hd by auto
  let ?st1 = "st\<lparr>m_book := b1, m_stp := m_stp st @ [stp_cancel n]\<rparr>"
  show ?thesis
  proof (cases ?stp)
    case CancelMaker
    have "consumed sha taker mkt opp st Q ys ?st1"
    proof (rule consumedI [OF head _ refl])
      show "match_level sha taker opp st = match_level sha taker opp ?st1"
        using hd own CancelMaker b1(1) by (subst match_level.simps) (simp add: Let_def)
      show "spec_from ?stp taker mkt st (payload n # rest) = spec_from ?stp taker mkt ?st1 rest"
        using hd own CancelMaker by (simp add: spec_from_def Let_def)
    qed (use b1 hd in simp_all)
    then show ?thesis by blast
  next
    case CancelTaker
    have "match_level sha taker opp st = Some (StoppedByStp, st)"
      using hd own CancelTaker by (subst match_level.simps) (simp add: Let_def)
    moreover have "level_result sha taker mkt opp st Q StoppedByStp st Q"
      using hd own CancelTaker by (simp add: level_result_def spec_from_def spec_of_def)
    ultimately show ?thesis by blast
  next
    case CancelBoth
    have "match_level sha taker opp st = Some (StoppedByStp, ?st1)"
      using hd own CancelBoth b1(1) by (subst match_level.simps) (simp add: Let_def)
    moreover have "level_result sha taker mkt opp st Q StoppedByStp ?st1 ?Q"
      using hd own CancelBoth b1 at_head_gone [OF head refl b1(3)]
      by (simp add: level_result_def spec_from_def spec_of_def)
    ultimately show ?thesis by blast
  qed
qed

lemma match_level_fill:
  assumes head: "at_head sha taker mkt opp st Q slot ys n rest" and other: "nd_account n \<noteq> no_account taker"
  shows "(\<exists>ex st' Q'. match_level sha taker opp st = Some (ex, st') \<and> level_result sha taker mkt opp st Q ex st' Q') \<or>
    (\<exists>st1. consumed sha taker mkt opp st Q ys st1)"
proof (cases "m_remaining st < nd_remaining n")
  case True
  let ?ms = "opposite (no_side taker)" and ?n = "(payload n)\<lparr>nd_remaining := nd_remaining n - m_remaining st\<rparr>"
  note hd = head [unfolded at_head_def Let_def]
  obtain b2 where b2: "apply_fill sha (m_book st) ?ms opp slot n (m_remaining st) = Some b2" "book_rep sha b2 Q"
    "live_orders b2 = (live_orders (m_book st))(slot \<mapsto> ?n)" "kept (m_book st) b2"
    using reduce_order_rep [of sha "m_book st" Q slot ?ms opp n "m_remaining st"] hd True by auto
  let ?st1 = "st\<lparr>m_book := b2, m_remaining := 0, m_fills := m_fills st @ [make_fill taker n (m_remaining st)]\<rparr>"
  have "match_level sha taker opp st = match_level sha taker opp ?st1"
    using hd other True b2(1)
    by (subst match_level.simps) (simp add: Let_def scalar_saturating_sub_def prim_saturate_id)
  also have "\<dots> = Some (Finished, ?st1)"
    by (subst match_level.simps) simp
  finally have "match_level sha taker opp st = Some (Finished, ?st1)" .
  moreover have "level_result sha taker mkt opp st Q Finished ?st1 Q"
    using hd other True b2 at_head_reduced [OF head b2(3)]
    by (simp add: level_result_def spec_from_def spec_of_def)
  ultimately show ?thesis by blast
next
  case False
  let ?ms = "opposite (no_side taker)" and ?stp = "cfg_stp (bk_config (m_book st))"
  let ?Q = "Q(?ms := (Q ?ms)(opp := ys))"
  note hd = head [unfolded at_head_def Let_def]
  obtain b2 where b2: "apply_fill sha (m_book st) ?ms opp slot n (nd_remaining n) = Some b2" "book_rep sha b2 ?Q"
    "live_orders b2 = (live_orders (m_book st))(slot := None)" "kept (m_book st) b2"
    using consume_order_rep [of sha "m_book st" Q ?ms opp "[]" slot ys n] hd by auto
  have fit: "fits I64 (m_remaining st - nd_remaining n)"
    by (rule fits_nonneg_le [of I64 "m_remaining st"]) (use False hd in simp_all)
  let ?st1 = "st\<lparr>m_book := b2, m_remaining := m_remaining st - nd_remaining n,
    m_fills := m_fills st @ [make_fill taker n (nd_remaining n)]\<rparr>"
  have "consumed sha taker mkt opp st Q ys ?st1"
  proof (rule consumedI [OF head _ refl])
    have "(if m_remaining st \<le> nd_remaining n then m_remaining st else nd_remaining n) = nd_remaining n"
      using False by simp
    then show "match_level sha taker opp st = match_level sha taker opp ?st1"
      using hd other b2(1) fit
      by (subst match_level.simps) (simp add: Let_def scalar_saturating_sub_def prim_saturate_id)
    show "spec_from ?stp taker mkt st (payload n # rest) = spec_from ?stp taker mkt ?st1 rest"
      using hd other False by (simp add: spec_from_def Let_def)
  qed (use b2 fit in simp_all)
  then show ?thesis by blast
qed

lemma match_level_refines:
  assumes "book_rep sha (m_book st) Q" and "fits I64 (m_remaining st)"
    and "Q (opposite (no_side taker)) opp = xs"
    and "\<And>q. Q (opposite (no_side taker)) q \<noteq> [] \<Longrightarrow>
      pkey (opposite (no_side taker)) opp \<le> pkey (opposite (no_side taker)) q"
    and cross: "crosses (no_side taker) mkt (no_price taker) opp"
  shows "\<exists>ex st' Q'. match_level sha taker opp st = Some (ex, st') \<and> level_result sha taker mkt opp st Q ex st' Q'"
  using assms(1-4)
proof (induction xs arbitrary: st Q)
  case Nil
  have "head_at (side_of (opposite (no_side taker)) (m_book st)) opp = None"
    using head_at_rep [OF book_rep_side [OF Nil.prems(1)] book_rep_wf [OF Nil.prems(1)]] Nil.prems(3) by simp
  then have "match_level sha taker opp st = Some (if m_remaining st \<le> 0 then Finished else NextLevel, st)"
    by (subst match_level.simps) simp
  then show ?case
    using Nil.prems by (intro exI [of _ Q] exI conjI) (auto simp: level_result_def spec_from_done)
next
  case (Cons slot ys)
  show ?case
  proof (cases "m_remaining st \<le> 0")
    case True
    then have "match_level sha taker opp st = Some (Finished, st)"
      by (subst match_level.simps) simp
    moreover have "level_result sha taker mkt opp st Q Finished st Q"
      using Cons.prems True by (simp add: level_result_def spec_from_done)
    ultimately show ?thesis by blast
  next
    case False
    let ?ms = "opposite (no_side taker)" and ?Q = "Q(opposite (no_side taker) := (Q (opposite (no_side taker)))(opp := ys))"
    obtain n rest where head: "at_head sha taker mkt opp st Q slot ys n rest"
      using at_headI [OF Cons.prems(1,2) _ cross Cons.prems(3,4)] False by auto
    consider ex st' Q' where "match_level sha taker opp st = Some (ex, st')" "level_result sha taker mkt opp st Q ex st' Q'"
      | st1 where "consumed sha taker mkt opp st Q ys st1"
      using match_level_own [OF head] match_level_fill [OF head] by blast
    then show ?thesis
    proof cases
      case 2
      have best: "pkey ?ms opp \<le> pkey ?ms q" if "?Q ?ms q \<noteq> []" for q
        using that Cons.prems(3) Cons.prems(4) [of q] by (auto split: if_splits)
      have next_ok: "book_rep sha (m_book st1) ?Q" "fits I64 (m_remaining st1)"
        using 2 by (simp_all add: consumed_def Let_def)
      have "\<exists>ex st' Q'. match_level sha taker opp st1 = Some (ex, st') \<and> level_result sha taker mkt opp st1 ?Q ex st' Q'"
        by (rule Cons.IH [OF next_ok _ best]) simp_all
      then obtain ex st' Q' where r: "match_level sha taker opp st1 = Some (ex, st')"
        "level_result sha taker mkt opp st1 ?Q ex st' Q'" by blast
      then have "match_level sha taker opp st = Some (ex, st')" "level_result sha taker mkt opp st Q ex st' Q'"
        using 2 by (simp_all add: consumed_def Let_def)
      then show ?thesis by blast
    qed blast
  qed
qed

section \<open>The whole match\<close>

definition match_result_ok ::
  "sha256 \<Rightarrow> new_order \<Rightarrow> bool \<Rightarrow> match_state \<Rightarrow> queues \<Rightarrow> bool \<Rightarrow> match_state \<Rightarrow> queues \<Rightarrow> bool" where
  "match_result_ok sha taker mkt st Q stopped st' Q' \<longleftrightarrow>
     book_rep sha (m_book st') Q' \<and> kept (m_book st) (m_book st') \<and>
     maker_list (m_book st') Q' (no_side taker) = maker_list (m_book st) Q (no_side taker) \<and>
     spec_from (cfg_stp (bk_config (m_book st))) taker mkt st (maker_list (m_book st) Q (opposite (no_side taker))) =
       spec_of stopped st' (maker_list (m_book st') Q' (opposite (no_side taker)))"

lemma maker_list_empty:
  assumes "book_rep sha b Q" and "best_price (side_of sd b) = None"
  shows "maker_list b Q sd = []"
  using best_price_orders [OF book_rep_side [OF assms(1)], of sd] assms(2)
  by (cases "maker_list b Q sd") (simp_all add: maker_list_side_orders)

lemma maker_list_head:
  assumes "book_rep sha b Q" and "best_price (side_of sd b) = Some p"
  obtains m rest where "maker_list b Q sd = m # rest" and "nd_price m = p"
  using best_price_orders [OF book_rep_side [OF assms(1)], of sd] assms(2) that
  by (cases "maker_list b Q sd") (simp_all add: maker_list_side_orders)

lemma match_result_next:
  assumes "level_result sha taker mkt opp st Q NextLevel st1 Q1" and "match_result_ok sha taker mkt st1 Q1 stopped st' Q'"
  shows "match_result_ok sha taker mkt st Q stopped st' Q'"
proof -
  have "bk_config (m_book st1) = bk_config (m_book st)" "kept (m_book st) (m_book st1)"
    using assms(1) by (auto simp: level_result_def kept_def Let_def)
  with assms show ?thesis
    using kept_trans by (auto simp: level_result_def match_result_ok_def Let_def)
qed

lemma match_loop_refines:
  assumes "book_rep sha (m_book st) Q" and "fits I64 (m_remaining st)"
  shows "\<exists>stopped st' Q'. match_loop sha taker mkt st = Some (stopped, st') \<and>
    match_result_ok sha taker mkt st Q stopped st' Q'"
  using assms
proof (induction "length (flat (opposite (no_side taker)) (Q (opposite (no_side taker))))"
    arbitrary: st Q rule: less_induct)
  case less
  let ?ms = "opposite (no_side taker)" and ?b = "m_book st"
  have side: "side_rep (bk_slab ?b) ?ms (side_of ?ms ?b) (Q ?ms)"
    using less.prems(1) by (rule book_rep_side)
  have stop: ?case if "match_loop sha taker mkt st = Some (False, st)"
    and "spec_from (cfg_stp (bk_config ?b)) taker mkt st (maker_list ?b Q ?ms) = spec_of False st (maker_list ?b Q ?ms)"
    using that less.prems by (intro exI [of _ Q] exI conjI) (auto simp: match_result_ok_def)
  consider (zero) "m_remaining st \<le> 0" | (empty) "0 < m_remaining st" "best_price (side_of ?ms ?b) = None"
    | (far) p where "0 < m_remaining st" "best_price (side_of ?ms ?b) = Some p" "\<not> crosses (no_side taker) mkt (no_price taker) p"
    | (level) p where "0 < m_remaining st" "best_price (side_of ?ms ?b) = Some p" "crosses (no_side taker) mkt (no_price taker) p"
    by (cases "m_remaining st \<le> 0"; cases "best_price (side_of ?ms ?b)") auto
  then show ?case
  proof cases
    case zero
    then show ?thesis
      by (intro stop) (subst match_loop.simps, simp_all add: spec_from_done)
  next
    case empty
    then show ?thesis
      using maker_list_empty [OF less.prems(1)]
      by (intro stop) (subst match_loop.simps, simp_all add: spec_from_def spec_of_def)
  next
    case far
    then obtain m rest where "maker_list ?b Q ?ms = m # rest" "nd_price m = p"
      using maker_list_head [OF less.prems(1)] by metis
    with far show ?thesis
      by (intro stop) (subst match_loop.simps, simp_all add: spec_from_no_cross)
  next
    case level
    obtain ex st1 Q1 where one: "match_level sha taker p st = Some (ex, st1)" "level_result sha taker mkt p st Q ex st1 Q1"
      using match_level_refines [OF less.prems refl best_price_Some(2) [OF side level(2)] level(3)] by blast
    have run: "match_loop sha taker mkt st = (case ex of NextLevel \<Rightarrow> match_loop sha taker mkt st1
        | Finished \<Rightarrow> Some (False, st1) | StoppedByStp \<Rightarrow> Some (True, st1))"
      using level one(1) by (subst match_loop.simps) simp
    show ?thesis
    proof (cases ex)
      case NextLevel
      have "length (flat ?ms (Q1 ?ms)) < length (flat ?ms (Q ?ms))"
        using one(2) NextLevel best_price_Some(1) [OF side level(2)]
        by (auto simp: level_result_def Let_def simp flip: length_greater_0_conv)
      moreover have "book_rep sha (m_book st1) Q1" "fits I64 (m_remaining st1)"
        using one(2) by (simp_all add: level_result_def Let_def)
      ultimately obtain stopped st' Q' where "match_loop sha taker mkt st1 = Some (stopped, st')"
        "match_result_ok sha taker mkt st1 Q1 stopped st' Q'"
        using less.hyps [of Q1 st1] by auto
      moreover from this have "match_result_ok sha taker mkt st Q stopped st' Q'"
        using match_result_next one(2) NextLevel by blast
      ultimately show ?thesis
        using run NextLevel by auto
    next
      case Finished
      then show ?thesis
        using run one(2) by (auto simp: level_result_def match_result_ok_def Let_def)
    next
      case StoppedByStp
      then show ?thesis
        using run one(2) by (auto simp: level_result_def match_result_ok_def Let_def)
    qed
  qed
qed

lemma run_match_refines:
  assumes "book_rep sha b Q" and "fits I64 q"
  shows "\<exists>stopped st Q'. run_match sha b taker mkt q = Some (stopped, st) \<and> book_rep sha (m_book st) Q' \<and>
    kept b (m_book st) \<and> maker_list (m_book st) Q' (no_side taker) = maker_list b Q (no_side taker) \<and>
    spec_match (cfg_stp (bk_config b)) taker mkt q (maker_list b Q (opposite (no_side taker))) =
      spec_of stopped st (maker_list (m_book st) Q' (opposite (no_side taker)))"
proof -
  let ?st = "\<lparr>m_book = b, m_remaining = q, m_fills = [], m_stp = []\<rparr>"
  obtain stopped st Q' where r: "match_loop sha taker mkt ?st = Some (stopped, st)"
    "match_result_ok sha taker mkt ?st Q stopped st Q'"
    using match_loop_refines [of sha ?st Q taker mkt] assms by auto
  moreover have "spec_from stp taker mkt ?st ms = spec_match stp taker mkt q ms" for stp ms
    by (simp add: spec_from_def)
  ultimately show ?thesis
    by (auto simp: run_match_def match_result_ok_def)
qed

end
