(* ===== verification/Clob.thy ===== *)
theory Clob
  imports MatchSpec LevelScan
begin

text \<open>
  The abstract order book: two lists of resting orders in matching order, the configuration and the
  positions. Each command is a function on it. It has no slab, no links, no levels and no indexes,
  and a fill-or-kill order is accepted exactly when matching would fill it. Theory \<open>BookRefine\<close> proves
  that the book implements it.
\<close>

record clob =
  cl_config :: book_config
  cl_orders :: "side \<Rightarrow> node list"
  cl_position :: "account_id \<Rightarrow> quantity"

definition clob_has :: "clob \<Rightarrow> order_id \<Rightarrow> bool" where
  "clob_has c i \<longleftrightarrow> (\<exists>n\<in>set (cl_orders c Bid @ cl_orders c Ask). nd_order_id n = i)"

definition clob_count :: "clob \<Rightarrow> nat" where
  "clob_count c = length (cl_orders c Bid) + length (cl_orders c Ask)"

definition clob_level :: "clob \<Rightarrow> side \<Rightarrow> price \<Rightarrow> quantity" where
  "clob_level c sd p = sum_list (map nd_remaining (filter (\<lambda>n. nd_price n = p) (cl_orders c sd)))"

definition clob_crosses :: "clob \<Rightarrow> side \<Rightarrow> price \<Rightarrow> bool" where
  "clob_crosses c sd p \<longleftrightarrow> (\<exists>n\<in>set (cl_orders c (opposite sd)). crosses sd False p (nd_price n))"

definition clob_clamp :: "clob \<Rightarrow> new_order \<Rightarrow> quantity option" where
  "clob_clamp c ord =
     (if no_reduce_only ord \<or> no_order_type ord = ReduceOnly then
        (let pos = cl_position c (no_account ord);
             open_qty = (case no_side ord of Ask \<Rightarrow> pos | Bid \<Rightarrow> prim_saturate I64 (- pos))
         in if open_qty \<le> 0 then None else Some (min (no_quantity ord) open_qty))
      else Some (no_quantity ord))"

definition clob_rest :: "clob \<Rightarrow> new_order \<Rightarrow> quantity \<Rightarrow> (unit, order_error) result \<times> clob" where
  "clob_rest c ord q =
     (let sd = no_side ord in
      if \<not> fits I64 (clob_level c sd (no_price ord) + q) then (Err OrderOverflow, c)
      else if clob_count c \<ge> cfg_capacity (cl_config c) then (Err CapacityExhausted, c)
      else (Ok (), c\<lparr>cl_orders := (cl_orders c)(sd := spec_rest (node_new ord q) (cl_orders c sd))\<rparr>))"

definition clob_settle ::
  "clob \<Rightarrow> new_order \<Rightarrow> quantity \<Rightarrow> match_spec \<Rightarrow> (match_report, order_error) result \<times> clob" where
  "clob_settle c ord qty r =
     (let c1 = c\<lparr>cl_orders := (cl_orders c)(opposite (no_side ord) := sp_makers r)\<rparr>;
          rem = sp_remaining r;
          cancelled = (Ok (report (sp_fills r) (if rem < qty then PartiallyFilledCancelled (qty - rem) else Rejected)
                             (sp_stp r)), c1)
      in if rem = 0 then (Ok (report (sp_fills r) FullyFilled (sp_stp r)), c1)
         else if no_order_type ord = Market \<or> sp_stopped r \<or> no_tif ord \<noteq> Gtc then cancelled
         else (case clob_rest c1 ord rem of
                 (Inr _, c2) \<Rightarrow>
                   (Ok (report (sp_fills r) (if rem < qty then PartiallyFilledResting rem else Resting rem) (sp_stp r)), c2)
               | (Inl e, c2) \<Rightarrow>
                   if rem < qty \<or> sp_stp r \<noteq> [] then cancelled else (Err e, c2)))"

definition clob_rejected :: "(match_report, order_error) result" where
  "clob_rejected = Ok (report [] Rejected [])"

definition clob_execute :: "clob \<Rightarrow> new_order \<Rightarrow> (match_report, order_error) result \<times> clob" where
  "clob_execute c ord =
     (if no_quantity ord \<le> 0 then (Err NonPositiveQuantity, c)
      else if no_order_type ord \<noteq> Market \<and> no_price ord \<le> 0 then (Err NonPositivePrice, c)
      else if clob_has c (no_order_id ord) then (Err DuplicateOrderId, c)
      else case clob_clamp c ord of
        None \<Rightarrow> (clob_rejected, c)
      | Some qty \<Rightarrow>
          if no_order_type ord = PostOnly then
            (if clob_crosses c (no_side ord) (no_price ord) then (clob_rejected, c)
             else (case clob_rest c ord qty of
                     (Inr _, c1) \<Rightarrow> (Ok (report [] (Resting qty) []), c1)
                   | (Inl e, c1) \<Rightarrow> (Err e, c1)))
          else
            (let r = spec_match (cfg_stp (cl_config c)) ord (no_order_type ord = Market) qty
                       (cl_orders c (opposite (no_side ord)))
             in if no_tif ord = Fok \<and> sp_remaining r \<noteq> 0 then (clob_rejected, c)
                else clob_settle c ord qty r))"

definition clob_drop :: "(node \<Rightarrow> bool) \<Rightarrow> clob \<Rightarrow> clob" where
  "clob_drop P c = c\<lparr>cl_orders := \<lambda>sd. filter (\<lambda>n. \<not> P n) (cl_orders c sd)\<rparr>"

definition clob_cancel :: "clob \<Rightarrow> order_id \<Rightarrow> (unit, order_error) result \<times> clob" where
  "clob_cancel c i =
     (if clob_has c i then (Ok (), clob_drop (\<lambda>n. nd_order_id n = i) c) else (Err UnknownOrder, c))"

definition clob_cancel_all :: "clob \<Rightarrow> account_id \<Rightarrow> nat \<times> clob" where
  "clob_cancel_all c a =
     (length (filter (\<lambda>n. nd_account n = a) (cl_orders c Bid @ cl_orders c Ask)),
      clob_drop (\<lambda>n. nd_account n = a) c)"

definition clob_find :: "clob \<Rightarrow> order_id \<Rightarrow> node option" where
  "clob_find c i = List.find (\<lambda>n. nd_order_id n = i) (cl_orders c Bid @ cl_orders c Ask)"

text \<open>Replace is a cancel and a fresh limit order, or nothing at all.\<close>

definition clob_replace ::
  "clob \<Rightarrow> order_id \<Rightarrow> price \<Rightarrow> quantity \<Rightarrow> (match_report, order_error) result \<times> clob" where
  "clob_replace c i p q =
     (if q \<le> 0 then (Err NonPositiveQuantity, c)
      else if p \<le> 0 then (Err NonPositivePrice, c)
      else case clob_find c i of
        None \<Rightarrow> (Err UnknownOrder, c)
      | Some n \<Rightarrow>
          (case clob_execute (clob_drop (\<lambda>m. nd_order_id m = i) c) (replacement i n p q) of
             (Inl e, c') \<Rightarrow> (Err e, c)
           | (Inr r, c') \<Rightarrow> (Ok r, c')))"

section \<open>The fill-or-kill check\<close>

text \<open>The liquidity scan agrees with matching: enough is counted exactly when nothing would be left.\<close>

lemma count_orders_ge:
  "need \<le> acc \<Longrightarrow> fits I64 acc \<Longrightarrow> \<forall>m\<in>set ms. 0 < nd_remaining m \<Longrightarrow>
   need \<le> count_orders ts a p mkt stp need acc ms"
proof (induction ms arbitrary: acc)
  case (Cons m ms)
  have "acc \<le> prim_saturate I64 (acc + nd_remaining m)"
    using Cons.prems by (auto simp: prim_saturate_def fits_def)
  with Cons show ?case
    by (auto simp: Let_def)
qed simp

lemma count_orders_matches:
  assumes "0 \<le> acc" and "acc < need" and "fits I64 need" and "\<forall>m\<in>set ms. 0 < nd_remaining m"
  shows "need \<le> count_orders (no_side t) (no_account t) (no_price t) mkt stp need acc ms \<longleftrightarrow>
    sp_remaining (spec_match stp t mkt (need - acc) ms) = 0"
  using assms
proof (induction ms arbitrary: acc)
  case Nil
  then show ?case by simp
next
  case (Cons m ms)
  let ?acc = "prim_saturate I64 (acc + nd_remaining m)"
  have m: "0 < nd_remaining m" using Cons.prems by simp
  show ?case
  proof (cases "acc + nd_remaining m < need")
    case True
    then have "fits I64 (acc + nd_remaining m)"
      using Cons.prems m by (intro fits_nonneg_le [OF Cons.prems(3)]) simp_all
    then have "?acc = acc + nd_remaining m"
      by (rule prim_saturate_id)
    then show ?thesis
      using True m Cons.prems Cons.IH [of "acc + nd_remaining m"] Cons.IH [of acc]
      by (cases stp) (auto simp: Let_def algebra_simps)
  next
    case False
    then have "need \<le> ?acc"
      using Cons.prems(3) by (auto simp: prim_saturate_def fits_def)
    moreover have "sp_remaining (spec_match stp t mkt 0 ms) = 0"
      by (simp add: spec_match_done)
    moreover have "need - acc - nd_remaining m = 0" if "\<not> need - acc < nd_remaining m"
      using that False by simp
    ultimately show ?thesis
      using Cons.prems Cons.IH [of acc]
      by (cases stp; cases "need - acc < nd_remaining m") (auto simp: Let_def)
  qed
qed

section \<open>Facts about the abstract commands\<close>

lemma ex_side: "(\<exists>sd. P sd) \<longleftrightarrow> P Bid \<or> P Ask"
  by (metis side.exhaust)

lemma clob_has_iff: "clob_has c i \<longleftrightarrow> (\<exists>sd. \<exists>n\<in>set (cl_orders c sd). nd_order_id n = i)"
  by (auto simp: clob_has_def ex_side)

lemma clob_drop_orders [simp]: "cl_orders (clob_drop P c) sd = filter (\<lambda>n. \<not> P n) (cl_orders c sd)"
  by (simp add: clob_drop_def)

lemma clob_drop_fields [simp]: "cl_config (clob_drop P c) = cl_config c" "cl_position (clob_drop P c) = cl_position c"
  by (simp_all add: clob_drop_def)

end
