(* ===== verification/BookRefine.thy ===== *)
theory BookRefine
  imports Matching Clob
begin

text \<open>
  The order book refines the abstract book. \<open>clob_of\<close> reads the resting orders of a book off its
  levels; \<open>book_inv\<close> is the book invariant. Every command of the book returns, keeps the invariant,
  and computes the result and the state of the abstract command.
\<close>

section \<open>The abstraction\<close>

definition book_inv :: "sha256 \<Rightarrow> order_book \<Rightarrow> bool" where
  "book_inv sha b \<longleftrightarrow> (\<exists>Q. book_rep sha b Q)"

definition book_orders :: "order_book \<Rightarrow> side \<Rightarrow> node list" where
  "book_orders b sd =
     concat (map (\<lambda>(p, lv). case chain_nodes (bk_slab b) (lv_head lv) of None \<Rightarrow> [] | Some ns \<Rightarrow> map payload ns)
       (levels_best_first (side_of sd b)))"

definition clob_of :: "order_book \<Rightarrow> clob" where
  "clob_of b = \<lparr>cl_config = bk_config b, cl_orders = book_orders b, cl_position = position b\<rparr>"

lemma clob_of_fields [simp]:
  "cl_config (clob_of b) = bk_config b" "cl_orders (clob_of b) = book_orders b" "cl_position (clob_of b) = position b"
  by (simp_all add: clob_of_def)

lemma book_orders_rep:
  assumes "book_rep sha b Q"
  shows "book_orders b sd = maker_list b Q sd"
proof -
  let ?sl = "bk_slab b" and ?ls = "levels_best_first (side_of sd b)"
  have side: "side_rep ?sl sd (side_of sd b) (Q sd)"
    using assms by (rule book_rep_side)
  have walk: "(case l of (p, lv) \<Rightarrow> case chain_nodes ?sl (lv_head lv) of None \<Rightarrow> [] | Some ns \<Rightarrow> map payload ns) =
      map (\<lambda>x. the (live_orders b x)) (Q sd (fst l))" if l_in: "l \<in> set ?ls" for l
  proof -
    obtain p lv where l: "l = (p, lv)" by fastforce
    have q: "queue_ok ?sl sd p (Q sd p)"
      using side by (rule side_rep_queue)
    have "chain_nodes ?sl (lv_head lv) = Some (map (\<lambda>x. the (slab_get ?sl x)) (Q sd p))"
      using levels_best_first_head(2) [OF side, of p lv] l_in l q chain_nodes_linked [of ?sl NIL "Q sd p"]
        queue_no_NIL [OF book_rep_wf [OF assms] q] by (simp add: queue_ok_def)
    moreover have "payload (the (slab_get ?sl x)) = the (live_orders b x)" if "x \<in> set (Q sd p)" for x
      using queue_slot [OF q that] by (auto simp: live_orders_def)
    ultimately show ?thesis
      using l by simp
  qed
  have "book_orders b sd = concat (map (\<lambda>l. map (\<lambda>x. the (live_orders b x)) (Q sd (fst l))) ?ls)"
    unfolding book_orders_def using walk by (intro arg_cong [where f = concat] map_cong refl)
  also have "\<dots> = concat (map (\<lambda>p. map (\<lambda>x. the (live_orders b x)) (Q sd p)) (map fst ?ls))"
    by (simp add: comp_def)
  also have "\<dots> = maker_list b Q sd"
    by (simp add: levels_best_first_keys [OF side] maker_list_def flat_def map_concat comp_def)
  finally show ?thesis .
qed

lemma in_maker_list:
  assumes "book_rep sha b Q"
  shows "n \<in> set (maker_list b Q sd) \<longleftrightarrow> (\<exists>x. live_orders b x = Some n \<and> nd_side n = sd)"
proof
  assume "n \<in> set (maker_list b Q sd)"
  then obtain x p where x: "x \<in> set (Q sd p)" "n = the (live_orders b x)"
    using set_flat [OF book_rep_finite_side [OF assms]] by (auto simp: maker_list_def)
  then show "\<exists>x. live_orders b x = Some n \<and> nd_side n = sd"
    using side_rep_slot [OF book_rep_side [OF assms] x(1)] live_orders_get by fastforce
next
  assume "\<exists>x. live_orders b x = Some n \<and> nd_side n = sd"
  then obtain x where x: "live_orders b x = Some n" "nd_side n = sd" by blast
  then have "x \<in> set (Q sd (nd_price n))"
    using queued_slot [OF assms x(1)] by auto
  then have "x \<in> set (flat sd (Q sd))"
    using set_flat [OF book_rep_finite_side [OF assms]] by blast
  then show "n \<in> set (maker_list b Q sd)"
    using x by (force simp: maker_list_def)
qed

lemma clob_count_rep:
  assumes rep: "book_rep sha b Q"
  shows "clob_count (clob_of b) = live (bk_slab b)"
proof -
  have mem: "x \<in> set (flat sd (Q sd)) \<longleftrightarrow> (\<exists>p. x \<in> set (Q sd p))" for x sd
    using set_flat [OF book_rep_finite_side [OF rep]] .
  have "queued Q = set (flat Bid (Q Bid)) \<union> set (flat Ask (Q Ask))"
    by (auto simp: queued_def mem ex_side)
  moreover have "set (flat Bid (Q Bid)) \<inter> set (flat Ask (Q Ask)) = {}"
    unfolding disjoint_iff mem using other_side_slots [OF rep, of _ Bid _ _ Ask] by blast
  moreover have "distinct (flat sd (Q sd))" for sd
    using book_rep_side [OF rep] by (rule flat_distinct_rep)
  ultimately have "card (queued Q) = length (flat Bid (Q Bid)) + length (flat Ask (Q Ask))"
    by (simp add: card_Un_disjoint distinct_card)
  moreover have "dom (slab_get (bk_slab b)) = queued Q"
    using rep by (auto simp: book_rep_def live_orders_def contents_def dom_def)
  ultimately show ?thesis
    using sl.len_card [OF book_rep_wf [OF rep]]
    by (simp add: clob_count_def book_orders_rep [OF rep] maker_list_def)
qed

lemma clob_level_rep:
  assumes rep: "book_rep sha b Q"
  shows "clob_level (clob_of b) sd p = level_total (side_of sd b) p"
proof -
  have side: "side_rep (bk_slab b) sd (side_of sd b) (Q sd)"
    using rep by (rule book_rep_side)
  obtain L R where LR: "flat sd (Q sd) = L @ Q sd p @ R"
    "\<And>x. x \<in> set L \<Longrightarrow> \<exists>q. x \<in> set (Q sd q) \<and> pkey sd q < pkey sd p"
    "\<And>x. x \<in> set R \<Longrightarrow> \<exists>q. x \<in> set (Q sd q) \<and> pkey sd p < pkey sd q"
    using flat_split [OF book_rep_finite_side [OF rep], of sd sd p] by metis
  let ?f = "slot_order (bk_slab b)"
  have "filter (\<lambda>x. nd_price (?f x) = p) L = []" "filter (\<lambda>x. nd_price (?f x) = p) R = []"
    using LR(2,3) slot_order_props(1) [OF side] by (fastforce simp: filter_empty_conv)+
  moreover have "filter (\<lambda>x. nd_price (?f x) = p) (Q sd p) = Q sd p"
    using slot_order_props(1) [OF side] by (simp add: filter_id_conv)
  ultimately have "filter (\<lambda>x. nd_price (?f x) = p) (flat sd (Q sd)) = Q sd p"
    using LR(1) by simp
  then show ?thesis
    using level_total_rep [OF side, of p] book_orders_rep [OF rep]
    by (simp add: clob_level_def maker_list_side_orders side_orders_def filter_map comp_def
        qty_at_slot_order cong: map_cong)
qed

lemma clob_has_rep:
  assumes "book_rep sha b Q"
  shows "clob_has (clob_of b) i \<longleftrightarrow> book_contains b i"
  unfolding clob_has_iff book_contains_iff [OF assms] clob_of_fields book_orders_rep [OF assms]
  using in_maker_list [OF assms] by blast

lemma contains_iff_list:
  assumes "book_rep sha b Q"
  shows "book_contains b i \<longleftrightarrow> (\<exists>sd. \<exists>n\<in>set (maker_list b Q sd). nd_order_id n = i)"
  using clob_has_rep [OF assms, of i] unfolding clob_has_iff clob_of_fields book_orders_rep [OF assms] by simp

lemma clob_crosses_rep:
  assumes rep: "book_rep sha b Q"
  shows "clob_crosses (clob_of b) sd p \<longleftrightarrow> would_cross b sd p"
proof -
  have price: "(\<exists>n\<in>set (maker_list b Q s). P (nd_price n)) \<longleftrightarrow> (\<exists>q. Q s q \<noteq> [] \<and> P q)" for s P
  proof
    assume "\<exists>n\<in>set (maker_list b Q s). P (nd_price n)"
    then obtain n x where "live_orders b x = Some n" "nd_side n = s" "P (nd_price n)"
      using in_maker_list [OF rep] by auto
    then show "\<exists>q. Q s q \<noteq> [] \<and> P q"
      using queued_slot [OF rep] by (metis append_is_Nil_conv list.distinct(1))
  next
    assume "\<exists>q. Q s q \<noteq> [] \<and> P q"
    then obtain q x where q: "P q" "x \<in> set (Q s q)"
      by (metis hd_in_set)
    obtain n where "slab_get (bk_slab b) x = Some n" "nd_side n = s" "nd_price n = q"
      using side_rep_slot [OF book_rep_side [OF rep] q(2)] by auto
    then have "payload n \<in> set (maker_list b Q s)" "P (nd_price (payload n))"
      using q(1) in_maker_list [OF rep] live_orders_get [of b x n] by auto
    then show "\<exists>n\<in>set (maker_list b Q s). P (nd_price n)" by blast
  qed
  show ?thesis
    unfolding clob_crosses_def would_cross_iff [OF rep] clob_of_fields book_orders_rep [OF rep]
    using price [of "opposite sd" "crosses sd False p"] by (cases sd) (simp_all add: crosses_def)
qed

lemma clob_clamp_rep:
  assumes "book_rep sha b Q" and "0 < no_quantity ord"
  shows "reduce_clamp b ord = clob_clamp (clob_of b) ord"
proof -
  have "fits I64 (position b a)" for a
    using assms(1) by (auto simp: book_rep_def position_def split: option.splits)
  then show ?thesis
    using assms(2) by (cases "no_side ord")
      (auto simp: reduce_clamp_def clob_clamp_def Let_def min_def prim_saturate_def fits_def)
qed

lemma clamp_positive:
  "clob_clamp c ord = Some q \<Longrightarrow> 0 < no_quantity ord \<Longrightarrow> 0 < q \<and> q \<le> no_quantity ord"
  by (auto simp: clob_clamp_def Let_def split: if_splits)

section \<open>Resting\<close>

lemma clob_eqI:
  assumes "kept b b'" and "\<And>sd. book_orders b' sd = f sd"
  shows "clob_of b' = (clob_of b)\<lparr>cl_orders := f\<rparr>"
  using assms by (simp add: clob_of_def kept_def position_def fun_eq_iff)

lemma clob_of_same: "kept b b' \<Longrightarrow> (\<And>sd. book_orders b' sd = book_orders b sd) \<Longrightarrow> clob_of b' = clob_of b"
  by (simp add: clob_of_def kept_def position_def fun_eq_iff)

lemma maker_list_insert:
  assumes rep: "book_rep sha b Q" and fresh: "live_orders b slot = None"
    and lo: "live_orders b' = (live_orders b)(slot \<mapsto> n)"
    and Q': "Q' = Q(nd_side n := (Q (nd_side n))(nd_price n := Q (nd_side n) (nd_price n) @ [slot]))"
  shows "maker_list b' Q' sd = (if sd = nd_side n then spec_rest n (maker_list b Q sd) else maker_list b Q sd)"
proof -
  have new: "x \<noteq> slot" if "x \<in> set (Q s p)" for x s p
    using side_rep_slot [OF book_rep_side [OF rep] that] fresh by (auto simp: live_orders_def)
  show ?thesis
  proof (cases "sd = nd_side n")
    case False
    then have "maker_list b' Q' sd = maker_list b Q sd"
      by (intro maker_list_same book_rep_finite_side [OF rep]) (auto simp: Q' lo dest: new)
    with False show ?thesis by simp
  next
    case True
    let ?p = "nd_price n" and ?Q = "Q sd" and ?f = "\<lambda>x. nd_price (the (live_orders b x))"
    have "?f x = q" if "x \<in> set (?Q q)" for q x
      using slot_order_props(1) [OF book_rep_side [OF rep] that] by (simp add: slot_order_def live_orders_def)
    then have "flat sd (?Q(?p := ?Q ?p @ [slot])) =
        filter (\<lambda>x. pkey sd (?f x) \<le> pkey sd ?p) (flat sd ?Q) @ slot #
        filter (\<lambda>x. pkey sd ?p < pkey sd (?f x)) (flat sd ?Q)"
      by (rule flat_append_slot [OF book_rep_finite_side [OF rep]])
    moreover have "map (\<lambda>x. the (live_orders b' x)) (filter P (flat sd ?Q)) =
        map (\<lambda>x. the (live_orders b x)) (filter P (flat sd ?Q))" for P
    proof (rule map_cong [OF refl])
      fix x
      assume "x \<in> set (filter P (flat sd ?Q))"
      then have "x \<noteq> slot"
        using new set_flat [OF book_rep_finite_side [OF rep], of x sd sd] by auto
      then show "the (live_orders b' x) = the (live_orders b x)" by (simp add: lo)
    qed
    ultimately show ?thesis
      using True by (simp add: maker_list_def Q' lo spec_rest_def Let_def filter_map comp_def)
  qed
qed

text \<open>What a command computes: it returns, keeps the invariant and matches the abstract command.\<close>

definition refines ::
  "sha256 \<Rightarrow> order_book \<Rightarrow> ('a \<times> order_book) option \<Rightarrow> 'a \<times> clob \<Rightarrow> bool" where
  "refines sha b res spec \<longleftrightarrow>
     (\<exists>r b'. res = Some (r, b') \<and> book_inv sha b' \<and> kept b b' \<and> spec = (r, clob_of b'))"

lemma refinesI:
  "res = Some (r, b') \<Longrightarrow> book_rep sha b' Q \<Longrightarrow> kept b b' \<Longrightarrow> spec = (r, clob_of b') \<Longrightarrow> refines sha b res spec"
  by (auto simp: refines_def book_inv_def)

lemma rest_order_refines:
  assumes rep: "book_rep sha b Q" and typed: "order_typed ord" "fits I64 q" and pos: "0 < no_price ord" "0 < q"
    and new: "\<not> book_contains b (no_order_id ord)" and uncr: "\<not> would_cross b (no_side ord) (no_price ord)"
  shows "refines sha b (rest_order sha b ord q) (clob_rest (clob_of b) ord q)"
proof -
  let ?sd = "no_side ord" and ?p = "no_price ord"
  have cap: "capacity (bk_slab b) = cfg_capacity (bk_config b)"
    using rep by (simp add: book_rep_def)
  consider (over) "\<not> fits I64 (level_total (side_of ?sd b) ?p + q)"
    | (full) "fits I64 (level_total (side_of ?sd b) ?p + q)" "live (bk_slab b) = capacity (bk_slab b)"
    | (room) "fits I64 (level_total (side_of ?sd b) ?p + q)" "live (bk_slab b) < capacity (bk_slab b)"
    using sl.len_le_cap [OF book_rep_wf [OF rep]] by fastforce
  then show ?thesis
  proof cases
    case over
    show ?thesis
      by (rule refinesI [OF rest_order_overflow [OF over] rep])
        (use over clob_level_rep [OF rep] in \<open>simp_all add: clob_rest_def\<close>)
  next
    case full
    show ?thesis
      by (rule refinesI [OF rest_order_full [OF book_rep_wf [OF rep] full(2,1)] rep])
        (use full cap clob_level_rep [OF rep] clob_count_rep [OF rep] in \<open>simp_all add: clob_rest_def\<close>)
  next
    case room
    obtain slot b' where r: "rest_order sha b ord q = Some (Ok (), b')"
      "book_rep sha b' (Q(?sd := (Q ?sd)(?p := Q ?sd ?p @ [slot])))" "live_orders b slot = None"
      "live_orders b' = (live_orders b)(slot \<mapsto> node_new ord q)" "kept b b'"
      using rest_order_rep [OF rep typed pos new uncr room] by blast
    have "book_orders b' sd = ((book_orders b)(?sd := spec_rest (node_new ord q) (book_orders b ?sd))) sd" for sd
      using maker_list_insert [OF rep r(3,4)] by (simp add: book_orders_rep [OF rep] book_orders_rep [OF r(2)])
    then have "clob_of b' = (clob_of b)\<lparr>cl_orders := (book_orders b)(?sd := spec_rest (node_new ord q) (book_orders b ?sd))\<rparr>"
      by (rule clob_eqI [OF r(5)])
    then show ?thesis
      by (intro refinesI [OF r(1,2,5)])
        (use room cap clob_level_rep [OF rep] clob_count_rep [OF rep] in \<open>simp add: clob_rest_def Let_def\<close>)
  qed
qed

section \<open>Executing an order\<close>

lemma clob_rest_Err: "clob_rest c ord q = (Inl e, c') \<Longrightarrow> c' = c"
  by (auto simp: clob_rest_def Let_def split: if_splits)

lemma makers_ok_rep:
  assumes "book_rep sha b Q"
  shows "\<forall>m\<in>set (maker_list b Q sd). 0 < nd_remaining m"
  using side_orders_props(2) [OF book_rep_side [OF assms]] by (simp add: maker_list_side_orders)

lemma would_cross_head:
  assumes "book_rep sha b Q"
  shows "would_cross b sd p \<longleftrightarrow> maker_list b Q (opposite sd) \<noteq> [] \<and>
    crosses sd False p (nd_price (hd (maker_list b Q (opposite sd))))"
  using best_price_orders [OF book_rep_side [OF assms], of "opposite sd"]
  by (cases sd; cases "maker_list b Q (opposite sd)")
    (auto simp: would_cross_def crosses_def side_of_def maker_list_side_orders)

text \<open>The book after the matching loop, abstractly.\<close>

lemma matched_clob:
  assumes rep: "book_rep sha b Q" "book_rep sha b1 Q1" and kept: "kept b b1"
    and own: "maker_list b1 Q1 sd = maker_list b Q sd"
  shows "clob_of b1 = (clob_of b)\<lparr>cl_orders := (book_orders b)(opposite sd := maker_list b1 Q1 (opposite sd))\<rparr>"
proof (rule clob_eqI [OF kept])
  fix s
  show "book_orders b1 s = ((book_orders b)(opposite sd := maker_list b1 Q1 (opposite sd))) s"
    using own by (cases s; cases sd) (simp_all add: book_orders_rep [OF rep(1)] book_orders_rep [OF rep(2)])
qed

lemma matched_fresh:
  assumes rep: "book_rep sha b Q" "book_rep sha b1 Q1" and own: "maker_list b1 Q1 sd = maker_list b Q sd"
    and ms: "maker_list b1 Q1 (opposite sd) = sp_makers (spec_match stp t mkt q (maker_list b Q (opposite sd)))"
    and new: "\<not> book_contains b i"
  shows "\<not> book_contains b1 i"
proof
  assume "book_contains b1 i"
  then obtain s n where n: "n \<in> set (maker_list b1 Q1 s)" "nd_order_id n = i"
    unfolding contains_iff_list [OF rep(2)] by blast
  have "\<exists>m\<in>set (maker_list b Q s). nd_order_id m = i"
  proof (cases "s = sd")
    case True
    with n own show ?thesis by auto
  next
    case False
    then have "s = opposite sd" by (cases s; cases sd) simp_all
    with n ms spec_makers_from [of n stp t mkt q "maker_list b Q (opposite sd)"] show ?thesis by force
  qed
  with new show False
    unfolding contains_iff_list [OF rep(1)] by blast
qed

lemma refines_trans:
  "kept b b1 \<Longrightarrow> refines sha b1 res spec \<Longrightarrow> refines sha b res spec"
  using kept_trans by (fastforce simp: refines_def)

lemma settle_refines:
  assumes rep: "book_rep sha b Q" and typed: "order_typed ord" and price: "no_order_type ord \<noteq> Market \<Longrightarrow> 0 < no_price ord"
    and new: "\<not> book_contains b (no_order_id ord)" and qty: "0 < qty" "fits I64 qty"
    and rep1: "book_rep sha (m_book st) Q1" and kept: "kept b (m_book st)"
    and own: "maker_list (m_book st) Q1 (no_side ord) = maker_list b Q (no_side ord)"
    and r: "r = spec_match (cfg_stp (bk_config b)) ord (no_order_type ord = Market) qty (maker_list b Q (opposite (no_side ord)))"
    and run: "r = spec_of stopped st (maker_list (m_book st) Q1 (opposite (no_side ord)))"
  shows "refines sha b (settle_residual sha ord (no_order_type ord = Market) qty stopped st) (clob_settle (clob_of b) ord qty r)"
proof -
  let ?sd = "no_side ord" and ?ms = "opposite (no_side ord)" and ?b = "m_book st"
  have rem: "sp_remaining r = m_remaining st" "sp_fills r = m_fills st" "sp_stp r = m_stp st" "sp_stopped r = stopped"
    and makers: "sp_makers r = maker_list ?b Q1 ?ms"
    using run by (simp_all add: spec_of_def)
  have bounds: "0 \<le> m_remaining st" "m_remaining st \<le> qty"
    using spec_remaining_bounds [of qty "maker_list b Q ?ms"] makers_ok_rep [OF rep, of ?ms] qty(1)
    unfolding rem(1) [symmetric] r by auto
  have fit: "fits I64 (m_remaining st)" "fits I64 (qty - m_remaining st)"
    by (rule fits_nonneg_le [OF qty(2)]; use bounds in simp)+
  have filled: "scalar_saturating_sub I64 qty (m_remaining st) = qty - m_remaining st"
    using fit(2) by (simp add: scalar_saturating_sub_def prim_saturate_id)
  have c1: "clob_of ?b = (clob_of b)\<lparr>cl_orders := (book_orders b)(?ms := sp_makers r)\<rparr>"
    using matched_clob [OF rep rep1 kept own] makers by simp
  note defs = settle_residual_def clob_settle_def rem filled Let_def
  show ?thesis
  proof (cases "m_remaining st = 0 \<or> no_order_type ord = Market \<or> stopped \<or> no_tif ord \<noteq> Gtc")
    case True
    then have "\<exists>r'. settle_residual sha ord (no_order_type ord = Market) qty stopped st = Some (r', ?b) \<and>
        clob_settle (clob_of b) ord qty r = (r', clob_of ?b)"
      using bounds by (auto simp: defs c1)
    then show ?thesis
      using refinesI [OF _ rep1 kept] by metis
  next
    case False
    have "\<not> would_cross ?b ?sd (no_price ord)"
      using False bounds spec_no_cross_left [of "cfg_stp (bk_config b)" ord False qty "maker_list b Q ?ms"]
        rem makers r would_cross_head [OF rep1] by auto
    moreover have "\<not> book_contains ?b (no_order_id ord)"
      using matched_fresh [OF rep rep1 own _ new] makers r by metis
    ultimately have "refines sha ?b (rest_order sha ?b ord (m_remaining st)) (clob_rest (clob_of ?b) ord (m_remaining st))"
      using False bounds price by (intro rest_order_refines [OF rep1 typed fit(1)]) simp_all
    then obtain r2 b2 where rest: "rest_order sha ?b ord (m_remaining st) = Some (r2, b2)" "book_inv sha b2"
      "kept ?b b2" "clob_rest (clob_of ?b) ord (m_remaining st) = (r2, clob_of b2)"
      by (auto simp: refines_def)
    have err: "clob_of b2 = clob_of ?b" if "r2 = Inl e" for e
      using clob_rest_Err rest(4) that by metis
    have "\<exists>r'. settle_residual sha ord (no_order_type ord = Market) qty stopped st = Some (r', b2) \<and>
        clob_settle (clob_of b) ord qty r = (r', clob_of b2)"
      using False bounds rest(1,4) err by (cases r2) (auto simp: defs c1 [symmetric])
    then show ?thesis
      using rest(2,3) kept kept_trans by (auto simp: refines_def)
  qed
qed

lemma crossable_qty_rep:
  assumes "book_rep sha b Q"
  shows "crossable_qty b ord mkt need =
    Some (count_orders (no_side ord) (no_account ord) (no_price ord) mkt (cfg_stp (bk_config b)) need 0
      (maker_list b Q (opposite (no_side ord))))"
  using side_crossable_qty_rep [OF book_rep_side [OF assms] book_rep_wf [OF assms]]
  by (simp add: crossable_qty_def maker_list_side_orders)

lemma fok_check:
  assumes "book_rep sha b Q" and "0 < qty" and "fits I64 qty"
  shows "\<exists>avail. crossable_qty b ord mkt qty = Some avail \<and>
    (avail < qty \<longleftrightarrow> sp_remaining (spec_match (cfg_stp (bk_config b)) ord mkt qty
       (maker_list b Q (opposite (no_side ord)))) \<noteq> 0)"
  using crossable_qty_rep [OF assms(1)] assms(2,3) makers_ok_rep [OF assms(1)]
    count_orders_matches [of 0 qty "maker_list b Q (opposite (no_side ord))" ord mkt "cfg_stp (bk_config b)"]
  by (auto simp: not_less [symmetric])

lemma rejected_report: "Ok \<lparr>rep_result = rejected, rep_stp_cancelled = []\<rparr> = clob_rejected"
  by (simp add: clob_rejected_def report_def rejected_def)

text \<open>\<open>execute_with_report\<close> past its guards, with the clamped quantity.\<close>

definition execute_open :: "sha256 \<Rightarrow> order_book \<Rightarrow> new_order \<Rightarrow> quantity \<Rightarrow> match_report outcome option" where
  "execute_open sha b ord qty =
     (if no_order_type ord = PostOnly then
            (if would_cross b (no_side ord) (no_price ord) then Some (clob_rejected, b)
             else do { (r, b') \<leftarrow> rest_order sha b ord qty;
                       Some (and_then r (\<lambda>_. Ok (report [] (Resting qty) [])), b') })
          else
            do { avail \<leftarrow> (if no_tif ord = Fok then crossable_qty b ord (no_order_type ord = Market) qty else Some qty);
                 if avail < qty then Some (clob_rejected, b)
                 else do { (stopped, st) \<leftarrow> run_match sha b ord (no_order_type ord = Market) qty;
                           settle_residual sha ord (no_order_type ord = Market) qty stopped st } })"

lemma execute_guarded:
  assumes "no_quantity ord \<le> 0 \<or> no_order_type ord \<noteq> Market \<and> no_price ord \<le> 0 \<or> book_contains b (no_order_id ord)"
  shows "execute_with_report sha b ord = Some (Err (if no_quantity ord \<le> 0 then NonPositiveQuantity
      else if no_order_type ord \<noteq> Market \<and> no_price ord \<le> 0 then NonPositivePrice else DuplicateOrderId), b)"
  using assms by (elim disjE) (simp_all add: execute_with_report_def)

lemma execute_open_eq:
  assumes "0 < no_quantity ord" and "no_order_type ord = Market \<or> 0 < no_price ord"
    and "\<not> book_contains b (no_order_id ord)" and "reduce_clamp b ord = Some qty"
  shows "execute_with_report sha b ord = execute_open sha b ord qty"
  unfolding execute_with_report_def execute_open_def Let_def rejected_report using assms by auto

lemma execute_matching_refines:
  assumes rep: "book_rep sha b Q" and typed: "order_typed ord" and price: "no_order_type ord \<noteq> Market \<Longrightarrow> 0 < no_price ord"
    and new: "\<not> book_contains b (no_order_id ord)" and qty: "0 < qty" "fits I64 qty"
  shows "refines sha b
    (do { avail \<leftarrow> (if no_tif ord = Fok then crossable_qty b ord (no_order_type ord = Market) qty else Some qty);
          if avail < qty then Some (clob_rejected, b)
          else do { (stopped, st) \<leftarrow> run_match sha b ord (no_order_type ord = Market) qty;
                    settle_residual sha ord (no_order_type ord = Market) qty stopped st } })
    (let r = spec_match (cfg_stp (bk_config b)) ord (no_order_type ord = Market) qty (book_orders b (opposite (no_side ord)))
     in if no_tif ord = Fok \<and> sp_remaining r \<noteq> 0 then (clob_rejected, clob_of b) else clob_settle (clob_of b) ord qty r)"
proof -
  let ?mkt = "no_order_type ord = Market" and ?ms = "opposite (no_side ord)"
  define r where "r = spec_match (cfg_stp (bk_config b)) ord ?mkt qty (maker_list b Q ?ms)"
  have orders: "book_orders b ?ms = maker_list b Q ?ms"
    by (rule book_orders_rep [OF rep])
  obtain avail where avail: "(if no_tif ord = Fok then crossable_qty b ord ?mkt qty else Some qty) = Some avail"
    "avail < qty \<longleftrightarrow> no_tif ord = Fok \<and> sp_remaining r \<noteq> 0"
    using fok_check [OF rep qty, of ord ?mkt] unfolding r_def [symmetric] by (cases "no_tif ord = Fok") auto
  show ?thesis
  proof (cases "avail < qty")
    case True
    then show ?thesis
      using avail refinesI [OF refl rep kept_refl refl, of clob_rejected] by (simp add: orders r_def [symmetric])
  next
    case False
    obtain stopped st Q1 where m: "run_match sha b ord ?mkt qty = Some (stopped, st)" "book_rep sha (m_book st) Q1"
      "kept b (m_book st)" "maker_list (m_book st) Q1 (no_side ord) = maker_list b Q (no_side ord)"
      "r = spec_of stopped st (maker_list (m_book st) Q1 ?ms)"
      using run_match_refines [OF rep qty(2), of ord ?mkt] unfolding r_def by blast
    have "refines sha b (settle_residual sha ord ?mkt qty stopped st) (clob_settle (clob_of b) ord qty r)"
      by (rule settle_refines [OF rep typed price new qty m(2-4) r_def m(5)])
    then show ?thesis
      using False avail m(1) by (auto simp: orders r_def [symmetric] simp del: not_less)
  qed
qed

lemma execute_refines:
  assumes "book_rep sha b Q" and typed: "order_typed ord"
  shows "refines sha b (execute_with_report sha b ord) (clob_execute (clob_of b) ord)"
proof -
  note rep = assms(1)
  note stay = refinesI [OF _ rep kept_refl]
  show ?thesis
  proof (cases "no_quantity ord \<le> 0 \<or> no_order_type ord \<noteq> Market \<and> no_price ord \<le> 0 \<or> book_contains b (no_order_id ord)")
    case True
    let ?e = "if no_quantity ord \<le> 0 then NonPositiveQuantity
      else if no_order_type ord \<noteq> Market \<and> no_price ord \<le> 0 then NonPositivePrice else DuplicateOrderId"
    have "execute_with_report sha b ord = Some (Err ?e, b)"
      using True by (rule execute_guarded)
    moreover have "clob_execute (clob_of b) ord = (Err ?e, clob_of b)"
      using True by (elim disjE) (simp_all add: clob_execute_def clob_has_rep [OF rep])
    ultimately show ?thesis
      by (rule stay)
  next
    case False
    then have q: "0 < no_quantity ord" by simp
    note start = clob_has_rep [OF rep] clob_clamp_rep [OF rep q]
    show ?thesis
    proof (cases "clob_clamp (clob_of b) ord")
      case None
      then have "execute_with_report sha b ord = Some (clob_rejected, b)"
        "clob_execute (clob_of b) ord = (clob_rejected, clob_of b)"
        using False by (auto simp: execute_with_report_def clob_execute_def start rejected_report)
      then show ?thesis
        by (rule stay)
    next
      case (Some qty)
      have qty: "0 < qty" "fits I64 qty"
        using clamp_positive [OF Some q] typed by (auto simp: order_typed_def intro: fits_nonneg_le [of I64 "no_quantity ord"])
      have code: "execute_with_report sha b ord = execute_open sha b ord qty"
        using False Some by (intro execute_open_eq) (auto simp: start)
      show ?thesis
      proof (cases "no_order_type ord = PostOnly")
        case True
        have "refines sha b (rest_order sha b ord qty) (clob_rest (clob_of b) ord qty)"
          if "\<not> would_cross b (no_side ord) (no_price ord)"
          using False True that qty by (intro rest_order_refines [OF rep typed]) simp_all
        then show ?thesis
          using False True Some stay [of _ clob_rejected]
          by (cases "would_cross b (no_side ord) (no_price ord)")
            (auto simp: code execute_open_def clob_execute_def start clob_crosses_rep [OF rep] refines_def and_then_def
              split: sum.splits)
      next
        case other: False
        have spec: "clob_execute (clob_of b) ord =
          (let r = spec_match (cfg_stp (bk_config b)) ord (no_order_type ord = Market) qty
                     (book_orders b (opposite (no_side ord)))
           in if no_tif ord = Fok \<and> sp_remaining r \<noteq> 0 then (clob_rejected, clob_of b)
              else clob_settle (clob_of b) ord qty r)"
          unfolding clob_execute_def clob_of_fields using False Some other by (auto simp: start)
        have "no_order_type ord \<noteq> Market \<Longrightarrow> 0 < no_price ord" "\<not> book_contains b (no_order_id ord)"
          using False by auto
        then show ?thesis
          unfolding code execute_open_def if_not_P [OF other] spec by (rule execute_matching_refines [OF rep typed _ _ qty])
      qed
    qed
  qed
qed

end
