(* ===== verification/Commands.thy ===== *)
theory Commands
  imports BookRefine
begin

text \<open>
  The commands of the book other than plain execution: cancel, cancel-all, replace, submission with
  the replay cache, and baskets. Each refines its abstract command.
\<close>

section \<open>Cancelling\<close>

lemma maker_list_remove:
  assumes rep: "book_rep sha b Q" and split: "Q (nd_side n) p = xs @ slot # ys" and n: "live_orders b slot = Some n"
    and lo: "live_orders b' = (live_orders b)(slot := None)"
    and Q': "Q' = Q(nd_side n := (Q (nd_side n))(p := xs @ ys))"
  shows "maker_list b' Q' sd = filter (\<lambda>m. nd_order_id m \<noteq> nd_order_id n) (maker_list b Q sd)"
proof -
  have idx: "index_ok (live_orders b) (bk_id_index b)"
    using rep by (simp add: book_rep_def)
  have flat': "flat sd (Q' sd) = filter (\<lambda>x. x \<noteq> slot) (flat sd (Q sd))"
  proof (cases "sd = nd_side n")
    case True
    have "distinct (Q sd p)"
      using side_rep_queue [OF book_rep_side [OF rep]] by (rule queue_distinct)
    then show ?thesis
      using True split side_rep_disjoint [OF book_rep_side [OF rep], of slot sd p] unfolding Q'
      by (simp add: flat_delete_slot [OF book_rep_finite_side [OF rep]])
  next
    case False
    then have "slot \<notin> set (flat sd (Q sd))"
      using set_flat [OF book_rep_finite_side [OF rep]] other_side_slots [OF rep, of slot sd _ slot "nd_side n" p] split
      by auto
    then have "filter (\<lambda>x. x \<noteq> slot) (flat sd (Q sd)) = flat sd (Q sd)"
      by (metis (mono_tags, lifting) filter_all)
    with False show ?thesis
      by (simp add: Q')
  qed
  have live: "\<exists>m. live_orders b x = Some m" if x: "x \<in> set (flat sd (Q sd))" for x
  proof -
    obtain q where q: "x \<in> set (Q sd q)"
      using x set_flat [OF book_rep_finite_side [OF rep]] by blast
    then show ?thesis
      using side_rep_slot [OF book_rep_side [OF rep] q] by (auto simp: live_orders_def)
  qed
  have same: "x \<noteq> slot \<longleftrightarrow> nd_order_id (the (live_orders b x)) \<noteq> nd_order_id n" if x: "x \<in> set (flat sd (Q sd))" for x
  proof -
    obtain m where "live_orders b x = Some m"
      using live [OF x] by blast
    then show ?thesis
      using n index_ok_unique [OF idx _ n, of x m] by auto
  qed
  have "maker_list b' Q' sd = map (\<lambda>x. the (live_orders b x)) (filter (\<lambda>x. x \<noteq> slot) (flat sd (Q sd)))"
    unfolding maker_list_def flat' by (rule map_cong) (auto simp: lo)
  also have "filter (\<lambda>x. x \<noteq> slot) (flat sd (Q sd)) =
      filter (\<lambda>x. nd_order_id (the (live_orders b x)) \<noteq> nd_order_id n) (flat sd (Q sd))"
    using same by (rule filter_cong [OF refl])
  also have "map (\<lambda>x. the (live_orders b x)) \<dots> = filter (\<lambda>m. nd_order_id m \<noteq> nd_order_id n) (maker_list b Q sd)"
    by (simp add: maker_list_def filter_map comp_def)
  finally show ?thesis .
qed

text \<open>Removing the order an id locates.\<close>

lemma remove_located:
  assumes rep: "book_rep sha b Q" and loc: "omap_get (bk_id_index b) i = Some loc"
  obtains b' Q' n where "remove_resting sha b (loc_side loc) (loc_slot loc) = Some b'" and "book_rep sha b' Q'"
    and "kept b b'" and "clob_of b' = clob_drop (\<lambda>m. nd_order_id m = i) (clob_of b)"
    and "live (bk_slab b') + 1 = live (bk_slab b)"
    and "slab_get (bk_slab b) (loc_slot loc) = Some n" and "nd_order_id n = i" and "nd_side n = loc_side loc"
    and "omap_get (bk_id_index b') = (omap_get (bk_id_index b))(i := None)"
proof -
  have idx: "index_ok (live_orders b) (bk_id_index b)"
    using rep by (simp add: book_rep_def)
  obtain m where m: "live_orders b (loc_slot loc) = Some m" "nd_order_id m = i" "nd_side m = loc_side loc"
    using index_ok_lookup [OF idx loc] by blast
  obtain n where n: "slab_get (bk_slab b) (loc_slot loc) = Some n" "m = payload n"
    using m(1) by (auto simp: live_orders_Some)
  obtain xs ys where split: "Q (nd_side m) (nd_price m) = xs @ loc_slot loc # ys"
    using queued_slot [OF rep m(1)] by blast
  let ?Q = "Q(nd_side m := (Q (nd_side m))(nd_price m := xs @ ys))"
  obtain b' where r: "remove_resting sha b (nd_side m) (loc_slot loc) = Some b'" "book_rep sha b' ?Q"
    "live_orders b' = (live_orders b)(loc_slot loc := None)" "live (bk_slab b') + 1 = live (bk_slab b)" "kept b b'"
    using remove_resting_rep [OF rep split] by blast
  have orders: "book_orders b' sd = filter (\<lambda>m. \<not> nd_order_id m = i) (book_orders b sd)" for sd
    using maker_list_remove [OF rep split m(1) r(3) refl, of sd] m(2)
    by (simp add: book_orders_rep [OF rep] book_orders_rep [OF r(2)])
  have "clob_of b' = clob_drop (\<lambda>m. nd_order_id m = i) (clob_of b)"
    using clob_eqI [OF r(5) orders] by (simp add: clob_drop_def)
  moreover have "omap_get (bk_id_index b') j = ((omap_get (bk_id_index b))(i := None)) j" for j
  proof -
    have idx': "index_ok ((live_orders b)(loc_slot loc := None)) (bk_id_index b')"
      using r(2,3) by (simp add: book_rep_def)
    have "index_ok ((live_orders b)(loc_slot loc := None)) (omap_remove i (bk_id_index b))"
      using index_ok_remove [OF idx m(1)] m(2) by simp
    with idx' have "omap_get (bk_id_index b') j = Some l \<longleftrightarrow> omap_get (omap_remove i (bk_id_index b)) j = Some l" for l
      by (simp only: index_ok_def)
    then have "omap_get (bk_id_index b') j = omap_get (omap_remove i (bk_id_index b)) j"
      by (metis not_Some_eq)
    then show ?thesis by simp
  qed
  ultimately show thesis
    using that [of b' ?Q n] r m n by (simp add: fun_eq_iff)
qed

lemma cancel_refines:
  assumes "book_rep sha b Q"
  shows "refines sha b (cancel sha b i) (clob_cancel (clob_of b) i)"
proof (cases "omap_get (bk_id_index b) i")
  case None
  then have "\<not> book_contains b i" by (simp add: book_contains_def)
  then show ?thesis
    using None clob_has_rep [OF assms]
    by (intro refinesI [OF _ assms kept_refl]) (auto simp: cancel_def clob_cancel_def)
next
  case (Some loc)
  then have "book_contains b i" by (simp add: book_contains_def)
  moreover obtain b' Q' where "remove_resting sha b (loc_side loc) (loc_slot loc) = Some b'" "book_rep sha b' Q'"
    "kept b b'" "clob_of b' = clob_drop (\<lambda>m. nd_order_id m = i) (clob_of b)"
    by (rule remove_located [OF assms Some])
  ultimately show ?thesis
    using Some clob_has_rep [OF assms]
    by (intro refinesI [of _ "Ok ()" b' sha Q']) (auto simp: cancel_def clob_cancel_def)
qed

text \<open>The loop of cancel-all, over ids that are all resting.\<close>

lemma clob_drop_drop: "clob_drop P (clob_drop R c) = clob_drop (\<lambda>n. R n \<or> P n) c"
proof -
  have "cl_orders (clob_drop P (clob_drop R c)) = cl_orders (clob_drop (\<lambda>n. R n \<or> P n) c)"
    by (rule ext) simp
  then show ?thesis
    by (simp add: clob_drop_def)
qed

lemma clob_drop_none: "clob_drop (\<lambda>n. False) c = c"
  by (simp add: clob_drop_def)

lemma clob_drop_cong:
  assumes "\<And>sd n. n \<in> set (cl_orders c sd) \<Longrightarrow> P n = R n"
  shows "clob_drop P c = clob_drop R c"
proof -
  have "(\<lambda>sd. filter (\<lambda>n. \<not> P n) (cl_orders c sd)) = (\<lambda>sd. filter (\<lambda>n. \<not> R n) (cl_orders c sd))"
    using assms by (intro ext filter_cong) auto
  then show ?thesis
    by (simp add: clob_drop_def)
qed

lemma cancel_ids_refines:
  assumes "book_rep sha b Q" and "distinct is" and "\<forall>i\<in>set is. omap_get (bk_id_index b) i \<noteq> None"
  shows "\<exists>b' Q'. cancel_ids sha is b = Some b' \<and> book_rep sha b' Q' \<and> kept b b' \<and>
    clob_of b' = clob_drop (\<lambda>n. nd_order_id n \<in> set is) (clob_of b) \<and>
    live (bk_slab b') + length is = live (bk_slab b)"
  using assms
proof (induction "is" arbitrary: b Q)
  case Nil
  then show ?case
    by (auto simp: clob_drop_none)
next
  case (Cons i "is")
  then obtain loc where loc: "omap_get (bk_id_index b) i = Some loc" by auto
  obtain b1 Q1 where b1: "remove_resting sha b (loc_side loc) (loc_slot loc) = Some b1" "book_rep sha b1 Q1"
    "kept b b1" "clob_of b1 = clob_drop (\<lambda>m. nd_order_id m = i) (clob_of b)" "live (bk_slab b1) + 1 = live (bk_slab b)"
    "omap_get (bk_id_index b1) = (omap_get (bk_id_index b))(i := None)"
    by (rule remove_located [OF Cons.prems(1) loc])
  have "\<forall>j\<in>set is. omap_get (bk_id_index b1) j \<noteq> None"
    using Cons.prems(2,3) by (auto simp: b1(6))
  then obtain b' Q' where "cancel_ids sha is b1 = Some b'" "book_rep sha b' Q'" "kept b1 b'"
    "clob_of b' = clob_drop (\<lambda>n. nd_order_id n \<in> set is) (clob_of b1)" "live (bk_slab b') + length is = live (bk_slab b1)"
    using Cons.IH [OF b1(2)] Cons.prems(2) by auto
  then show ?case
    using loc b1 kept_trans [of b b1 b'] by (auto simp: clob_drop_drop)
qed

lemma owned_orders:
  assumes "book_rep sha b Q"
  shows "owned (live_orders b) a = nd_order_id ` {n. \<exists>sd. n \<in> set (book_orders b sd) \<and> nd_account n = a}"
  unfolding owned_def book_orders_rep [OF assms] in_maker_list [OF assms] by auto

lemma order_ids_distinct:
  assumes rep: "book_rep sha b Q"
  shows "distinct (map nd_order_id (book_orders b Bid @ book_orders b Ask))"
proof -
  let ?xs = "flat Bid (Q Bid) @ flat Ask (Q Ask)"
  have idx: "index_ok (live_orders b) (bk_id_index b)"
    using rep by (simp add: book_rep_def)
  have mem: "x \<in> set (flat sd (Q sd)) \<longleftrightarrow> (\<exists>p. x \<in> set (Q sd p))" for x sd
    using set_flat [OF book_rep_finite_side [OF rep]] .
  have "distinct ?xs"
    using flat_distinct_rep [OF book_rep_side [OF rep]] other_side_slots [OF rep, of _ Bid _ _ Ask]
    by (simp add: disjoint_iff mem) blast
  moreover have "inj_on (\<lambda>x. nd_order_id (the (live_orders b x))) (set ?xs)"
  proof (rule inj_onI)
    fix x y
    assume xy: "x \<in> set ?xs" "y \<in> set ?xs" "nd_order_id (the (live_orders b x)) = nd_order_id (the (live_orders b y))"
    have "\<exists>n. live_orders b z = Some n" if "z \<in> set ?xs" for z
      using that rep unfolding book_rep_def queued_def by (auto simp: mem) (metis (mono_tags, lifting) domD mem_Collect_eq)+
    then obtain n m where "live_orders b x = Some n" "live_orders b y = Some m"
      using xy(1,2) by blast
    then show "x = y"
      using index_ok_unique [OF idx] xy(3) by simp
  qed
  ultimately show ?thesis
    by (simp add: book_orders_rep [OF rep] maker_list_def distinct_map comp_def flip: map_append)
qed

lemma cancel_all_refines:
  assumes rep: "book_rep sha b Q"
  shows "refines sha b (cancel_all sha b a) (clob_cancel_all (clob_of b) a)"
proof -
  define ids where "ids = account_ids (bk_account_orders b) a"
  let ?all = "book_orders b Bid @ book_orders b Ask"
  have ids: "sorted_wrt (<) ids" "set ids = owned (live_orders b) a"
    using rep by (auto simp: ids_def book_rep_def accounts_ok_def)
  then have dist: "distinct ids"
    by (simp add: strict_sorted_iff)
  have idx: "index_ok (live_orders b) (bk_id_index b)"
    using rep by (simp add: book_rep_def)
  then have "\<forall>i\<in>set ids. omap_get (bk_id_index b) i \<noteq> None"
    unfolding ids(2) using index_ok_node [OF idx] by (auto simp: owned_def)
  then obtain b' Q' where r: "cancel_ids sha ids b = Some b'" "book_rep sha b' Q'" "kept b b'"
    "clob_of b' = clob_drop (\<lambda>n. nd_order_id n \<in> set ids) (clob_of b)" "live (bk_slab b') + length ids = live (bk_slab b)"
    using cancel_ids_refines [OF rep dist] by blast
  have mine: "nd_order_id n \<in> set ids \<longleftrightarrow> nd_account n = a" if n: "n \<in> set (book_orders b sd)" for sd n
  proof -
    have "n \<in> set ?all" using n by (cases sd) auto
    have "m = n" if "nd_order_id m = nd_order_id n" "m \<in> set (book_orders b s)" for s m
    proof -
      have "m \<in> set ?all" using that(2) by (cases s) auto
      then show ?thesis
        using order_ids_distinct [OF rep] \<open>n \<in> set ?all\<close> that(1) by (metis distinct_map inj_onD)
    qed
    then show ?thesis
      using n unfolding ids(2) owned_orders [OF rep] by fastforce
  qed
  have "length ids = length (filter (\<lambda>n. nd_account n = a) ?all)"
  proof -
    let ?f = "filter (\<lambda>n. nd_account n = a) ?all"
    have "distinct (map nd_order_id ?f)"
      using order_ids_distinct [OF rep] by (metis distinct_map_filter)
    moreover have "set (map nd_order_id ?f) = set ids"
      unfolding ids(2) owned_orders [OF rep] by (auto simp: ex_side)
    ultimately show ?thesis
      using dist by (metis distinct_card length_map)
  qed
  moreover have "length ids \<le> u32_max"
    using r(5) sl.len_le_cap [OF book_rep_wf [OF rep]] book_rep_wf [OF rep] by (simp add: slab_wf_def)
  moreover have "clob_of b' = clob_drop (\<lambda>n. nd_account n = a) (clob_of b)"
    unfolding r(4) using mine by (intro clob_drop_cong) simp
  ultimately show ?thesis
    by (intro refinesI [OF _ r(2,3)])
      (simp_all add: cancel_all_def clob_cancel_all_def Let_def r(1) ids_def [symmetric, unfolded account_ids_def])
qed

section \<open>Replacing\<close>

lemma clob_level_drop:
  assumes "distinct (map nd_order_id (cl_orders c sd))" and "n \<in> set (cl_orders c sd)"
  shows "clob_level (clob_drop (\<lambda>m. nd_order_id m = nd_order_id n) c) sd p =
    clob_level c sd p - (if nd_price n = p then nd_remaining n else 0)"
proof -
  obtain xs ys where split: "cl_orders c sd = xs @ n # ys"
    using assms(2) by (auto dest: split_list)
  then have "nd_order_id m \<noteq> nd_order_id n" if "m \<in> set xs \<or> m \<in> set ys" for m
    using assms(1) that by (auto, (metis image_eqI)+)
  then have "filter (\<lambda>m. nd_order_id m \<noteq> nd_order_id n) (cl_orders c sd) = xs @ ys"
    unfolding split by (simp add: filter_all)
  then show ?thesis
    by (simp add: clob_level_def split)
qed

lemma clob_find_rep:
  assumes rep: "book_rep sha b Q"
  shows "clob_find (clob_of b) i =
    (case omap_get (bk_id_index b) i of None \<Rightarrow> None | Some loc \<Rightarrow> live_orders b (loc_slot loc))"
proof -
  let ?all = "book_orders b Bid @ book_orders b Ask"
  have idx: "index_ok (live_orders b) (bk_id_index b)"
    using rep by (simp add: book_rep_def)
  have all: "n \<in> set ?all \<longleftrightarrow> (\<exists>x. live_orders b x = Some n)" for n
    by (cases "nd_side n") (auto simp: book_orders_rep [OF rep] in_maker_list [OF rep])
  have uniq: "List.find (\<lambda>m. nd_order_id m = nd_order_id n) ns = Some n"
    if "n \<in> set ns" "distinct (map nd_order_id ns)" for n and ns :: "node list"
    using that by (induction ns) auto
  show ?thesis
  proof (cases "omap_get (bk_id_index b) i")
    case None
    then show ?thesis
      using index_ok_absent [OF idx, of i] all by (auto simp: clob_find_def find_None_iff)
  next
    case (Some loc)
    obtain n where n: "live_orders b (loc_slot loc) = Some n" "nd_order_id n = i"
      using index_ok_lookup [OF idx Some] by blast
    then have "n \<in> set ?all"
      using all by blast
    then show ?thesis
      using Some n uniq [of n ?all] order_ids_distinct [OF rep] by (simp add: clob_find_def)
  qed
qed

lemma replacement_payload [simp]: "replacement i (payload n) p q = replacement i n p q"
  by (simp add: replacement_def)

lemma replacement_fields [simp]:
  "no_order_id (replacement i n p q) = i" "no_side (replacement i n p q) = nd_side n"
  "no_account (replacement i n p q) = nd_account n" "no_order_type (replacement i n p q) = Limit"
  "no_tif (replacement i n p q) = Gtc" "no_price (replacement i n p q) = p"
  "no_quantity (replacement i n p q) = q" "no_reduce_only (replacement i n p q) = False"
  by (simp_all add: replacement_def)

text \<open>A replacement that crosses always trades, cancels a maker or is stopped: it never fails.\<close>

lemma spec_match_crossing:
  assumes "0 < rem" and "ms \<noteq> []" and "crosses (no_side t) mkt (no_price t) (nd_price (hd ms))"
    and "\<forall>m\<in>set ms. 0 < nd_remaining m"
  shows "sp_stopped (spec_match stp t mkt rem ms) \<or> sp_stp (spec_match stp t mkt rem ms) \<noteq> [] \<or>
    sp_remaining (spec_match stp t mkt rem ms) < rem"
proof (cases ms)
  case (Cons m ms')
  have "sp_remaining (spec_match stp t mkt (rem - nd_remaining m) ms') \<le> rem - nd_remaining m" if "\<not> rem < nd_remaining m"
    using spec_remaining_bounds [of "rem - nd_remaining m" ms'] that assms(4) Cons by simp
  then show ?thesis
    using Cons assms by (cases stp) (auto simp: Let_def)
qed (use assms in simp)

lemma clob_execute_replacement:
  assumes "0 < q" and "0 < p" and "\<not> clob_has c i"
  shows "clob_execute c (replacement i n p q) =
    clob_settle c (replacement i n p q) q
      (spec_match (cfg_stp (cl_config c)) (replacement i n p q) False q (cl_orders c (opposite (nd_side n))))"
  using assms by (simp add: clob_execute_def clob_clamp_def Let_def)

lemma clob_replacement_crossing:
  assumes "0 < q" and "0 < p" and "\<not> clob_has c i" and "\<forall>m\<in>set (cl_orders c (opposite (nd_side n))). 0 < nd_remaining m"
    and "cl_orders c (opposite (nd_side n)) \<noteq> []"
    and "crosses (nd_side n) False p (nd_price (hd (cl_orders c (opposite (nd_side n)))))"
  shows "\<exists>r c'. clob_execute c (replacement i n p q) = (Ok r, c')"
proof -
  let ?t = "replacement i n p q" and ?ms = "cl_orders c (opposite (nd_side n))"
  let ?r = "spec_match (cfg_stp (cl_config c)) ?t False q ?ms"
  have "sp_stopped ?r \<or> sp_stp ?r \<noteq> [] \<or> sp_remaining ?r < q"
    using assms by (intro spec_match_crossing) simp_all
  then show ?thesis
    unfolding clob_execute_replacement [OF assms(1-3)]
    by (auto simp: clob_settle_def Let_def split: prod.splits sum.splits)
qed

lemma clob_replacement_resting:
  assumes "0 < q" and "0 < p" and "\<not> clob_has c i" and "clob_count c < cfg_capacity (cl_config c)"
    and "cl_orders c (opposite (nd_side n)) \<noteq> [] \<Longrightarrow>
      \<not> crosses (nd_side n) False p (nd_price (hd (cl_orders c (opposite (nd_side n)))))"
  shows "\<exists>r c'. clob_execute c (replacement i n p q) =
    (if fits I64 (clob_level c (nd_side n) p + q) then (Ok r, c') else (Err OrderOverflow, c))"
proof -
  let ?t = "replacement i n p q" and ?ms = "cl_orders c (opposite (nd_side n))"
  have "spec_match (cfg_stp (cl_config c)) ?t False q ?ms =
      \<lparr>sp_stopped = False, sp_remaining = q, sp_fills = [], sp_stp = [], sp_makers = ?ms\<rparr>"
    using assms(5) by (intro spec_match_no_cross) simp
  then show ?thesis
    using assms(1,4) unfolding clob_execute_replacement [OF assms(1-3)]
    by (auto simp: clob_settle_def clob_rest_def Let_def)
qed

lemma clob_replacement:
  fixes c :: clob and n :: node and p :: price
  defines "cross \<equiv> cl_orders c (opposite (nd_side n)) \<noteq> [] \<and>
      crosses (nd_side n) False p (nd_price (hd (cl_orders c (opposite (nd_side n)))))"
  assumes "0 < q" and "0 < p" and "\<not> clob_has c i" and "clob_count c < cfg_capacity (cl_config c)"
    and "\<forall>m\<in>set (cl_orders c (opposite (nd_side n))). 0 < nd_remaining m"
  shows "\<exists>r c'. clob_execute c (replacement i n p q) =
    (if cross \<or> fits I64 (clob_level c (nd_side n) p + q) then (Ok r, c') else (Err OrderOverflow, c))"
proof (cases cross)
  case True
  then show ?thesis
    using clob_replacement_crossing [OF assms(2-4,6)] by (simp add: cross_def)
next
  case False
  then have "cl_orders c (opposite (nd_side n)) \<noteq> [] \<Longrightarrow>
      \<not> crosses (nd_side n) False p (nd_price (hd (cl_orders c (opposite (nd_side n)))))"
    by (simp add: cross_def)
  from clob_replacement_resting [OF assms(2-5) this] False show ?thesis
    by simp
qed

text \<open>Removing an order leaves the opposite side alone.\<close>

lemma dropped_opposite:
  assumes rep: "book_rep sha b Q" and n: "slab_get (bk_slab b) x = Some n"
  shows "cl_orders (clob_drop (\<lambda>m. nd_order_id m = nd_order_id n) (clob_of b)) (opposite (nd_side n)) =
    maker_list b Q (opposite (nd_side n))"
proof -
  have idx: "index_ok (live_orders b) (bk_id_index b)"
    using rep by (simp add: book_rep_def)
  have live: "live_orders b x = Some (payload n)"
    using n by (rule live_orders_get)
  have "nd_order_id m \<noteq> nd_order_id n" if m: "m \<in> set (maker_list b Q (opposite (nd_side n)))" for m
  proof
    assume eq: "nd_order_id m = nd_order_id n"
    obtain y where y: "live_orders b y = Some m" "nd_side m = opposite (nd_side n)"
      using m in_maker_list [OF rep] by blast
    then have "y = x"
      using index_ok_unique [OF idx y(1) live] eq by simp
    then show False
      using y live by auto
  qed
  then show ?thesis
    by (simp add: book_orders_rep [OF rep] filter_id_conv)
qed

lemma replace_precheck_iff:
  assumes rep: "book_rep sha b Q" and n: "slab_get (bk_slab b) x = Some n" and i: "i = nd_order_id n"
    and c: "c = clob_drop (\<lambda>m. nd_order_id m = i) (clob_of b)"
  shows "replace_precheck b n p q =
    (if would_cross b (nd_side n) p \<or> fits I64 (clob_level c (nd_side n) p + q) then Ok () else Err OrderOverflow)"
proof -
  let ?sd = "nd_side n"
  have live: "live_orders b x = Some (payload n)"
    using n by (rule live_orders_get)
  then have mem: "payload n \<in> set (book_orders b ?sd)"
    unfolding book_orders_rep [OF rep] in_maker_list [OF rep] by auto
  have "distinct (map nd_order_id (book_orders b ?sd))"
    using order_ids_distinct [OF rep] by (cases ?sd) simp_all
  then have level: "clob_level c ?sd p = level_total (side_of ?sd b) p - (if nd_price n = p then nd_remaining n else 0)"
    using clob_level_drop [of "clob_of b" ?sd "payload n" p] mem by (simp add: c i clob_level_rep [OF rep])
  have "fits I64 (clob_level c ?sd p)" if "nd_price n = p"
  proof -
    have side: "side_rep (bk_slab b) ?sd (side_of ?sd b) (Q ?sd)"
      using rep by (rule book_rep_side)
    obtain ys zs where "Q ?sd p = ys @ x # zs"
      using queued_slot [OF rep live] \<open>nd_price n = p\<close> by auto
    then have "level_total (side_of ?sd b) p = nd_remaining n + sum_list (map (qty_at (bk_slab b)) (ys @ zs))"
      using level_total_rep [OF side, of p] n
      by (simp only: sum_list_split) (simp add: qty_at_def contents_def)
    moreover have "0 \<le> sum_list (map (qty_at (bk_slab b)) (ys @ zs))"
      using queue_positive [OF side_rep_queue [OF side, of p]] \<open>Q ?sd p = ys @ x # zs\<close>
      by (intro sum_list_nonneg) (auto simp: less_imp_le)
    moreover have "0 < nd_remaining n"
      using side_rep_slot [OF side, of x p] \<open>Q ?sd p = ys @ x # zs\<close> n by auto
    ultimately show ?thesis
      using level that by (intro fits_nonneg_le [OF level_total_fits [OF side, of p]]) simp_all
  qed
  then show ?thesis
    using level by (auto simp: replace_precheck_def Let_def scalar_checked_sub_def scalar_checked_add_def
        prim_checked_def ok_or_def)
qed

text \<open>What the replacement does on the book without the original, in terms of the pre-check.\<close>

lemma replaced_executes:
  assumes rep: "book_rep sha b Q" and loc: "omap_get (bk_id_index b) i = Some loc"
    and b1: "remove_resting sha b (loc_side loc) (loc_slot loc) = Some b1" "book_rep sha b1 Q1"
      "clob_of b1 = clob_drop (\<lambda>m. nd_order_id m = i) (clob_of b)"
    and n: "slab_get (bk_slab b) (loc_slot loc) = Some n" "nd_order_id n = i" and pos: "0 < q" "0 < p"
  shows "\<exists>r c'. clob_execute (clob_of b1) (replacement i n p q) =
    (case replace_precheck b n p q of Inl e \<Rightarrow> (Err e, clob_of b1) | Inr _ \<Rightarrow> (Ok r, c'))"
proof -
  let ?c = "clob_of b1" and ?opp = "opposite (nd_side n)"
  have more: "kept b b1" "live (bk_slab b1) + 1 = live (bk_slab b)"
    by (rule remove_located [OF rep loc]; use b1(1) in simp)+
  have absent: "\<not> clob_has ?c i"
    by (simp add: b1(3) clob_has_iff)
  have opp: "maker_list b1 Q1 ?opp = maker_list b Q ?opp"
    using dropped_opposite [OF rep n(1)] b1(3) n(2) book_orders_rep [OF b1(2), of ?opp] clob_of_fields(2) by metis
  have cross: "would_cross b (nd_side n) p \<longleftrightarrow> cl_orders ?c ?opp \<noteq> [] \<and>
      crosses (nd_side n) False p (nd_price (hd (cl_orders ?c ?opp)))"
    using would_cross_head [OF rep, of "nd_side n" p] by (simp add: book_orders_rep [OF b1(2)] opp)
  have pre: "replace_precheck b n p q =
      (if would_cross b (nd_side n) p \<or> fits I64 (clob_level ?c (nd_side n) p + q) then Ok () else Err OrderOverflow)"
    using replace_precheck_iff [OF rep n(1) n(2) [symmetric] b1(3)] .
  have room: "clob_count ?c < cfg_capacity (cl_config ?c)"
    using more rep sl.len_le_cap [OF book_rep_wf [OF rep]]
    by (simp add: clob_count_rep [OF b1(2)] kept_def book_rep_def)
  show ?thesis
    using clob_replacement [OF pos absent room, of n] makers_ok_rep [OF b1(2), of ?opp]
    unfolding cross [symmetric] pre by (auto simp: book_orders_rep [OF b1(2)])
qed

lemma replace_refines:
  assumes rep: "book_rep sha b Q" and typed: "i \<le> u64_max" "fits I64 p" "fits I64 q"
  shows "refines sha b (replace_with_report sha b i p q) (clob_replace (clob_of b) i p q)"
proof (cases "q \<le> 0 \<or> p \<le> 0 \<or> omap_get (bk_id_index b) i = None")
  case True
  let ?e = "if q \<le> 0 then NonPositiveQuantity else if p \<le> 0 then NonPositivePrice else UnknownOrder"
  have "replace_with_report sha b i p q = Some (Err ?e, b)"
    using True by (auto simp: replace_with_report_def)
  moreover have "clob_replace (clob_of b) i p q = (Err ?e, clob_of b)"
    using True by (auto simp: clob_replace_def clob_find_rep [OF rep])
  ultimately show ?thesis
    by (rule refinesI [OF _ rep kept_refl])
next
  case False
  then obtain loc where loc: "omap_get (bk_id_index b) i = Some loc" and pos: "0 < q" "0 < p" by auto
  obtain b1 Q1 n where b1: "remove_resting sha b (loc_side loc) (loc_slot loc) = Some b1" "book_rep sha b1 Q1"
    "kept b b1" "clob_of b1 = clob_drop (\<lambda>m. nd_order_id m = i) (clob_of b)"
    and n: "slab_get (bk_slab b) (loc_slot loc) = Some n" "nd_order_id n = i"
    by (rule remove_located [OF rep loc])
  let ?t = "replacement i n p q"
  obtain r c' where exec: "clob_execute (clob_of b1) ?t =
      (case replace_precheck b n p q of Inl e \<Rightarrow> (Err e, clob_of b1) | Inr _ \<Rightarrow> (Ok r, c'))"
    using replaced_executes [OF rep loc b1(1,2,4) n pos] by blast
  have "order_typed ?t"
    using typed rep live_orders_get [OF n(1)] by (fastforce simp: order_typed_def replacement_def book_rep_def node_typed_def)
  then obtain r2 b2 where b2: "execute_with_report sha b1 ?t = Some (r2, b2)" "book_inv sha b2" "kept b1 b2"
    "clob_execute (clob_of b1) ?t = (r2, clob_of b2)"
    using execute_refines [OF b1(2), of ?t] unfolding refines_def by blast
  have code: "replace_with_report sha b i p q = (case replace_precheck b n p q of Inl e \<Rightarrow> Some (Err e, b)
      | Inr _ \<Rightarrow> Some (r2, b2))"
    using pos loc n(1) b1(1) b2(1) by (simp add: replace_with_report_def split: sum.split)
  have spec: "clob_replace (clob_of b) i p q =
      (case clob_execute (clob_of b1) ?t of (Inl e, c') \<Rightarrow> (Err e, clob_of b) | (Inr r, c') \<Rightarrow> (Ok r, c'))"
    using pos loc n(1) by (simp add: clob_replace_def clob_find_rep [OF rep] live_orders_get b1(4))
  show ?thesis
  proof (cases "replace_precheck b n p q")
    case (Inl e)
    then show ?thesis
      using code spec exec by (intro refinesI [OF _ rep kept_refl]) auto
  next
    case (Inr u)
    then show ?thesis
      using code spec exec b2 kept_trans [OF b1(3) b2(3)] by (auto simp: refines_def)
  qed
qed

end
