(* ===== verification/Reachable.thy ===== *)
theory Reachable
  imports Commands
begin

text \<open>
  The book as a state machine: its public commands as a step relation, the books reachable from an
  empty one, and the invariant of every reachable book. Submission with the replay cache and baskets
  are covered here, because they change the cache as well as the book.
\<close>

section \<open>Submission and baskets\<close>

lemma book_rep_dedup:
  "book_rep sha b Q \<Longrightarrow> dd_wf d \<Longrightarrow> dd_capacity d = dd_capacity (bk_dedup b) \<Longrightarrow>
   book_rep sha (b\<lparr>bk_dedup := d\<rparr>) Q"
  by (simp add: book_rep_def)

lemma book_rep_position:
  "book_rep sha b Q \<Longrightarrow> fits I64 q \<Longrightarrow> book_rep sha (set_position b a q) Q"
  by (simp add: book_rep_def set_position_def)

lemma book_orders_dedup [simp]: "book_orders (b\<lparr>bk_dedup := d\<rparr>) = book_orders b"
  by (simp add: book_orders_def fun_eq_iff)

lemma clob_of_dedup [simp]: "clob_of (b\<lparr>bk_dedup := d\<rparr>) = clob_of b"
  by (simp add: clob_of_def position_def fun_eq_iff)

definition submit_spec :: "order_book \<Rightarrow> new_order \<Rightarrow> (match_result, order_error) result \<times> clob \<times> dedup_cache" where
  "submit_spec b ord =
     (case dd_get (bk_dedup b) (no_account ord) (no_client_id ord) of
        Some cached \<Rightarrow> (Ok cached, clob_of b, bk_dedup b)
      | None \<Rightarrow>
          (case clob_execute (clob_of b) ord of
             (Inl e, c) \<Rightarrow> (Err e, c, bk_dedup b)
           | (Inr rep, c) \<Rightarrow>
               (Ok (rep_result rep), c,
                dd_insert (bk_dedup b) (no_account ord) (no_client_id ord) (rep_result rep))))"

lemma submit_refines:
  assumes rep: "book_rep sha b Q" and typed: "order_typed ord"
  shows "\<exists>r b'. submit sha b ord = Some (r, b') \<and> book_inv sha b' \<and> bk_config b' = bk_config b \<and>
    submit_spec b ord = (r, clob_of b', bk_dedup b')"
proof (cases "dd_get (bk_dedup b) (no_account ord) (no_client_id ord)")
  case (Some cached)
  then show ?thesis
    using rep by (auto simp: submit_def submit_spec_def book_inv_def)
next
  case None
  obtain r b1 where b1: "execute_with_report sha b ord = Some (r, b1)" "book_inv sha b1" "kept b b1"
    "clob_execute (clob_of b) ord = (r, clob_of b1)"
    using execute_refines [OF rep typed] unfolding refines_def by blast
  obtain Q1 where Q1: "book_rep sha b1 Q1"
    using b1(2) by (auto simp: book_inv_def)
  have dd: "bk_dedup b1 = bk_dedup b" "bk_config b1 = bk_config b"
    using b1(3) by (simp_all add: kept_def)
  have wf: "dd_wf (bk_dedup b)"
    using rep by (simp add: book_rep_def)
  show ?thesis
  proof (cases r)
    case (Inl e)
    then show ?thesis
      using None b1 dd by (auto simp: submit_def submit_spec_def execute_def)
  next
    case (Inr rp)
    let ?d = "dd_insert (bk_dedup b) (no_account ord) (no_client_id ord) (rep_result rp)"
    have "book_rep sha (b1\<lparr>bk_dedup := ?d\<rparr>) Q1"
      using dd wf by (intro book_rep_dedup [OF Q1]) (simp_all add: dd_insert_capacity dd_insert_wf)
    then show ?thesis
      using None b1 dd Inr by (auto simp: submit_def submit_spec_def execute_def book_inv_def)
  qed
qed

lemma basket_apply_inv:
  assumes "book_inv sha snap" and "book_inv sha b" and "\<forall>leg\<in>set legs. order_typed leg"
  shows "\<exists>r b'. basket_apply sha snap legs out b = Some (r, b') \<and> book_inv sha b' \<and>
    (bk_config snap = bk_config b \<longrightarrow> bk_config b' = bk_config b) \<and> (\<forall>e. r = Err e \<longrightarrow> b' = snap)"
  using assms(2,3)
proof (induction legs arbitrary: out b)
  case Nil
  then show ?case by simp
next
  case (Cons leg legs)
  obtain Q where "book_rep sha b Q"
    using Cons.prems(1) by (auto simp: book_inv_def)
  then obtain r b1 where b1: "submit sha b leg = Some (r, b1)" "book_inv sha b1" "bk_config b1 = bk_config b"
    using submit_refines [of sha b Q leg] Cons.prems(2) by auto
  then show ?case
    using Cons.IH [OF b1(2)] Cons.prems(2) assms(1) by (cases r) auto
qed

section \<open>The state machine\<close>

datatype command =
    Submit new_order
  | Place new_order
  | Cancel order_id
  | CancelAll account_id
  | Replace order_id price quantity
  | SubmitBasket "new_order list"
  | SetPosition account_id quantity

text \<open>The argument values the types of the entry points admit.\<close>

fun command_typed :: "command \<Rightarrow> bool" where
  "command_typed (Submit ord) \<longleftrightarrow> order_typed ord"
| "command_typed (Place ord) \<longleftrightarrow> order_typed ord"
| "command_typed (Cancel i) \<longleftrightarrow> True"
| "command_typed (CancelAll a) \<longleftrightarrow> True"
| "command_typed (Replace i p q) \<longleftrightarrow> i \<le> u64_max \<and> fits I64 p \<and> fits I64 q"
| "command_typed (SubmitBasket legs) \<longleftrightarrow> (\<forall>leg\<in>set legs. order_typed leg)"
| "command_typed (SetPosition a q) \<longleftrightarrow> a \<le> u32_max \<and> fits I64 q"

fun apply_command :: "sha256 \<Rightarrow> order_book \<Rightarrow> command \<Rightarrow> order_book option" where
  "apply_command sha b (Submit ord) = map_option snd (submit sha b ord)"
| "apply_command sha b (Place ord) = map_option snd (place sha b ord)"
| "apply_command sha b (Cancel i) = map_option snd (cancel sha b i)"
| "apply_command sha b (CancelAll a) = map_option snd (cancel_all sha b a)"
| "apply_command sha b (Replace i p q) = map_option snd (replace sha b i p q)"
| "apply_command sha b (SubmitBasket legs) = map_option snd (submit_basket sha b legs)"
| "apply_command sha b (SetPosition a q) = Some (set_position b a q)"

text \<open>The configurations the theorems are about. The three limits are \<open>usize\<close> in the code. A resting order is
  addressed by a \<open>u32\<close> slot and \<open>u32::MAX\<close> is the sentinel for no slot, so the capacity is at most
  \<open>u32::MAX\<close>; \<open>OrderBook::new\<close> does not refuse a larger one, the state codec does.\<close>

definition config_addressable :: "book_config \<Rightarrow> bool" where
  "config_addressable cfg \<longleftrightarrow> cfg_capacity cfg \<le> u32_max \<and> cfg_dedup_capacity cfg \<le> u64_max \<and>
     cfg_max_basket_legs cfg \<le> u64_max"

inductive reachable :: "sha256 \<Rightarrow> book_config \<Rightarrow> order_book \<Rightarrow> bool" for sha cfg where
  reach_new: "reachable sha cfg (book_new cfg)"
| reach_step: "reachable sha cfg b \<Longrightarrow> command_typed c \<Longrightarrow> apply_command sha b c = Some b' \<Longrightarrow> reachable sha cfg b'"

inductive_cases reachable_stepE: "reachable sha cfg b"

section \<open>The invariant\<close>

lemma book_new_rep:
  assumes "cfg_capacity cfg \<le> u32_max"
  shows "book_rep sha (book_new cfg) (\<lambda>_ _. [])"
proof -
  have "contents (with_capacity (cfg_capacity cfg)) = (\<lambda>_. None)"
    by (simp add: contents_def slab_get_def with_capacity_def fun_eq_iff)
  moreover have "side_rep (with_capacity (cfg_capacity cfg)) sd (side_of sd (book_new cfg)) (\<lambda>_. [])" for sd
    by (cases sd) (simp_all add: side_rep_def side_of_def book_new_def side_new_def queue_ok_def level_ok_def)
  moreover have "capacity (with_capacity n :: node slab) = n" "dd_capacity (dd_with_capacity n) = n" for n
    by (simp_all add: with_capacity_def dd_with_capacity_def)
  ultimately show ?thesis
    using slab_wf_with_capacity [OF assms, where ?'a = node]
    by (simp add: book_rep_def book_new_def live_orders_def queued_def uncrossed_def index_ok_empty
        accounts_ok_empty order_xor_empty dd_wf_with_capacity)
qed

lemma refines_inv:
  "refines sha b res spec \<Longrightarrow> \<exists>r b'. res = Some (r, b') \<and> book_inv sha b' \<and> bk_config b' = bk_config b"
  by (auto simp: refines_def kept_def)

text \<open>Every command returns and keeps the invariant.\<close>

lemma command_inv:
  assumes inv: "book_inv sha b" and typed: "command_typed c"
  shows "\<exists>b'. apply_command sha b c = Some b' \<and> book_inv sha b' \<and> bk_config b' = bk_config b"
proof -
  obtain Q where rep: "book_rep sha b Q"
    using inv by (auto simp: book_inv_def)
  show ?thesis
  proof (cases c)
    case (Submit ord)
    then show ?thesis
      using submit_refines [OF rep, of ord] typed by auto
  next
    case (Place ord)
    then show ?thesis
      using refines_inv [OF execute_refines [OF rep, of ord]] typed by (auto simp: place_def place_with_report_def)
  next
    case (Cancel i)
    then show ?thesis
      using refines_inv [OF cancel_refines [OF rep, of i]] by auto
  next
    case (CancelAll a)
    then show ?thesis
      using refines_inv [OF cancel_all_refines [OF rep, of a]] by auto
  next
    case (Replace i p q)
    then show ?thesis
      using refines_inv [OF replace_refines [OF rep, of i p q]] typed by (auto simp: replace_def)
  next
    case (SubmitBasket legs)
    then show ?thesis
      using basket_apply_inv [OF inv inv, of legs "[]"] typed inv by (auto simp: submit_basket_def split: sum.split)
  next
    case (SetPosition a q)
    then show ?thesis
      using book_rep_position [OF rep, of q a] typed by (auto simp: book_inv_def set_position_def)
  qed
qed

lemma reachable_inv:
  assumes "reachable sha cfg b" and "cfg_capacity cfg \<le> u32_max"
  shows "book_inv sha b \<and> bk_config b = cfg"
  using assms
proof (induction rule: reachable.induct)
  case reach_new
  then show ?case
    using book_new_rep by (auto simp: book_inv_def book_new_def)
next
  case (reach_step b c b')
  then show ?case
    using command_inv [of sha b c] by auto
qed

end
