(* ===== verification/Unchanged.thy ===== *)
theory Unchanged
  imports Reachable
begin

text \<open>
  A command that fails leaves the book bit for bit as it was: not only the resting orders, but the
  slab with its free list, the links and every index. The abstract book cannot say this, so these
  lemmas are about the representation itself.
\<close>

text \<open>Matching changes the book only when it records a fill or a cancellation.\<close>

definition grows :: "match_state \<Rightarrow> match_state \<Rightarrow> bool" where
  "grows st st' \<longleftrightarrow>
     length (m_fills st) \<le> length (m_fills st') \<and> length (m_stp st) \<le> length (m_stp st') \<and>
     (length (m_fills st) = length (m_fills st') \<and> length (m_stp st) = length (m_stp st') \<longrightarrow> m_book st' = m_book st)"

lemma grows_refl [simp]: "grows st st"
  by (simp add: grows_def)

lemma grows_trans: "grows a b \<Longrightarrow> grows b c \<Longrightarrow> grows a c"
  by (auto simp: grows_def)

lemma grows_longer:
  "grows st1 st' \<Longrightarrow> length (m_fills st) + length (m_stp st) < length (m_fills st1) + length (m_stp st1) \<Longrightarrow>
   length (m_fills st) \<le> length (m_fills st1) \<Longrightarrow> length (m_stp st) \<le> length (m_stp st1) \<Longrightarrow> grows st st'"
  by (auto simp: grows_def)

lemma match_level_grows:
  assumes "match_level sha taker opp st = Some y"
  shows "grows st (snd y)"
proof (rule match_level.raw_induct [where P = "\<lambda>sha taker opp st y. grows st (snd y)", OF _ assms], goal_cases)
  case (1 f sha taker opp st y)
  have rec: "grows st (snd y)"
    if "f sha taker opp st1 = Some y" "length (m_fills st) + length (m_stp st) < length (m_fills st1) + length (m_stp st1)"
      "length (m_fills st) \<le> length (m_fills st1)" "length (m_stp st) \<le> length (m_stp st1)" for st1
    using 1(1) [OF that(1)] that(2-4) by (rule grows_longer)
  show ?case
    using 1(2)
    by (auto simp: Let_def bind_eq_Some_conv grows_def
        split: if_splits option.splits stp_policy.splits
        dest!: rec [unfolded grows_def])
qed

lemma match_loop_grows:
  assumes "match_loop sha taker mkt st = Some y"
  shows "grows st (snd y)"
proof (rule match_loop.raw_induct [where P = "\<lambda>sha taker mkt st y. grows st (snd y)", OF _ assms], goal_cases)
  case (1 f sha taker mkt st y)
  show ?case
    using 1(2)
    by (auto simp: bind_eq_Some_conv split: if_splits option.splits level_exit.splits
        dest!: match_level_grows 1(1) intro: grows_trans) (metis level_exit.exhaust)
qed

lemma run_match_unchanged:
  "run_match sha b taker mkt q = Some (stopped, st) \<Longrightarrow> m_fills st = [] \<Longrightarrow> m_stp st = [] \<Longrightarrow> m_book st = b"
  using match_loop_grows [of sha taker mkt "\<lparr>m_book = b, m_remaining = q, m_fills = [], m_stp = []\<rparr>" "(stopped, st)"]
  by (simp add: run_match_def grows_def)

lemma rest_order_Err_unchanged:
  assumes "book_rep sha b Q" and "rest_order sha b ord q = Some (Err e, b')"
  shows "b' = b"
proof (cases "fits I64 (level_total (side_of (no_side ord) b) (no_price ord) + q)")
  case False
  then show ?thesis
    using assms(2) by (simp add: rest_order_overflow)
next
  case True
  have "\<not> live (bk_slab b) < capacity (bk_slab b)"
  proof
    assume room: "live (bk_slab b) < capacity (bk_slab b)"
    obtain slot sl where "slab_insert (bk_slab b) (node_new ord q) = Some (Ok slot, sl)"
      using sl.insert_space [OF book_rep_wf [OF assms(1)] room] by blast
    then show False
      using assms(2) True
      by (auto simp: rest_order_def scalar_checked_add_def prim_checked_def ok_or_def Let_def bind_eq_Some_conv
          split: option.splits)
  qed
  then have "live (bk_slab b) = capacity (bk_slab b)"
    using sl.len_le_cap [OF book_rep_wf [OF assms(1)]] by simp
  then show ?thesis
    using rest_order_full [OF book_rep_wf [OF assms(1)] _ True] assms(2) by simp
qed

lemma traded_positive:
  "\<forall>f\<in>set fs. 0 < fill_quantity f \<Longrightarrow> fs \<noteq> [] \<Longrightarrow> 0 < traded fs"
proof (induction fs)
  case (Cons f fs)
  then show ?case by (cases "fs = []") auto
qed simp

lemma settle_Err_unchanged:
  assumes rep: "book_rep sha b Q" and qty: "fits I64 qty" "0 < qty"
    and run: "run_match sha b ord mkt qty = Some (stopped, st)"
    and settle: "settle_residual sha ord mkt qty stopped st = Some (Err e, b')"
  shows "b' = b"
proof -
  let ?ms = "maker_list b Q (opposite (no_side ord))"
  define r where "r = spec_match (cfg_stp (bk_config b)) ord mkt qty ?ms"
  obtain Q1 where Q1: "book_rep sha (m_book st) Q1"
    "r = spec_of stopped st (maker_list (m_book st) Q1 (opposite (no_side ord)))"
    using run_match_refines [OF rep qty(1), of ord mkt] run unfolding r_def by auto
  have ok: "\<forall>m\<in>set ?ms. 0 < nd_remaining m"
    using rep by (rule makers_ok_rep)
  have view: "sp_fills r = m_fills st" "sp_remaining r = m_remaining st"
    using Q1(2) by (simp_all add: spec_of_def)
  have sum: "traded (m_fills st) + m_remaining st = qty"
    using spec_conserves_taker [of "cfg_stp (bk_config b)" ord mkt qty ?ms] unfolding r_def [symmetric] view .
  have rem: "0 \<le> m_remaining st" "m_remaining st \<le> qty"
    using spec_remaining_bounds [of qty ?ms "cfg_stp (bk_config b)" ord mkt] ok qty(2)
    unfolding r_def [symmetric] view by simp_all
  have "fits I64 (qty - m_remaining st)"
    by (rule fits_nonneg_le [OF qty(1)]) (use rem in simp_all)
  then have filled: "scalar_saturating_sub I64 qty (m_remaining st) = traded (m_fills st)"
    using sum by (simp add: scalar_saturating_sub_def prim_saturate_id)
  have rest: "rest_order sha (m_book st) ord (m_remaining st) = Some (Err e, b')" "m_stp st = []" "\<not> 0 < traded (m_fills st)"
    using settle by (auto simp: settle_residual_def Let_def filled split: if_splits option.splits sum.splits)
  have "\<forall>f\<in>set (m_fills st). 0 < fill_quantity f"
    using spec_fill_facts [OF ok, of _ "cfg_stp (bk_config b)" ord mkt qty]
    unfolding r_def [symmetric] view by blast
  then have "m_fills st = []"
    using traded_positive rest(3) by blast
  then have "m_book st = b"
    using run_match_unchanged [OF run] rest(2) by simp
  then show ?thesis
    using rest_order_Err_unchanged [OF rep] rest(1) by simp
qed

lemma execute_Err_unchanged:
  assumes rep: "book_rep sha b Q" and typed: "order_typed ord"
    and run: "execute_with_report sha b ord = Some (Err e, b')"
  shows "b' = b"
proof (cases "no_quantity ord \<le> 0 \<or> no_order_type ord \<noteq> Market \<and> no_price ord \<le> 0 \<or> book_contains b (no_order_id ord)")
  case True
  then show ?thesis
    using run execute_guarded [OF True] by simp
next
  case False
  show ?thesis
  proof (cases "reduce_clamp b ord")
    case None
    then show ?thesis
      using run False by (auto simp: execute_with_report_def Let_def)
  next
    case (Some qty)
    have open_run: "execute_open sha b ord qty = Some (Err e, b')"
      using run execute_open_eq [of ord b qty sha] False Some by auto
    have qty: "0 < qty" "fits I64 qty"
      using clob_clamp_rep [OF rep, of ord] clamp_positive [of "clob_of b" ord qty] False Some typed
      by (auto simp: order_typed_def intro: fits_nonneg_le [of I64 "no_quantity ord"])
    show ?thesis
    proof (cases "no_order_type ord = PostOnly")
      case True
      then have "rest_order sha b ord qty = Some (Err e, b')"
        using open_run by (auto simp: execute_open_def clob_rejected_def bind_eq_Some_conv and_then_Inl_iff split: if_splits)
      then show ?thesis
        by (rule rest_order_Err_unchanged [OF rep])
    next
      case other: False
      then obtain stopped st where "run_match sha b ord (no_order_type ord = Market) qty = Some (stopped, st)"
        "settle_residual sha ord (no_order_type ord = Market) qty stopped st = Some (Err e, b')"
        using open_run by (auto simp: execute_open_def clob_rejected_def bind_eq_Some_conv split: if_splits)
      then show ?thesis
        by (rule settle_Err_unchanged [OF rep qty(2,1)])
    qed
  qed
qed

text \<open>A replacement that gets past its pre-check cannot fail, so the original is never lost to an error.\<close>

lemma replace_Err_unchanged:
  assumes rep: "book_rep sha b Q" and typed: "i \<le> u64_max" "fits I64 p" "fits I64 q"
    and run: "replace_with_report sha b i p q = Some (Err e, b')"
  shows "b' = b"
proof (cases "q \<le> 0 \<or> p \<le> 0 \<or> omap_get (bk_id_index b) i = None")
  case True
  then show ?thesis
    using run by (auto simp: replace_with_report_def split: if_splits)
next
  case False
  then obtain loc where loc: "omap_get (bk_id_index b) i = Some loc" and pos: "0 < q" "0 < p" by auto
  obtain b1 Q1 n where b1: "remove_resting sha b (loc_side loc) (loc_slot loc) = Some b1" "book_rep sha b1 Q1"
    "clob_of b1 = clob_drop (\<lambda>m. nd_order_id m = i) (clob_of b)"
    and n: "slab_get (bk_slab b) (loc_slot loc) = Some n" "nd_order_id n = i"
    by (rule remove_located [OF rep loc])
  show ?thesis
  proof (cases "replace_precheck b n p q")
    case (Inl e')
    then show ?thesis
      using run loc pos n(1) by (simp add: replace_with_report_def)
  next
    case (Inr u)
    have "refines sha b (replace_with_report sha b i p q) (clob_replace (clob_of b) i p q)"
      using rep typed by (rule replace_refines)
    then have "fst (clob_replace (clob_of b) i p q) = Err e"
      using run by (auto simp: refines_def)
    then have "fst (clob_execute (clob_of b1) (replacement i n p q)) = Err e"
      using pos loc n(1) by (auto simp: clob_replace_def clob_find_rep [OF rep] live_orders_get b1(3)
          split: prod.splits sum.splits)
    moreover have "\<exists>r c'. clob_execute (clob_of b1) (replacement i n p q) = (Ok r, c')"
      using replaced_executes [OF rep loc b1(1,2,3) n pos] Inr by simp
    ultimately show ?thesis by auto
  qed
qed

lemma basket_Err_unchanged:
  assumes "book_inv sha b" and "\<forall>leg\<in>set legs. order_typed leg" and "submit_basket sha b legs = Some (Err e, b')"
  shows "b' = b"
  using basket_apply_inv [OF assms(1,1,2), of "[]"] assms(3)
  by (auto simp: submit_basket_def split: if_splits sum.splits)

end
