(* ===== verification/ClobLaws.thy ===== *)
theory ClobLaws
  imports Unchanged
begin

text \<open>
  What the abstract commands guarantee: the ways an order can end, and for each of them what was
  traded, what is left on the book, and in which order the makers were taken.
\<close>

section \<open>How an order ends\<close>

lemma clob_rest_Ok:
  assumes "clob_rest c ord q = (Ok u, c')"
  shows "c' = c\<lparr>cl_orders := (cl_orders c)(no_side ord := spec_rest (node_new ord q) (cl_orders c (no_side ord)))\<rparr>"
    and "clob_count c < cfg_capacity (cl_config c)" and "fits I64 (clob_level c (no_side ord) (no_price ord) + q)"
  using assms by (auto simp: clob_rest_def Let_def split: if_splits)

text \<open>The book after matching, before the residual is settled.\<close>

definition clob_matched :: "clob \<Rightarrow> new_order \<Rightarrow> match_spec \<Rightarrow> clob" where
  "clob_matched c ord r = c\<lparr>cl_orders := (cl_orders c)(opposite (no_side ord) := sp_makers r)\<rparr>"

lemma clob_matched_fields [simp]:
  "cl_config (clob_matched c ord r) = cl_config c" "cl_position (clob_matched c ord r) = cl_position c"
  "cl_orders (clob_matched c ord r) = (cl_orders c)(opposite (no_side ord) := sp_makers r)"
  by (simp_all add: clob_matched_def)

lemma clob_settle_cases:
  assumes "clob_settle c ord qty r = (Ok rep, c')"
  obtains (full) "sp_remaining r = 0" "rep = report (sp_fills r) FullyFilled (sp_stp r)" "c' = clob_matched c ord r"
  | (cancelled) "sp_remaining r \<noteq> 0" "c' = clob_matched c ord r"
      "rep = report (sp_fills r) (if sp_remaining r < qty then PartiallyFilledCancelled (qty - sp_remaining r)
         else Rejected) (sp_stp r)"
  | (rests) "sp_remaining r \<noteq> 0" "no_order_type ord \<noteq> Market" "no_tif ord = Gtc" "\<not> sp_stopped r"
      "clob_rest (clob_matched c ord r) ord (sp_remaining r) = (Ok (), c')"
      "rep = report (sp_fills r) (if sp_remaining r < qty then PartiallyFilledResting (sp_remaining r)
         else Resting (sp_remaining r)) (sp_stp r)"
  using assms clob_rest_Err [of "clob_matched c ord r" ord "sp_remaining r"]
  by (auto simp: clob_settle_def Let_def clob_matched_def [symmetric] split: if_splits prod.splits sum.splits)

lemma clob_execute_cases:
  assumes "clob_execute c ord = (Ok rep, c')"
  obtains (rejected) "rep = report [] Rejected []" "c' = c" "\<not> clob_has c (no_order_id ord)"
  | (posted) qty where "no_order_type ord = PostOnly" "clob_clamp c ord = Some qty" "0 < no_quantity ord"
      "\<not> clob_has c (no_order_id ord)"
      "clob_rest c ord qty = (Ok (), c')" "rep = report [] (Resting qty) []"
  | (matched) qty r where "no_order_type ord \<noteq> PostOnly" "clob_clamp c ord = Some qty" "0 < no_quantity ord"
      "\<not> clob_has c (no_order_id ord)"
      "r = spec_match (cfg_stp (cl_config c)) ord (no_order_type ord = Market) qty (cl_orders c (opposite (no_side ord)))"
      "no_tif ord = Fok \<Longrightarrow> sp_remaining r = 0" "clob_settle c ord qty r = (Ok rep, c')"
  using assms
  by (auto simp: clob_execute_def clob_rejected_def Let_def split: if_splits option.splits prod.splits sum.splits)

section \<open>Quantities\<close>

definition clob_side_quantity :: "clob \<Rightarrow> side \<Rightarrow> quantity" where
  "clob_side_quantity c sd = sum_list (map nd_remaining (cl_orders c sd))"

text \<open>Fills and outcome account for the whole admitted quantity.\<close>

definition outcome_truthful :: "quantity \<Rightarrow> match_report \<Rightarrow> bool" where
  "outcome_truthful qty rep \<longleftrightarrow>
     (let t = traded (mr_fills (rep_result rep)) in
      case mr_outcome (rep_result rep) of
        FullyFilled \<Rightarrow> t = qty
      | Resting r \<Rightarrow> mr_fills (rep_result rep) = [] \<and> r = qty
      | PartiallyFilledResting r \<Rightarrow> 0 < t \<and> 0 < r \<and> t + r = qty
      | PartiallyFilledCancelled f \<Rightarrow> 0 < t \<and> t < qty \<and> f = t
      | Rejected \<Rightarrow> mr_fills (rep_result rep) = [])"

lemma report_fields [simp]:
  "rep_result (report fs oc stp) = \<lparr>mr_fills = fs, mr_outcome = oc\<rparr>" "rep_stp_cancelled (report fs oc stp) = stp"
  by (simp_all add: report_def)

lemma spec_no_fills:
  assumes "makers_ok ms" and "\<not> sp_remaining (spec_match stp t mkt rem ms) < rem"
  shows "sp_fills (spec_match stp t mkt rem ms) = []"
proof (rule ccontr)
  assume "sp_fills (spec_match stp t mkt rem ms) \<noteq> []"
  then have "0 < traded (sp_fills (spec_match stp t mkt rem ms))"
    using spec_fill_facts [OF assms(1)] by (intro traded_positive) blast+
  then show False
    using spec_conserves_taker [of stp t mkt rem ms] assms(2) by simp
qed

lemma clob_settle_truthful:
  assumes r: "r = spec_match stp ord mkt qty ms" and ok: "makers_ok ms" and qty: "0 < qty"
    and run: "clob_settle c ord qty r = (Ok rep, c')"
  shows "outcome_truthful qty rep"
proof -
  have cons: "traded (sp_fills r) + sp_remaining r = qty"
    using r spec_conserves_taker [of stp ord mkt qty ms] by simp
  have bounds: "0 \<le> sp_remaining r" "sp_remaining r \<le> qty"
    using r spec_remaining_bounds [OF _ ok, of qty stp ord mkt] qty by simp_all
  have none: "sp_fills r = []" if "\<not> sp_remaining r < qty"
    using r spec_no_fills [OF ok] that by simp
  show ?thesis
    using run
    by (cases rule: clob_settle_cases)
      (use cons bounds none in \<open>auto simp: outcome_truthful_def\<close>)
qed

lemma clob_outcome_truthful:
  assumes "clob_execute c ord = (Ok rep, c')" and ok: "makers_ok (cl_orders c (opposite (no_side ord)))"
  shows "mr_outcome (rep_result rep) = Rejected \<and> mr_fills (rep_result rep) = [] \<or>
    (\<exists>qty. clob_clamp c ord = Some qty \<and> outcome_truthful qty rep)"
  using assms(1)
proof (cases rule: clob_execute_cases)
  case (matched qty r)
  then show ?thesis
    using clob_settle_truthful [OF matched(5) ok _ matched(7)] clamp_positive [OF matched(2,3)] by blast
qed (auto simp: outcome_truthful_def)

lemma spec_rest_sum:
  "sum_list (map nd_remaining (spec_rest n ms)) = nd_remaining n + sum_list (map nd_remaining ms)"
proof -
  have "sum_list (map nd_remaining (filter (\<lambda>m. P m) ms)) + sum_list (map nd_remaining (filter (\<lambda>m. \<not> P m) ms)) =
      sum_list (map nd_remaining ms)" for P
    by (induction ms) auto
  from this [of "\<lambda>m. pkey (nd_side n) (nd_price m) \<le> pkey (nd_side n) (nd_price n)"]
  show ?thesis
    by (simp add: spec_rest_def Let_def not_le)
qed

lemma set_spec_rest [simp]: "set (spec_rest n ms) = insert n (set ms)"
  by (auto simp: spec_rest_def Let_def)

section \<open>What each ending leaves on the book\<close>

text \<open>The makers side only changes by matching; the taker side only by resting.\<close>

lemma clob_execute_makers:
  assumes "clob_execute c ord = (Ok rep, c')" and ok: "makers_ok (cl_orders c (opposite (no_side ord)))"
  shows "mr_fills (rep_result rep) = [] \<and> rep_stp_cancelled rep = [] \<and>
      cl_orders c' (opposite (no_side ord)) = cl_orders c (opposite (no_side ord)) \<or>
    (\<exists>qty r. clob_clamp c ord = Some qty \<and> no_order_type ord \<noteq> PostOnly \<and> 0 < qty \<and>
      r = spec_match (cfg_stp (cl_config c)) ord (no_order_type ord = Market) qty (cl_orders c (opposite (no_side ord))) \<and>
      mr_fills (rep_result rep) = sp_fills r \<and> rep_stp_cancelled rep = sp_stp r \<and>
      cl_orders c' (opposite (no_side ord)) = sp_makers r)"
  using assms(1)
proof (cases rule: clob_execute_cases)
  case (posted qty)
  then show ?thesis
    using clob_rest_Ok(1) [OF posted(5)] by simp
next
  case (matched qty r)
  have "mr_fills (rep_result rep) = sp_fills r \<and> rep_stp_cancelled rep = sp_stp r \<and>
      cl_orders c' (opposite (no_side ord)) = sp_makers r"
    using matched(7) by (cases rule: clob_settle_cases) (auto dest: clob_rest_Ok(1))
  then show ?thesis
    using matched clamp_positive [OF matched(2,3)] by blast
qed simp

lemma clob_execute_own:
  assumes "clob_execute c ord = (Ok rep, c')"
  shows "cl_orders c' (no_side ord) =
    (case mr_outcome (rep_result rep) of
       Resting r \<Rightarrow> spec_rest (node_new ord r) (cl_orders c (no_side ord))
     | PartiallyFilledResting r \<Rightarrow> spec_rest (node_new ord r) (cl_orders c (no_side ord))
     | _ \<Rightarrow> cl_orders c (no_side ord))"
  using assms
proof (cases rule: clob_execute_cases)
  case (posted qty)
  then show ?thesis
    using clob_rest_Ok(1) [OF posted(5)] by simp
next
  case (matched qty r)
  show ?thesis
    using matched(7) by (cases rule: clob_settle_cases) (auto dest: clob_rest_Ok(1))
qed simp

lemma clob_conserves_makers:
  assumes "clob_execute c ord = (Ok rep, c')" and ok: "makers_ok (cl_orders c (opposite (no_side ord)))"
  shows "clob_side_quantity c (opposite (no_side ord)) =
    clob_side_quantity c' (opposite (no_side ord)) + traded (mr_fills (rep_result rep)) +
    sum_list (map sc_remaining (rep_stp_cancelled rep))"
  using clob_execute_makers [OF assms]
    spec_conserves_makers [of "cl_orders c (opposite (no_side ord))" "cfg_stp (cl_config c)" ord "no_order_type ord = Market"]
  by (auto simp: clob_side_quantity_def)

lemma clob_fill_facts:
  assumes "clob_execute c ord = (Ok rep, c')" and ok: "makers_ok (cl_orders c (opposite (no_side ord)))"
    and "f \<in> set (mr_fills (rep_result rep))"
  shows "taker_order f = no_order_id ord \<and> taker_account f = no_account ord \<and> taker_side f = no_side ord \<and>
    maker_account f \<noteq> no_account ord \<and>
    crosses (no_side ord) (no_order_type ord = Market) (no_price ord) (fill_price f) \<and> 0 < fill_quantity f \<and>
    (\<exists>m\<in>set (cl_orders c (opposite (no_side ord))). maker_order f = nd_order_id m \<and> maker_account f = nd_account m \<and>
       fill_price f = nd_price m \<and> fill_quantity f \<le> nd_remaining m)"
  using clob_execute_makers [OF assms(1,2)]
proof (elim disjE exE conjE)
  fix qty r
  assume "r = spec_match (cfg_stp (cl_config c)) ord (no_order_type ord = Market) qty (cl_orders c (opposite (no_side ord)))"
    and "mr_fills (rep_result rep) = sp_fills r"
  then show ?thesis
    using spec_fill_facts [OF ok] assms(3) by simp
qed (use assms(3) in simp)

section \<open>Priority\<close>

text \<open>
  The makers an order takes are a prefix of the opposite side. All of the prefix leaves the book,
  except that its last maker may stay at the front with what was not traded.
\<close>

definition takes_prefix :: "account_id \<Rightarrow> fill list \<Rightarrow> node list \<Rightarrow> node list \<Rightarrow> bool" where
  "takes_prefix a fs ms ms' \<longleftrightarrow>
     (\<exists>taken rest. ms = taken @ rest \<and>
        map maker_order fs = map nd_order_id (filter (\<lambda>m. nd_account m \<noteq> a) taken) \<and>
        (ms' = rest \<and> map fill_quantity fs = map nd_remaining (filter (\<lambda>m. nd_account m \<noteq> a) taken) \<or>
         (\<exists>init m q. taken = init @ [m] \<and> nd_account m \<noteq> a \<and> 0 < q \<and> q < nd_remaining m \<and>
            ms' = m\<lparr>nd_remaining := nd_remaining m - q\<rparr> # rest \<and>
            map fill_quantity fs = map nd_remaining (filter (\<lambda>m. nd_account m \<noteq> a) init) @ [q])))"

lemma takes_prefix_none: "takes_prefix a [] ms ms"
  unfolding takes_prefix_def by (intro exI [of _ "[]"] exI [of _ ms]) simp

lemma takes_prefix_Cons:
  assumes "takes_prefix a fs ms ms'"
    and orders: "map maker_order gs = map nd_order_id (filter (\<lambda>m. nd_account m \<noteq> a) [m]) @ map maker_order fs"
    and quantities: "map fill_quantity gs = map nd_remaining (filter (\<lambda>m. nd_account m \<noteq> a) [m]) @ map fill_quantity fs"
  shows "takes_prefix a gs (m # ms) ms'"
proof -
  obtain taken rest where t: "ms = taken @ rest"
    "map maker_order fs = map nd_order_id (filter (\<lambda>m. nd_account m \<noteq> a) taken)"
    "ms' = rest \<and> map fill_quantity fs = map nd_remaining (filter (\<lambda>m. nd_account m \<noteq> a) taken) \<or>
         (\<exists>init m q. taken = init @ [m] \<and> nd_account m \<noteq> a \<and> 0 < q \<and> q < nd_remaining m \<and>
            ms' = m\<lparr>nd_remaining := nd_remaining m - q\<rparr> # rest \<and>
            map fill_quantity fs = map nd_remaining (filter (\<lambda>m. nd_account m \<noteq> a) init) @ [q])"
    using assms(1) unfolding takes_prefix_def by blast
  from t(3) show ?thesis
  proof (elim disjE exE conjE)
    assume "ms' = rest" "map fill_quantity fs = map nd_remaining (filter (\<lambda>m. nd_account m \<noteq> a) taken)"
    then show ?thesis
      unfolding takes_prefix_def using t(1,2) orders quantities
      by (intro exI [of _ "m # taken"] exI [of _ rest]) simp
  next
    fix init m' q
    assume "taken = init @ [m']" "nd_account m' \<noteq> a" "0 < q" "q < nd_remaining m'"
      "ms' = m'\<lparr>nd_remaining := nd_remaining m' - q\<rparr> # rest"
      "map fill_quantity fs = map nd_remaining (filter (\<lambda>m. nd_account m \<noteq> a) init) @ [q]"
    then show ?thesis
      unfolding takes_prefix_def using t(1,2) orders quantities
      by (intro exI [of _ "m # taken"] exI [of _ rest] conjI disjI2 exI [of _ "m # init"] exI [of _ m'] exI [of _ q])
        simp_all
  qed
qed

lemma takes_prefix_part:
  assumes "nd_account m \<noteq> a" and "maker_order f = nd_order_id m" and "fill_quantity f = q" and "0 < q" "q < nd_remaining m"
  shows "takes_prefix a [f] (m # ms) (m\<lparr>nd_remaining := nd_remaining m - q\<rparr> # ms)"
  unfolding takes_prefix_def using assms
  by (intro exI [of _ "[m]"] exI [of _ ms] conjI disjI2 exI [of _ "[]"] exI [of _ m] exI [of _ q]) simp_all

lemma spec_takes_prefix:
  "takes_prefix (no_account taker) (sp_fills (spec_match stp taker mkt rem ms)) ms
     (sp_makers (spec_match stp taker mkt rem ms))"
proof (induction stp taker mkt rem ms rule: spec_match.induct)
  case (2 stp taker mkt rem m ms)
  then show ?case
    by (cases stp)
      (auto simp: Let_def make_fill_def takes_prefix_none intro!: takes_prefix_part
        intro: takes_prefix_Cons takes_prefix_Cons [OF takes_prefix_none])
qed (simp add: takes_prefix_none)

lemma clob_takes_prefix:
  assumes "clob_execute c ord = (Ok rep, c')" and ok: "makers_ok (cl_orders c (opposite (no_side ord)))"
  shows "takes_prefix (no_account ord) (mr_fills (rep_result rep)) (cl_orders c (opposite (no_side ord)))
    (cl_orders c' (opposite (no_side ord)))"
  using clob_execute_makers [OF assms] takes_prefix_none spec_takes_prefix by fastforce

end
