(* ===== verification/BookExample.thy ===== *)
theory BookExample
  imports ClobLaws
begin

text \<open>
  A concrete reachable book: two asks of different accounts at one price and a bid below them. Its
  commands are evaluated on the abstract book, which the concrete one refines.
\<close>

section \<open>Commands on reachable books\<close>

lemma reachable_rep:
  assumes "reachable sha cfg b" and "config_addressable cfg"
  obtains Q where "book_rep sha b Q" and "bk_config b = cfg"
  using reachable_inv [OF assms(1)] assms(2) by (auto simp: config_addressable_def book_inv_def)

lemma reachable_place:
  assumes "reachable sha cfg b" and "config_addressable cfg" and "order_typed ord"
  obtains r b' where "place_with_report sha b ord = Some (r, b')" and "reachable sha cfg b'"
    and "kept b b'" and "clob_execute (clob_of b) ord = (r, clob_of b')"
proof -
  obtain Q where rep: "book_rep sha b Q"
    using assms(1,2) by (rule reachable_rep)
  then obtain r b' where b': "execute_with_report sha b ord = Some (r, b')" "book_inv sha b'" "kept b b'"
    "clob_execute (clob_of b) ord = (r, clob_of b')"
    using execute_refines [OF rep assms(3)] unfolding refines_def by blast
  have "apply_command sha b (Place ord) = Some b'"
    using b'(1) by (simp add: place_def place_with_report_def)
  then have "reachable sha cfg b'"
    using reachable.reach_step [of sha cfg b "Place ord" b'] assms(1,3) by simp
  then show ?thesis
    using b' by (intro that) (simp_all add: place_with_report_def)
qed

text \<open>The result of a command that was run, read off the abstract book.\<close>

lemma place_run:
  assumes "reachable sha cfg b" and "config_addressable cfg" and "order_typed ord"
    and "place_with_report sha b ord = Some (r, b')"
  shows "clob_execute (clob_of b) ord = (r, clob_of b')" and "reachable sha cfg b'"
  using reachable_place [OF assms(1-3)] assms(4) by auto

section \<open>The example\<close>

definition sha0 :: sha256 where "sha0 = (\<lambda>_. 0)"

definition cfg0 :: book_config where
  "cfg0 = \<lparr>cfg_capacity = 4, cfg_stp = CancelMaker, cfg_dedup_capacity = 2, cfg_max_basket_legs = 2,
           cfg_matching_backend = Scalar\<rparr>"

definition limit_order :: "order_id \<Rightarrow> account_id \<Rightarrow> side \<Rightarrow> price \<Rightarrow> quantity \<Rightarrow> new_order" where
  "limit_order i a sd p q =
     \<lparr>no_order_id = i, no_account = a, no_side = sd, no_order_type = Limit, no_tif = Gtc, no_price = p,
      no_quantity = q, no_client_id = i, no_reduce_only = False\<rparr>"

definition clob0 :: clob where
  "clob0 = \<lparr>cl_config = cfg0,
     cl_orders = (\<lambda>sd. case sd of
       Bid \<Rightarrow> [node_new (limit_order 3 3 Bid 90 4) 4]
     | Ask \<Rightarrow> [node_new (limit_order 1 1 Ask 100 5) 5, node_new (limit_order 2 2 Ask 100 5) 5]),
     cl_position = (\<lambda>_. 0)\<rparr>"

lemma config_addressable0 [simp]: "config_addressable cfg0"
  by (simp add: config_addressable_def cfg0_def u32_max_def u64_max_def)

lemma limit_order_typed [simp]:
  "i \<le> u32_max \<Longrightarrow> a \<le> u32_max \<Longrightarrow> fits I64 p \<Longrightarrow> fits I64 q \<Longrightarrow> order_typed (limit_order i a sd p q)"
  by (simp add: order_typed_def limit_order_def u32_max_def u64_max_def)

lemma clob_of_new: "clob_of (book_new cfg0) = \<lparr>cl_config = cfg0, cl_orders = (\<lambda>_. []), cl_position = (\<lambda>_. 0)\<rparr>"
proof -
  have "book_rep sha0 (book_new cfg0) (\<lambda>_ _. [])"
    by (rule book_new_rep) (simp add: cfg0_def u32_max_def)
  then have "book_orders (book_new cfg0) = (\<lambda>_. [])"
    using book_orders_rep by (fastforce simp: maker_list_def flat_def price_list_def split: side.splits)
  then show ?thesis
    by (simp add: clob_of_def position_def book_new_def fun_eq_iff)
qed

lemmas clob_eval = clob_execute_def clob_rest_def clob_settle_def clob_clamp_def clob_has_def clob_count_def
  clob_level_def clob_crosses_def clob_rejected_def spec_rest_def node_new_def limit_order_def pkey_def crosses_def
  make_fill_def stp_cancel_def fits_def Let_def

lemma cfg0_fields [simp]:
  "cfg_capacity cfg0 = 4" "cfg_stp cfg0 = CancelMaker" "cfg_dedup_capacity cfg0 = 2" "cfg_max_basket_legs cfg0 = 2"
  by (simp_all add: cfg0_def)

text \<open>The states on the way.\<close>

definition clob_asks :: "node list \<Rightarrow> clob" where
  "clob_asks ns = \<lparr>cl_config = cfg0, cl_orders = (\<lambda>_. [])(Ask := ns), cl_position = (\<lambda>_. 0)\<rparr>"

lemma example_step:
  assumes "reachable sha0 cfg0 b" and "clob_of b = c" and "order_typed ord" and "snd (clob_execute c ord) = c'"
  shows "\<exists>b'. reachable sha0 cfg0 b' \<and> clob_of b' = c'"
  using reachable_place [OF assms(1) config_addressable0 assms(3)] assms(2,4) by (metis snd_conv)

lemma example_reachable: "\<exists>b. reachable sha0 cfg0 b \<and> clob_of b = clob0"
proof -
  let ?n1 = "node_new (limit_order 1 1 Ask 100 5) 5" and ?n2 = "node_new (limit_order 2 2 Ask 100 5) 5"
  have typed: "order_typed (limit_order 1 1 Ask 100 5)" "order_typed (limit_order 2 2 Ask 100 5)"
    "order_typed (limit_order 3 3 Bid 90 4)"
    by (simp_all add: u32_max_def fits_def)
  have "clob_of (book_new cfg0) = clob_asks []"
    by (simp add: clob_of_new clob_asks_def fun_eq_iff)
  moreover have "snd (clob_execute (clob_asks []) (limit_order 1 1 Ask 100 5)) = clob_asks [?n1]"
    by (simp add: clob_eval clob_asks_def fun_eq_iff)
  ultimately obtain b1 where b1: "reachable sha0 cfg0 b1" "clob_of b1 = clob_asks [?n1]"
    using example_step [OF reachable.reach_new _ typed(1)] by blast
  have "snd (clob_execute (clob_asks [?n1]) (limit_order 2 2 Ask 100 5)) = clob_asks [?n1, ?n2]"
    by (simp add: clob_eval clob_asks_def fun_eq_iff)
  then obtain b2 where b2: "reachable sha0 cfg0 b2" "clob_of b2 = clob_asks [?n1, ?n2]"
    using example_step [OF b1 typed(2)] by blast
  have "snd (clob_execute (clob_asks [?n1, ?n2]) (limit_order 3 3 Bid 90 4)) = clob0"
    by (simp add: clob_eval clob_asks_def clob0_def fun_eq_iff split: side.split)
  then show ?thesis
    using example_step [OF b2 typed(3)] by blast
qed

end
