(* ===== verification/BookQueries.thy ===== *)
theory BookQueries
  imports BookExample "HOL-Library.Multiset"
begin

text \<open>
  What the read-only queries of the book return: the incremental state root against the full
  rebuild, resting quantities, lookups by id, best prices.
\<close>

unbundle bit_operations_syntax

section \<open>The canonical walk\<close>

definition canonical_slots :: "side_book \<Rightarrow> (price \<Rightarrow> nat list) \<Rightarrow> nat list" where
  "canonical_slots sb Q = concat (map Q (omap_keys (sb_levels sb)))"

lemma canonical_levels_rep:
  assumes rep: "side_rep sl sd sb Q" and wf: "slab_wf sl" and sub: "set ls \<subseteq> set (entries (sb_levels sb))"
  shows "canonical_levels sl ls = Some (map (\<lambda>x. the (slab_get sl x)) (concat (map Q (map fst ls))))"
  using sub
proof (induction ls)
  case (Cons l ls)
  obtain p lv where l: "l = (p, lv)" by fastforce
  have "(p, lv) \<in> set (levels_best_first sb)"
    using Cons.prems l by (simp add: levels_best_first_def split: side.split)
  then have head: "lv_head lv = first_of (Q p) NIL"
    by (rule levels_best_first_head(2) [OF rep])
  have q: "queue_ok sl sd p (Q p)"
    using rep by (rule side_rep_queue)
  have "chain_nodes sl (lv_head lv) = Some (map (\<lambda>x. the (slab_get sl x)) (Q p))"
    using q chain_nodes_linked [of sl NIL "Q p"] queue_no_NIL [OF wf q] by (simp add: head queue_ok_def)
  then show ?case
    using Cons l by simp
qed simp

lemma side_canonical_rep:
  assumes "side_rep sl sd sb Q" and "slab_wf sl"
  shows "side_canonical sb sl = Some (map (\<lambda>x. the (slab_get sl x)) (canonical_slots sb Q))"
  using canonical_levels_rep [OF assms, of "entries (sb_levels sb)"]
  by (simp add: side_canonical_def canonical_slots_def omap_keys_def)

lemma mset_concat_rev: "mset (concat (map f (rev xs))) = mset (concat (map f xs))"
  by (induction xs) (simp_all add: ac_simps)

lemma live_payload: "x \<in> dom (live_orders b) \<Longrightarrow> the (live_orders b x) = payload (the (slab_get (bk_slab b) x))"
  by (auto simp: live_orders_def contents_def)

lemma canonical_slots_flat:
  assumes "side_rep sl sd sb Q"
  shows "mset (canonical_slots sb Q) = mset (flat sd Q)"
proof -
  have "sb_side sb = sd"
    using assms by (simp add: side_rep_def)
  then have "price_list sd {p. Q p \<noteq> []} = (case sd of Ask \<Rightarrow> omap_keys (sb_levels sb) | Bid \<Rightarrow> rev (omap_keys (sb_levels sb)))"
    using levels_best_first_keys [OF assms] levels_keys [of sb] by simp
  then show ?thesis
    by (cases sd) (simp_all add: canonical_slots_def flat_def mset_concat_rev)
qed

lemma slots_live:
  assumes rep: "book_rep sha b Q"
  defines "xs \<equiv> canonical_slots (bk_bids b) (Q Bid) @ canonical_slots (bk_asks b) (Q Ask)"
  shows "mset xs = mset (flat Bid (Q Bid) @ flat Ask (Q Ask))" and "distinct xs" and "set xs = dom (live_orders b)"
proof -
  have sides: "side_rep (bk_slab b) Bid (bk_bids b) (Q Bid)" "side_rep (bk_slab b) Ask (bk_asks b) (Q Ask)"
    using book_rep_side [OF rep, of Bid] book_rep_side [OF rep, of Ask] by (simp_all add: side_of_def)
  show ms: "mset xs = mset (flat Bid (Q Bid) @ flat Ask (Q Ask))"
    by (simp add: xs_def canonical_slots_flat [OF sides(1)] canonical_slots_flat [OF sides(2)])
  have mem: "x \<in> set (flat sd (Q sd)) \<longleftrightarrow> (\<exists>p. x \<in> set (Q sd p))" for x sd
    using set_flat [OF book_rep_finite_side [OF rep]] .
  have "set (flat Bid (Q Bid)) \<inter> set (flat Ask (Q Ask)) = {}"
    unfolding disjoint_iff mem using other_side_slots [OF rep, of _ Bid _ _ Ask] by blast
  then have "distinct (flat Bid (Q Bid) @ flat Ask (Q Ask))"
    using flat_distinct_rep [OF sides(1)] flat_distinct_rep [OF sides(2)] by simp
  then show "distinct xs"
    using mset_eq_imp_distinct_iff [OF ms] by simp
  have "queued Q = set (flat Bid (Q Bid)) \<union> set (flat Ask (Q Ask))"
    by (auto simp: queued_def mem ex_side)
  then show "set xs = dom (live_orders b)"
    using mset_eq_setD [OF ms] rep by (simp add: book_rep_def)
qed

section \<open>The state root\<close>

lemma fold_xor: "fold (\<lambda>n acc. acc XOR f n) ns h = h XOR xor_all (map f ns)"
  by (induction ns arbitrary: h) (simp_all add: ac_simps)

lemma rebuild_root:
  assumes rep: "book_rep sha b Q"
  shows "state_root_full_rebuild sha b = Some (state_root sha b)"
proof -
  let ?f = "\<lambda>x. the (slab_get (bk_slab b) x)"
  let ?xs = "canonical_slots (bk_bids b) (Q Bid) @ canonical_slots (bk_asks b) (Q Ask)"
  have sides: "side_rep (bk_slab b) Bid (bk_bids b) (Q Bid)" "side_rep (bk_slab b) Ask (bk_asks b) (Q Ask)"
    using book_rep_side [OF rep, of Bid] book_rep_side [OF rep, of Ask] by (simp_all add: side_of_def)
  have leaf: "order_leaf sha (the (live_orders b x)) = order_leaf sha (?f x)" if "x \<in> set ?xs" for x
    using that live_payload [of x b] unfolding slots_live(3) [OF rep] by simp
  have "xor_all (map (order_leaf sha) (map ?f ?xs)) = xor_all (map (\<lambda>x. order_leaf sha (the (live_orders b x))) ?xs)"
    unfolding map_map comp_def using leaf by (intro arg_cong [where f = xor_all] map_cong) simp_all
  also have "\<dots> = bk_order_leaf_xor b"
    using order_xor_list [OF slots_live(2,3) [OF rep]] rep by (simp add: book_rep_def)
  finally show ?thesis
    by (simp add: state_root_full_rebuild_def state_root_def fold_xor xor_all_append
        side_canonical_rep [OF sides(1) book_rep_wf [OF rep]] side_canonical_rep [OF sides(2) book_rep_wf [OF rep]])
qed

section \<open>Quantities\<close>

lemma fold_saturating:
  assumes "\<forall>n\<in>set ns. 0 \<le> nd_remaining n" and "0 \<le> acc"
  shows "fold (\<lambda>n acc. scalar_saturating_add I64 acc (nd_remaining n)) ns (prim_saturate I64 acc) =
    prim_saturate I64 (acc + sum_list (map nd_remaining ns))"
  using assms
proof (induction ns arbitrary: acc)
  case (Cons n ns)
  have "scalar_saturating_add I64 (prim_saturate I64 acc) (nd_remaining n) = prim_saturate I64 (acc + nd_remaining n)"
    using Cons.prems by (auto simp: scalar_saturating_add_def prim_saturate_def)
  then show ?case
    using Cons.IH [of "acc + nd_remaining n"] Cons.prems by (simp add: add.assoc)
qed simp

lemma slot_remaining:
  assumes "side_rep sl sd sb Q" and "x \<in> set (canonical_slots sb Q)"
  shows "0 < nd_remaining (the (slab_get sl x))"
proof -
  have "x \<in> set (flat sd Q)"
    using assms(2) mset_eq_setD [OF canonical_slots_flat [OF assms(1)]] by simp
  then show ?thesis
    using set_flat [OF side_rep_finite [OF assms(1)]] side_rep_slot [OF assms(1)] by force
qed

lemma sum_remaining_rep:
  assumes rep: "book_rep sha b Q"
  shows "sum_remaining (side_of sd b) (bk_slab b) =
    Some (prim_saturate I64 (sum_list (map nd_remaining (book_orders b sd))))"
proof -
  let ?f = "\<lambda>x. the (slab_get (bk_slab b) x)" and ?xs = "canonical_slots (side_of sd b) (Q sd)"
  note side = book_rep_side [OF rep, of sd]
  have live: "nd_remaining (the (live_orders b x)) = nd_remaining (?f x)" if x: "x \<in> set (flat sd (Q sd))" for x
  proof -
    obtain p where p: "x \<in> set (Q sd p)"
      using x set_flat [OF book_rep_finite_side [OF rep], of x sd sd] by blast
    show ?thesis
      using side_rep_slot [OF side p] by (auto simp: live_orders_def)
  qed
  have "sum_list (map (\<lambda>x. nd_remaining (?f x)) ?xs) = sum_list (map (\<lambda>x. nd_remaining (?f x)) (flat sd (Q sd)))"
    by (simp only: sum_mset_sum_list [symmetric] mset_map canonical_slots_flat [OF side])
  also have "\<dots> = sum_list (map nd_remaining (book_orders b sd))"
    using live by (simp add: book_orders_rep [OF rep] maker_list_def comp_def cong: map_cong)
  finally have total: "sum_list (map (\<lambda>x. nd_remaining (?f x)) ?xs) = sum_list (map nd_remaining (book_orders b sd))" .
  have "\<forall>n\<in>set (map ?f ?xs). 0 \<le> nd_remaining n"
    by (auto intro: less_imp_le slot_remaining [OF side])
  then show ?thesis
    using fold_saturating [of "map ?f ?xs" 0] total
    by (simp add: sum_remaining_def side_canonical_rep [OF side book_rep_wf [OF rep]] prim_saturate_id comp_def)
qed

lemma sum_nonneg_rep:
  assumes "book_rep sha b Q"
  shows "0 \<le> sum_list (map nd_remaining (book_orders b sd))"
  using makers_ok_rep [OF assms, of sd] by (intro sum_list_nonneg) (auto simp: book_orders_rep [OF assms] less_imp_le)

lemma total_resting_rep:
  assumes rep: "book_rep sha b Q"
  shows "total_resting_quantity b =
    Some (prim_saturate I64 (sum_list (map nd_remaining (book_orders b Bid @ book_orders b Ask))))"
  using sum_remaining_rep [OF rep, of Bid] sum_remaining_rep [OF rep, of Ask]
    sum_nonneg_rep [OF rep, of Bid] sum_nonneg_rep [OF rep, of Ask]
  by (simp add: total_resting_quantity_def side_of_def scalar_saturating_add_def prim_saturate_def)

section \<open>Lookups\<close>

definition resting_view :: "node \<Rightarrow> resting_order" where
  "resting_view n = \<lparr>ro_order_id = nd_order_id n, ro_account = nd_account n, ro_side = nd_side n,
                     ro_price = nd_price n, ro_remaining = nd_remaining n\<rparr>"

lemma resting_order_rep:
  assumes "book_rep sha b Q"
  shows "book_resting_order b i = map_option resting_view (clob_find (clob_of b) i)"
proof (cases "omap_get (bk_id_index b) i")
  case (Some loc)
  have "index_ok (live_orders b) (bk_id_index b)"
    using assms by (simp add: book_rep_def)
  then obtain n where "live_orders b (loc_slot loc) = Some n"
    using Some by (rule index_ok_lookup)
  then show ?thesis
    using Some by (auto simp: book_resting_order_def live_orders_Some resting_view_def clob_find_rep [OF assms] live_orders_get)
qed (simp add: book_resting_order_def clob_find_rep [OF assms])

lemma best_price_rep:
  assumes "book_rep sha b Q"
  shows "best_price (side_of sd b) = map_option nd_price (List.find (\<lambda>_. True) (book_orders b sd))"
  using best_price_orders [OF book_rep_side [OF assms]] by (simp add: book_orders_rep [OF assms] maker_list_side_orders)

lemma book_orders_sorted:
  assumes "book_rep sha b Q"
  shows "sorted_wrt (\<lambda>m n. pkey sd (nd_price m) \<le> pkey sd (nd_price n)) (book_orders b sd)"
  using side_orders_sorted [OF book_rep_side [OF assms], of sd] by (simp add: book_orders_rep [OF assms] maker_list_side_orders)

lemma book_makers_ok:
  assumes "book_rep sha b Q"
  shows "makers_ok (book_orders b sd)"
  using makers_ok_rep [OF assms] by (simp add: book_orders_rep [OF assms])

end
