(* ===== verification/MarketRules.thy ===== *)
theory MarketRules
  imports BookQueries
begin

text \<open>
  The properties of the order book, stated on every book that its commands can reach from an empty
  one. They follow from the refinement of the abstract book and the laws of the abstract commands.
\<close>

section \<open>Shared facts\<close>

lemma reachable_makers_ok:
  assumes "reachable sha cfg b" and "config_addressable cfg"
  shows "makers_ok (cl_orders (clob_of b) sd)"
  using reachable_rep [OF assms] book_makers_ok by (metis clob_of_fields(2))

lemma example_place:
  assumes "order_typed ord" and "clob_execute clob0 ord = (r, c')"
  shows "\<exists>b b'. reachable sha0 cfg0 b \<and> clob_of b = clob0 \<and> place_with_report sha0 b ord = Some (r, b') \<and> clob_of b' = c'"
proof -
  obtain b where b: "reachable sha0 cfg0 b" "clob_of b = clob0"
    using example_reachable by blast
  obtain r' b' where "place_with_report sha0 b ord = Some (r', b')" "clob_execute (clob_of b) ord = (r', clob_of b')"
    using reachable_place [OF b(1) config_addressable0 assms(1)] .
  then show ?thesis
    using b assms(2) by auto
qed

section \<open>Totality and refinement\<close>

text \<open>C1 (termination). Every command (submit, place, cancel, cancel-all, replace, basket, position update)
  with arguments of its types returns on every reachable book, without panic or endless loop, and the book
  it leaves satisfies the book invariant: slab, level queues, id index, account lists and leaf aggregate
  describe the same live orders, and the book is not crossed.\<close>

theorem commands_return:
  assumes "reachable sha cfg b" and "config_addressable cfg" and "command_typed c"
  shows "\<exists>b'. apply_command sha b c = Some b' \<and> reachable sha cfg b' \<and> book_inv sha b' \<and> bk_config b' = cfg"
proof -
  have "book_inv sha b" "bk_config b = cfg"
    using reachable_inv [OF assms(1)] assms(2) by (simp_all add: config_addressable_def)
  then obtain b' where "apply_command sha b c = Some b'" "book_inv sha b'" "bk_config b' = cfg"
    using command_inv [of sha b c] assms(3) by auto
  then show ?thesis
    using reachable.reach_step [OF assms(1,3)] by blast
qed

theorem commands_return_witness:
  "\<exists>b b'. reachable sha0 cfg0 b \<and> clob_of b = clob0 \<and> apply_command sha0 b (CancelAll 1) = Some b' \<and> book_inv sha0 b'"
proof -
  obtain b where b: "reachable sha0 cfg0 b" "clob_of b = clob0"
    using example_reachable by blast
  then show ?thesis
    using commands_return [OF b(1) config_addressable0, of "CancelAll 1"] by auto
qed

text \<open>C2 (refinement). Placing an order on a reachable book computes the report or the error of the abstract
  command on the abstract book, and the book it leaves abstracts to the book of the abstract command. The abstract command cancels what is left of
  a taker that self-trade prevention stops, also for a good-till-cancelled order.\<close>

theorem place_refines:
  assumes "reachable sha cfg b" and "config_addressable cfg" and "order_typed ord"
  shows "\<exists>r b'. place_with_report sha b ord = Some (r, b') \<and> clob_execute (clob_of b) ord = (r, clob_of b')"
  using reachable_place [OF assms] by metis

theorem place_refines_witness:
  "\<exists>b b'. clob_of b = clob0 \<and>
     place_with_report sha0 b (limit_order 4 3 Bid 100 7) =
       Some (Ok (report [make_fill (limit_order 4 3 Bid 100 7) (node_new (limit_order 1 1 Ask 100 5) 5) 5,
                         make_fill (limit_order 4 3 Bid 100 7) (node_new (limit_order 2 2 Ask 100 5) 5) 2]
                    FullyFilled []), b') \<and>
     book_orders b' Ask = [node_new (limit_order 2 2 Ask 100 5) 3]"
proof -
  obtain b where b: "reachable sha0 cfg0 b" "clob_of b = clob0"
    using example_reachable by blast
  let ?o = "limit_order 4 3 Bid 100 7"
  have "order_typed ?o"
    by (simp add: u32_max_def fits_def)
  then obtain r b' where b': "place_with_report sha0 b ?o = Some (r, b')" "clob_execute clob0 ?o = (r, clob_of b')"
    using place_refines [OF b(1) config_addressable0] b(2) by metis
  have "fst (clob_execute clob0 ?o) = Ok (report [make_fill ?o (node_new (limit_order 1 1 Ask 100 5) 5) 5,
      make_fill ?o (node_new (limit_order 2 2 Ask 100 5) 5) 2] FullyFilled [])"
    and "cl_orders (snd (clob_execute clob0 ?o)) Ask = [node_new (limit_order 2 2 Ask 100 5) 3]"
    by (simp_all add: clob_eval clob0_def)
  then show ?thesis
    using b(2) b' by auto
qed

text \<open>C12 (functional). Cancelling an id that rests on the book succeeds and removes exactly the order with
  that id, keeping the matching order of the rest; any other id is an unknown-order error that changes
  no order.\<close>

theorem cancel_exact:
  assumes "reachable sha cfg b" and "config_addressable cfg"
  shows "\<exists>b'. cancel sha b i = Some (if book_contains b i then Ok () else Err UnknownOrder, b') \<and>
    (\<forall>sd. book_orders b' sd = filter (\<lambda>n. nd_order_id n \<noteq> i) (book_orders b sd))"
proof -
  obtain Q where rep: "book_rep sha b Q"
    using assms by (rule reachable_rep)
  obtain r b' where b': "cancel sha b i = Some (r, b')" "clob_cancel (clob_of b) i = (r, clob_of b')"
    using cancel_refines [OF rep, of i] unfolding refines_def by blast
  have r: "r = (if book_contains b i then Ok () else Err UnknownOrder)"
    using b'(2) clob_has_rep [OF rep, of i] by (auto simp: clob_cancel_def split: if_splits)
  have "clob_of b' = clob_drop (\<lambda>n. nd_order_id n = i) (clob_of b)"
  proof (cases "clob_has (clob_of b) i")
    case False
    then have "clob_drop (\<lambda>n. nd_order_id n = i) (clob_of b) = clob_drop (\<lambda>n. False) (clob_of b)"
      by (intro clob_drop_cong) (auto simp: clob_has_iff)
    then show ?thesis
      using False b'(2) by (simp add: clob_cancel_def clob_drop_none)
  qed (use b'(2) in \<open>simp add: clob_cancel_def\<close>)
  then have "book_orders b' sd = filter (\<lambda>n. nd_order_id n \<noteq> i) (book_orders b sd)" for sd
    using clob_drop_orders clob_of_fields(2) by metis
  then show ?thesis
    using b'(1) r by blast
qed

theorem cancel_exact_witness:
  "\<exists>b b'. clob_of b = clob0 \<and> cancel sha0 b 1 = Some (Ok (), b') \<and>
     book_orders b' Ask = [node_new (limit_order 2 2 Ask 100 5) 5]"
proof -
  obtain b where b: "reachable sha0 cfg0 b" "clob_of b = clob0"
    using example_reachable by blast
  have orders: "book_orders b Ask = [node_new (limit_order 1 1 Ask 100 5) 5, node_new (limit_order 2 2 Ask 100 5) 5]"
    using arg_cong [OF b(2), of "\<lambda>c. cl_orders c Ask"] by (simp add: clob0_def)
  obtain Q where rep: "book_rep sha0 b Q"
    using b(1) config_addressable0 by (rule reachable_rep)
  have "book_contains b 1"
    using clob_has_rep [OF rep, of 1] b(2) by (simp add: clob_eval clob0_def)
  then show ?thesis
    using cancel_exact [OF b(1) config_addressable0, of 1] b(2) orders by (auto simp: clob_eval)
qed

text \<open>C13 (functional). Cancelling all orders of an account removes exactly the orders of that account, on both
  sides, keeps the matching order of the rest, and returns how many there were.\<close>

theorem cancel_all_exact:
  assumes "reachable sha cfg b" and "config_addressable cfg"
  shows "\<exists>b'. cancel_all sha b a =
      Some (length (filter (\<lambda>n. nd_account n = a) (book_orders b Bid @ book_orders b Ask)), b') \<and>
    (\<forall>sd. book_orders b' sd = filter (\<lambda>n. nd_account n \<noteq> a) (book_orders b sd))"
proof -
  obtain Q where rep: "book_rep sha b Q"
    using assms by (rule reachable_rep)
  obtain r b' where b': "cancel_all sha b a = Some (r, b')" "clob_cancel_all (clob_of b) a = (r, clob_of b')"
    using cancel_all_refines [OF rep, of a] unfolding refines_def by blast
  then have "clob_of b' = clob_drop (\<lambda>n. nd_account n = a) (clob_of b)"
    and "r = length (filter (\<lambda>n. nd_account n = a) (book_orders b Bid @ book_orders b Ask))"
    by (simp_all add: clob_cancel_all_def)
  moreover from this have "book_orders b' sd = filter (\<lambda>n. nd_account n \<noteq> a) (book_orders b sd)" for sd
    using clob_drop_orders clob_of_fields(2) by metis
  ultimately show ?thesis
    using b'(1) by blast
qed

theorem cancel_all_exact_witness:
  "\<exists>b b'. clob_of b = clob0 \<and> cancel_all sha0 b 3 = Some (1, b') \<and> book_orders b' Bid = []"
proof -
  obtain b where b: "reachable sha0 cfg0 b" "clob_of b = clob0"
    using example_reachable by blast
  have "book_orders b = cl_orders clob0"
    using b(2) clob_of_fields(2) by metis
  then show ?thesis
    using cancel_all_exact [OF b(1) config_addressable0, of 3] b(2) by (auto simp: clob0_def clob_eval)
qed

text \<open>C11 (refinement). Replacing an order is atomic: on every reachable book it either fails and leaves the
  abstract book as it is, or is the cancellation of the original followed by a fresh limit order with the
  original's account, side and client id.\<close>

theorem replace_atomic:
  assumes "reachable sha cfg b" and "config_addressable cfg" and "i \<le> u64_max" "fits I64 p" "fits I64 q"
  shows "\<exists>r b'. replace_with_report sha b i p q = Some (r, b') \<and> clob_replace (clob_of b) i p q = (r, clob_of b')"
proof -
  obtain Q where rep: "book_rep sha b Q"
    using assms(1,2) by (rule reachable_rep)
  show ?thesis
    using replace_refines [OF rep assms(3-5)] unfolding refines_def by blast
qed

theorem replace_atomic_witness:
  "\<exists>b b'. clob_of b = clob0 \<and>
     replace_with_report sha0 b 1 100 6 = Some (Ok (report [] (Resting 6) []), b') \<and>
     map nd_order_id (book_orders b' Ask) = [2, 1]"
proof -
  obtain b where b: "reachable sha0 cfg0 b" "clob_of b = clob0"
    using example_reachable by blast
  have "clob_replace clob0 1 100 6 = (Ok (report [] (Resting 6) []),
      snd (clob_replace clob0 1 100 6))" "map nd_order_id (cl_orders (snd (clob_replace clob0 1 100 6)) Ask) = [2, 1]"
    by (simp_all add: clob_replace_def clob_find_def clob_drop_def replacement_def clob0_def clob_eval)
  then show ?thesis
    using replace_atomic [OF b(1) config_addressable0, of 1 100 6] b(2) by (auto simp: u64_max_def fits_def)
qed

section \<open>Matching\<close>

text \<open>C3 (functional). Price-time priority: the opposite side of a reachable book is ordered best price first
  (by arrival within a price, see the resting position), and an order takes a prefix of it. Every maker of
  the prefix is filled for all it had and leaves, in order, except that the last one may be filled in part
  and stay at the front with the rest; makers of the taker's own account are passed over.\<close>

theorem price_time_priority:
  assumes "reachable sha cfg b" and "config_addressable cfg" and "order_typed ord"
    and "place_with_report sha b ord = Some (Ok rep, b')"
  shows "sorted_wrt (\<lambda>m n. pkey (opposite (no_side ord)) (nd_price m) \<le> pkey (opposite (no_side ord)) (nd_price n))
      (book_orders b (opposite (no_side ord))) \<and>
    takes_prefix (no_account ord) (mr_fills (rep_result rep)) (book_orders b (opposite (no_side ord)))
      (book_orders b' (opposite (no_side ord)))"
proof -
  obtain Q where "book_rep sha b Q"
    using assms(1,2) by (rule reachable_rep)
  then show ?thesis
    using book_orders_sorted clob_takes_prefix [OF place_run(1) [OF assms]] reachable_makers_ok [OF assms(1,2)]
    by simp
qed

theorem price_time_priority_witness:
  "\<exists>b b' rep. clob_of b = clob0 \<and> place_with_report sha0 b (limit_order 4 3 Bid 100 7) = Some (Ok rep, b') \<and>
     map maker_order (mr_fills (rep_result rep)) = [1, 2] \<and>
     takes_prefix 3 (mr_fills (rep_result rep)) (book_orders b Ask) (book_orders b' Ask)"
proof -
  let ?o = "limit_order 4 3 Bid 100 7"
  have typed: "order_typed ?o"
    by (simp add: u32_max_def fits_def)
  obtain rep where rep: "fst (clob_execute clob0 ?o) = Ok rep" "map maker_order (mr_fills (rep_result rep)) = [1, 2]"
    by (simp add: clob_eval clob0_def)
  then obtain b b' where b: "reachable sha0 cfg0 b" "clob_of b = clob0" "place_with_report sha0 b ?o = Some (Ok rep, b')"
    using example_place [OF typed, of "Ok rep"] by (metis prod.collapse)
  then show ?thesis
    using price_time_priority [OF b(1) config_addressable0 typed b(3)] rep(2) by (auto simp: limit_order_def)
qed

text \<open>C10 (functional). Time priority of resting orders: whatever of an accepted order rests joins its own side
  behind every order at its price or a better one and ahead of every worse one; an order that does not
  rest leaves its own side as it was.\<close>

theorem resting_position:
  assumes "reachable sha cfg b" and "config_addressable cfg" and "order_typed ord"
    and "place_with_report sha b ord = Some (Ok rep, b')"
  shows "book_orders b' (no_side ord) =
    (case mr_outcome (rep_result rep) of
       Resting r \<Rightarrow> spec_rest (node_new ord r) (book_orders b (no_side ord))
     | PartiallyFilledResting r \<Rightarrow> spec_rest (node_new ord r) (book_orders b (no_side ord))
     | _ \<Rightarrow> book_orders b (no_side ord))"
  using clob_execute_own [OF place_run(1) [OF assms]] unfolding clob_of_fields .

theorem resting_position_witness:
  "\<exists>b b' rep. clob_of b = clob0 \<and> place_with_report sha0 b (limit_order 4 4 Ask 100 1) = Some (Ok rep, b') \<and>
     map nd_order_id (book_orders b' Ask) = [1, 2, 4]"
proof -
  let ?o = "limit_order 4 4 Ask 100 1"
  have typed: "order_typed ?o"
    by (simp add: u32_max_def fits_def)
  have "clob_execute clob0 ?o = (Ok (report [] (Resting 1) []), snd (clob_execute clob0 ?o))"
    by (simp add: clob_eval clob0_def)
  then obtain b b' where b: "reachable sha0 cfg0 b" "clob_of b = clob0"
    "place_with_report sha0 b ?o = Some (Ok (report [] (Resting 1) []), b')"
    using example_place [OF typed] by blast
  have "book_orders b = cl_orders clob0"
    using b(2) clob_of_fields(2) by metis
  then show ?thesis
    using resting_position [OF b(1) config_addressable0 typed b(3)] b by (auto simp: clob0_def clob_eval)
qed

text \<open>C6 (functional). The report is truthful: an accepted order is rejected without a fill, or its outcome and
  its fills account for the whole quantity admitted by the reduce-only clamp, with fully filled, resting,
  partially filled and resting, and partially filled and cancelled each meaning what they say.\<close>

theorem report_truthful:
  assumes "reachable sha cfg b" and "config_addressable cfg" and "order_typed ord"
    and "place_with_report sha b ord = Some (Ok rep, b')"
  shows "mr_outcome (rep_result rep) = Rejected \<and> mr_fills (rep_result rep) = [] \<or>
    (\<exists>qty. reduce_clamp b ord = Some qty \<and> 0 < qty \<and> qty \<le> no_quantity ord \<and> outcome_truthful qty rep)"
proof -
  obtain Q where rep: "book_rep sha b Q"
    using assms(1,2) by (rule reachable_rep)
  have run: "clob_execute (clob_of b) ord = (Ok rep, clob_of b')"
    using assms by (rule place_run(1))
  then have pos: "0 < no_quantity ord"
    by (simp add: clob_execute_def split: if_splits)
  show ?thesis
    using clob_outcome_truthful [OF run] reachable_makers_ok [OF assms(1,2)] clob_clamp_rep [OF rep pos]
      clamp_positive [OF _ pos] by auto
qed

theorem report_truthful_witness:
  "\<exists>b b' rep. clob_of b = clob0 \<and> place_with_report sha0 b (limit_order 4 3 Bid 100 12) = Some (Ok rep, b') \<and>
     mr_outcome (rep_result rep) = PartiallyFilledResting 2 \<and> traded (mr_fills (rep_result rep)) = 10"
proof -
  let ?o = "limit_order 4 3 Bid 100 12"
  have typed: "order_typed ?o"
    by (simp add: u32_max_def fits_def)
  obtain rep where rep: "fst (clob_execute clob0 ?o) = Ok rep" "mr_outcome (rep_result rep) = PartiallyFilledResting 2"
    by (simp add: clob_eval clob0_def)
  then obtain b b' where b: "reachable sha0 cfg0 b" "clob_of b = clob0" "place_with_report sha0 b ?o = Some (Ok rep, b')"
    using example_place [OF typed, of "Ok rep"] by (metis prod.collapse)
  then show ?thesis
    using report_truthful [OF b(1) config_addressable0 typed b(3)] rep(2)
    by (auto simp: reduce_clamp_def limit_order_def outcome_truthful_def Let_def)
qed

text \<open>C7 (invariant). Conservation on the makers' side: what the resting orders opposite to an accepted order
  lose in total is what the fills trade plus what self-trade prevention reports as cancelled.\<close>

theorem makers_conserved:
  assumes "reachable sha cfg b" and "config_addressable cfg" and "order_typed ord"
    and "place_with_report sha b ord = Some (Ok rep, b')"
  shows "sum_list (map nd_remaining (book_orders b (opposite (no_side ord)))) =
    sum_list (map nd_remaining (book_orders b' (opposite (no_side ord)))) + traded (mr_fills (rep_result rep)) +
    sum_list (map sc_remaining (rep_stp_cancelled rep))"
  using clob_conserves_makers [OF place_run(1) [OF assms]] reachable_makers_ok [OF assms(1,2)]
  by (simp add: clob_side_quantity_def)

theorem makers_conserved_witness:
  "\<exists>b b' rep. clob_of b = clob0 \<and> place_with_report sha0 b (limit_order 4 1 Bid 100 2) = Some (Ok rep, b') \<and>
     rep_stp_cancelled rep = [stp_cancel (node_new (limit_order 1 1 Ask 100 5) 5)] \<and>
     sum_list (map nd_remaining (book_orders b' Ask)) = 3"
proof -
  let ?o = "limit_order 4 1 Bid 100 2"
  have typed: "order_typed ?o"
    by (simp add: u32_max_def fits_def)
  obtain rep where rep: "fst (clob_execute clob0 ?o) = Ok rep" "traded (mr_fills (rep_result rep)) = 2"
    "rep_stp_cancelled rep = [stp_cancel (node_new (limit_order 1 1 Ask 100 5) 5)]"
    by (simp add: clob_eval clob0_def)
  then obtain b b' where b: "reachable sha0 cfg0 b" "clob_of b = clob0" "place_with_report sha0 b ?o = Some (Ok rep, b')"
    using example_place [OF typed, of "Ok rep"] by (metis prod.collapse)
  have "book_orders b = cl_orders clob0"
    using b(2) clob_of_fields(2) by metis
  then show ?thesis
    using makers_conserved [OF b(1) config_addressable0 typed b(3)] rep b by (auto simp: clob0_def clob_eval)
qed

text \<open>C8 (safety). Every fill is legal: it is between the taker and another account, at the price of a resting
  maker on the opposite side that the taker's price accepts, for a positive quantity not above what that maker had. The
  price of a market order binds like a limit when it is positive; otherwise every price is accepted.\<close>

theorem fills_legal:
  assumes "reachable sha cfg b" and "config_addressable cfg" and "order_typed ord"
    and "place_with_report sha b ord = Some (Ok rep, b')" and "f \<in> set (mr_fills (rep_result rep))"
  shows "taker_order f = no_order_id ord \<and> taker_account f = no_account ord \<and> taker_side f = no_side ord \<and>
    maker_account f \<noteq> no_account ord \<and>
    (no_order_type ord = Market \<and> no_price ord \<le> 0 \<or> (case no_side ord of Bid \<Rightarrow> fill_price f \<le> no_price ord | Ask \<Rightarrow> no_price ord \<le> fill_price f)) \<and>
    0 < fill_quantity f \<and>
    (\<exists>m\<in>set (book_orders b (opposite (no_side ord))). maker_order f = nd_order_id m \<and>
       maker_account f = nd_account m \<and> fill_price f = nd_price m \<and> fill_quantity f \<le> nd_remaining m)"
  using clob_fill_facts [OF place_run(1) [OF assms(1-4)] _ assms(5)] reachable_makers_ok [OF assms(1,2)]
  by (auto simp: crosses_def split: side.splits if_splits)

theorem fills_legal_witness:
  "\<exists>b b' rep f. clob_of b = clob0 \<and> place_with_report sha0 b (limit_order 4 3 Bid 105 2) = Some (Ok rep, b') \<and>
     f \<in> set (mr_fills (rep_result rep)) \<and> fill_price f \<le> 105 \<and> maker_account f \<noteq> 3"
proof -
  let ?o = "limit_order 4 3 Bid 105 2"
  have typed: "order_typed ?o"
    by (simp add: u32_max_def fits_def)
  obtain rep f where rep: "fst (clob_execute clob0 ?o) = Ok rep" "f \<in> set (mr_fills (rep_result rep))"
    by (simp add: clob_eval clob0_def)
  then obtain b b' where b: "reachable sha0 cfg0 b" "clob_of b = clob0" "place_with_report sha0 b ?o = Some (Ok rep, b')"
    using example_place [OF typed, of "Ok rep"] by (metis prod.collapse)
  then show ?thesis
    using fills_legal [OF b(1) config_addressable0 typed b(3) rep(2)] rep(2) by (auto simp: limit_order_def)
qed

text \<open>C9 (invariant). No reachable book is crossed or locked: its best bid is below its best ask.\<close>

theorem never_crossed:
  assumes "reachable sha cfg b" and "config_addressable cfg" and "best_bid b = Some p" and "best_ask b = Some q"
  shows "p < q"
proof -
  obtain Q where rep: "book_rep sha b Q"
    using assms(1,2) by (rule reachable_rep)
  have "Q Bid p \<noteq> []" "Q Ask q \<noteq> []"
    using best_price_Some(1) [OF book_rep_side [OF rep, of Bid], of p]
      best_price_Some(1) [OF book_rep_side [OF rep, of Ask], of q] assms(3,4)
    by (simp_all add: best_bid_def best_ask_def side_of_def)
  then show ?thesis
    using rep by (simp add: book_rep_def uncrossed_def)
qed

theorem never_crossed_witness:
  "\<exists>b. clob_of b = clob0 \<and> best_bid b = Some 90 \<and> best_ask b = Some 100 \<and> (90 :: price) < 100"
proof -
  obtain b where b: "reachable sha0 cfg0 b" "clob_of b = clob0"
    using example_reachable by blast
  obtain Q where rep: "book_rep sha0 b Q"
    using b(1) config_addressable0 by (rule reachable_rep)
  have "book_orders b = cl_orders clob0"
    using b(2) clob_of_fields(2) by metis
  then have "best_bid b = Some 90" "best_ask b = Some 100"
    using best_price_rep [OF rep, of Bid] best_price_rep [OF rep, of Ask]
    by (simp_all add: best_bid_def best_ask_def side_of_def clob0_def clob_eval)
  then show ?thesis
    using never_crossed [OF b(1) config_addressable0] b(2) by blast
qed

end
