(* ===== verification/OrderKinds.thy ===== *)
theory OrderKinds
  imports MarketRules
begin

text \<open>
  The properties of the order types and the time-in-force values on every reachable book, and concrete books
  on which the code does what its comments do not say.
\<close>

section \<open>Fill-or-kill, post-only, immediate-or-cancel, reduce-only\<close>

text \<open>Past the guards, the code works with the clamped quantity.\<close>

lemma execute_accepted:
  assumes rep: "book_rep sha b Q" and typed: "order_typed ord"
    and run: "execute_with_report sha b ord = Some (Ok r, b')"
  shows "r = report [] Rejected [] \<and> b' = b \<or>
    (\<exists>qty. reduce_clamp b ord = Some qty \<and> 0 < qty \<and> fits I64 qty \<and> execute_open sha b ord qty = Some (Ok r, b'))"
proof (cases "no_quantity ord \<le> 0 \<or> no_order_type ord \<noteq> Market \<and> no_price ord \<le> 0 \<or> book_contains b (no_order_id ord)")
  case True
  then show ?thesis
    using run execute_guarded [OF True] by simp
next
  case False
  show ?thesis
  proof (cases "reduce_clamp b ord")
    case None
    then show ?thesis
      using run False by (auto simp: execute_with_report_def Let_def report_def rejected_def)
  next
    case (Some qty)
    have "0 < qty" "fits I64 qty"
      using clob_clamp_rep [OF rep, of ord] clamp_positive [of "clob_of b" ord qty] False Some typed
      by (auto simp: order_typed_def intro: fits_nonneg_le [of I64 "no_quantity ord"])
    then show ?thesis
      using run execute_open_eq [of ord b qty sha] False Some by auto
  qed
qed

lemma fok_open:
  assumes rep: "book_rep sha b Q" and qty: "0 < qty" "fits I64 qty" and kind: "no_tif ord = Fok" "no_order_type ord \<noteq> PostOnly"
    and run: "execute_open sha b ord qty = Some (Ok r, b')"
    and spec: "clob_execute (clob_of b) ord = (Ok r, clob_of b')" and clamp: "clob_clamp (clob_of b) ord = Some qty"
  shows "r = report [] Rejected [] \<and> b' = b \<or> mr_outcome (rep_result r) = FullyFilled"
proof -
  let ?ms = "spec_match (cfg_stp (bk_config b)) ord (no_order_type ord = Market) qty (book_orders b (opposite (no_side ord)))"
  obtain avail where avail: "crossable_qty b ord (no_order_type ord = Market) qty = Some avail"
    "avail < qty \<longleftrightarrow> sp_remaining ?ms \<noteq> 0"
    using fok_check [OF rep qty] unfolding book_orders_rep [OF rep] by blast
  show ?thesis
  proof (cases "avail < qty")
    case True
    then show ?thesis
      using run kind avail(1) by (auto simp: execute_open_def clob_rejected_def)
  next
    case False
    then have "sp_remaining ?ms = 0"
      using avail(2) by simp
    moreover from this have "clob_settle (clob_of b) ord qty ?ms = (Ok r, clob_of b')"
      using spec clamp kind by (auto simp: clob_execute_def Let_def split: if_splits)
    ultimately show ?thesis
      by (auto simp: clob_settle_def Let_def)
  qed
qed

text \<open>What an accepted post-only order does, whatever its time in force.\<close>

lemma post_only_accepted:
  assumes "reachable sha cfg b" and "config_addressable cfg" and "order_typed ord"
    and "place_with_report sha b ord = Some (Ok rep, b')" and "no_order_type ord = PostOnly"
  shows "rep = report [] Rejected [] \<and> b' = b \<or>
     (\<exists>qty. reduce_clamp b ord = Some qty \<and> rep = report [] (Resting qty) [] \<and>
        \<not> would_cross b (no_side ord) (no_price ord))"
proof -
  obtain Q where rep: "book_rep sha b Q"
    using assms(1,2) by (rule reachable_rep)
  have run: "execute_with_report sha b ord = Some (Ok rep, b')"
    using assms(4) by (simp add: place_with_report_def)
  show ?thesis
    using execute_accepted [OF rep assms(3) run] assms(5)
    by (auto simp: execute_open_def clob_rejected_def bind_eq_Some_conv and_then_Inr_iff split: if_splits)
qed

text \<open>C4 (safety). A fill-or-kill order is all or nothing: an accepted one trades exactly the quantity admitted
  by the reduce-only clamp, or it is rejected with no fill and no cancellation and the book is left exactly
  as it was. The only other case is a post-only order, whose time in force the code does not look at: it
  trades nothing and rests with the quantity the clamp admits.\<close>

theorem fok_all_or_nothing:
  assumes "reachable sha cfg b" and "config_addressable cfg" and "order_typed ord"
    and "place_with_report sha b ord = Some (Ok rep, b')" and "no_tif ord = Fok"
  shows "rep = report [] Rejected [] \<and> b' = b \<or>
    mr_outcome (rep_result rep) = FullyFilled \<and> reduce_clamp b ord = Some (traded (mr_fills (rep_result rep))) \<or>
    no_order_type ord = PostOnly \<and> (\<exists>qty. reduce_clamp b ord = Some qty \<and> rep = report [] (Resting qty) [])"
proof (cases "no_order_type ord = PostOnly")
  case True
  then show ?thesis using post_only_accepted [OF assms(1-4)] by blast
next
  case False
  obtain Q where rep: "book_rep sha b Q"
    using assms(1,2) by (rule reachable_rep)
  have run: "execute_with_report sha b ord = Some (Ok rep, b')"
    using assms(4) by (simp add: place_with_report_def)
  have spec: "clob_execute (clob_of b) ord = (Ok rep, clob_of b')"
    using assms(1-4) by (rule place_run(1))
  then have pos: "0 < no_quantity ord"
    by (simp add: clob_execute_def split: if_splits)
  have "rep = report [] Rejected [] \<and> b' = b \<or> mr_outcome (rep_result rep) = FullyFilled"
    using execute_accepted [OF rep assms(3) run] fok_open [OF rep _ _ assms(5) False _ spec] clob_clamp_rep [OF rep pos]
    by auto
  moreover have "reduce_clamp b ord = Some (traded (mr_fills (rep_result rep)))"
    if "mr_outcome (rep_result rep) = FullyFilled"
    using clob_outcome_truthful [OF spec] reachable_makers_ok [OF assms(1,2)] that clob_clamp_rep [OF rep pos]
    by (auto simp: outcome_truthful_def)
  ultimately show ?thesis by blast
qed

definition kill_order :: new_order where
  "kill_order = (limit_order 4 3 Bid 100 11)\<lparr>no_tif := Fok\<rparr>"

theorem fok_all_or_nothing_witness:
  "\<exists>b. clob_of b = clob0 \<and> place_with_report sha0 b kill_order = Some (Ok (report [] Rejected []), b)"
proof -
  have typed: "order_typed kill_order"
    by (simp add: kill_order_def order_typed_def limit_order_def u32_max_def u64_max_def fits_def)
  have "fst (clob_execute clob0 kill_order) = Ok (report [] Rejected [])"
    by (simp add: kill_order_def clob_eval clob0_def)
  then obtain b b' where b: "reachable sha0 cfg0 b" "clob_of b = clob0"
    "place_with_report sha0 b kill_order = Some (Ok (report [] Rejected []), b')"
    using example_place [OF typed] by (metis prod.collapse)
  then show ?thesis
    using fok_all_or_nothing [OF b(1) config_addressable0 typed b(3)] by (auto simp: kill_order_def limit_order_def)
qed

text \<open>C14 (safety). A post-only order never takes liquidity: an accepted one has no fills and cancels nothing,
  leaves the opposite side as it was, and either rests with the quantity the reduce-only clamp admits or is
  rejected with the book exactly as it was.\<close>

theorem post_only_never_takes:
  assumes "reachable sha cfg b" and "config_addressable cfg" and "order_typed ord"
    and "place_with_report sha b ord = Some (Ok rep, b')" and "no_order_type ord = PostOnly"
  shows "book_orders b' (opposite (no_side ord)) = book_orders b (opposite (no_side ord)) \<and>
    (rep = report [] Rejected [] \<and> b' = b \<or>
     (\<exists>qty. reduce_clamp b ord = Some qty \<and> rep = report [] (Resting qty) [] \<and>
        \<not> would_cross b (no_side ord) (no_price ord)))"
  using clob_execute_makers [OF place_run(1) [OF assms(1-4)]] reachable_makers_ok [OF assms(1,2)] assms(5)
    post_only_accepted [OF assms] by simp

definition maker_order_only :: new_order where
  "maker_order_only = (limit_order 4 3 Bid 100 1)\<lparr>no_order_type := PostOnly\<rparr>"

theorem post_only_never_takes_witness:
  "\<exists>b. clob_of b = clob0 \<and> place_with_report sha0 b maker_order_only = Some (Ok (report [] Rejected []), b)"
proof -
  have typed: "order_typed maker_order_only"
    by (simp add: maker_order_only_def order_typed_def limit_order_def u32_max_def u64_max_def fits_def)
  have "fst (clob_execute clob0 maker_order_only) = Ok (report [] Rejected [])"
    by (simp add: maker_order_only_def clob_eval clob0_def)
  then obtain b b' where b: "reachable sha0 cfg0 b" "clob_of b = clob0"
    "place_with_report sha0 b maker_order_only = Some (Ok (report [] Rejected []), b')"
    using example_place [OF typed] by (metis prod.collapse)
  then show ?thesis
    using post_only_never_takes [OF b(1) config_addressable0 typed b(3)] b(2,3)
    by (auto simp: maker_order_only_def limit_order_def report_def)
qed

text \<open>C15 (safety). A market order and an order that is not good-till-cancelled never rest (post-only orders
  apart, whose time in force is not looked at): the outcome is fully filled, partially filled and
  cancelled, or rejected, the own side of the book is unchanged, and the order id is not on the book.\<close>

theorem immediate_never_rests:
  assumes "reachable sha cfg b" and "config_addressable cfg" and "order_typed ord"
    and "place_with_report sha b ord = Some (Ok rep, b')"
    and "no_order_type ord = Market \<or> no_tif ord \<noteq> Gtc" and "no_order_type ord \<noteq> PostOnly"
  shows "(\<forall>r. mr_outcome (rep_result rep) \<noteq> Resting r \<and> mr_outcome (rep_result rep) \<noteq> PartiallyFilledResting r) \<and>
    book_orders b' (no_side ord) = book_orders b (no_side ord) \<and> \<not> book_contains b' (no_order_id ord)"
proof -
  obtain Q where rep: "book_rep sha b Q"
    using assms(1,2) by (rule reachable_rep)
  obtain Q' where rep': "book_rep sha b' Q'"
    using place_run(2) [OF assms(1-4)] assms(2) by (rule reachable_rep)
  note run = place_run(1) [OF assms(1-4)]
  have out: "\<forall>r. mr_outcome (rep_result rep) \<noteq> Resting r \<and> mr_outcome (rep_result rep) \<noteq> PartiallyFilledResting r"
    using run
  proof (cases rule: clob_execute_cases)
    case (matched qty r)
    show ?thesis
      using matched(7) by (cases rule: clob_settle_cases) (use assms(5) in auto)
  qed (use assms(6) in auto)
  then have own: "book_orders b' (no_side ord) = book_orders b (no_side ord)"
    using clob_execute_own [OF run] by (simp split: order_outcome.splits)
  have "\<not> clob_has (clob_of b) (no_order_id ord)"
    using run by (cases rule: clob_execute_cases) simp_all
  then have "\<not> clob_has (clob_of b') (no_order_id ord)"
    using own clob_execute_makers [OF run] reachable_makers_ok [OF assms(1,2)]
    by (cases "no_side ord") (auto simp: clob_has_def dest!: spec_makers_from)
  then show ?thesis
    using out own clob_has_rep [OF rep'] by simp
qed

definition sweep_order :: new_order where
  "sweep_order = (limit_order 4 3 Bid 0 12)\<lparr>no_order_type := Market\<rparr>"

theorem immediate_never_rests_witness:
  "\<exists>b b' rep. clob_of b = clob0 \<and> place_with_report sha0 b sweep_order = Some (Ok rep, b') \<and>
     mr_outcome (rep_result rep) = PartiallyFilledCancelled 10 \<and> \<not> book_contains b' 4"
proof -
  have typed: "order_typed sweep_order"
    by (simp add: sweep_order_def order_typed_def limit_order_def u32_max_def u64_max_def fits_def)
  obtain rep where rep: "fst (clob_execute clob0 sweep_order) = Ok rep"
    "mr_outcome (rep_result rep) = PartiallyFilledCancelled 10"
    by (simp add: sweep_order_def clob_eval clob0_def)
  then obtain b b' where b: "reachable sha0 cfg0 b" "clob_of b = clob0"
    "place_with_report sha0 b sweep_order = Some (Ok rep, b')"
    using example_place [OF typed, of "Ok rep"] by (metis prod.collapse)
  then show ?thesis
    using immediate_never_rests [OF b(1) config_addressable0 typed b(3)] rep(2)
    by (auto simp: sweep_order_def limit_order_def)
qed

section \<open>Where the code and its comments differ\<close>

text \<open>A post-only order is not immediate: with time in force fill-or-kill it is accepted and rests.\<close>

lemma post_only_ignores_time_in_force:
  "\<exists>b b'. reachable sha0 cfg0 b \<and>
     place_with_report sha0 b ((limit_order 4 3 Bid 95 1)\<lparr>no_order_type := PostOnly, no_tif := Fok\<rparr>) =
       Some (Ok (report [] (Resting 1) []), b')"
proof -
  let ?o = "(limit_order 4 3 Bid 95 1)\<lparr>no_order_type := PostOnly, no_tif := Fok\<rparr>"
  have typed: "order_typed ?o"
    by (simp add: order_typed_def limit_order_def u32_max_def u64_max_def fits_def)
  have "fst (clob_execute clob0 ?o) = Ok (report [] (Resting 1) [])"
    by (simp add: clob_eval clob0_def)
  then show ?thesis
    using example_place [OF typed] by (metis prod.collapse)
qed

text \<open>The price of a market order is not ignored: a buy with price 99 takes nothing at 100, one without a
  price does.\<close>

lemma market_price_is_a_collar:
  "\<exists>b b1 b2 rep. reachable sha0 cfg0 b \<and>
     place_with_report sha0 b ((limit_order 4 3 Bid 99 1)\<lparr>no_order_type := Market\<rparr>) =
       Some (Ok (report [] Rejected []), b1) \<and>
     place_with_report sha0 b ((limit_order 4 3 Bid 0 1)\<lparr>no_order_type := Market\<rparr>) = Some (Ok rep, b2) \<and>
     mr_outcome (rep_result rep) = FullyFilled"
proof -
  let ?m = "\<lambda>p. (limit_order 4 3 Bid p 1)\<lparr>no_order_type := Market\<rparr>"
  have typed: "order_typed (?m 99)" "order_typed (?m 0)"
    by (simp_all add: order_typed_def limit_order_def u32_max_def u64_max_def fits_def)
  obtain b where b: "reachable sha0 cfg0 b" "clob_of b = clob0"
    using example_reachable by blast
  obtain r1 b1 where one: "place_with_report sha0 b (?m 99) = Some (r1, b1)" "clob_execute clob0 (?m 99) = (r1, clob_of b1)"
    using reachable_place [OF b(1) config_addressable0 typed(1)] b(2) by metis
  obtain r2 b2 where two: "place_with_report sha0 b (?m 0) = Some (r2, b2)" "clob_execute clob0 (?m 0) = (r2, clob_of b2)"
    using reachable_place [OF b(1) config_addressable0 typed(2)] b(2) by metis
  have "fst (clob_execute clob0 (?m 99)) = Ok (report [] Rejected [])"
    by (simp add: clob_eval clob0_def)
  moreover obtain rep where "fst (clob_execute clob0 (?m 0)) = Ok rep" "mr_outcome (rep_result rep) = FullyFilled"
    by (simp add: clob_eval clob0_def)
  ultimately show ?thesis
    using b(1) one two by auto
qed

text \<open>Under the policy that cancels the taker, the remainder of a good-till-cancelled order stopped at an own
  order is cancelled, not rested: here nothing trades and nothing is left on the taker's side.\<close>

definition cfg_stop_taker :: book_config where
  "cfg_stop_taker = cfg0\<lparr>cfg_stp := CancelTaker\<rparr>"

lemma stopped_taker_never_rests:
  "\<exists>b b'. reachable sha0 cfg_stop_taker b \<and> no_tif (limit_order 2 1 Bid 100 5) = Gtc \<and>
     place_with_report sha0 b (limit_order 2 1 Bid 100 5) = Some (Ok (report [] Rejected []), b') \<and>
     book_orders b' Bid = []"
proof -
  let ?ask = "limit_order 1 1 Ask 100 5" and ?bid = "limit_order 2 1 Bid 100 5" and ?cfg = cfg_stop_taker
  let ?c = "\<lambda>ns. \<lparr>cl_config = ?cfg, cl_orders = (\<lambda>_. [])(Ask := ns), cl_position = (\<lambda>_. 0)\<rparr>"
  have typed: "config_addressable ?cfg" "order_typed ?ask" "order_typed ?bid"
    using config_addressable0 by (simp_all add: cfg_stop_taker_def config_addressable_def u32_max_def fits_def)
  have "book_rep sha0 (book_new ?cfg) (\<lambda>_ _. [])"
    by (rule book_new_rep) (simp add: cfg_stop_taker_def u32_max_def)
  then have "book_orders (book_new ?cfg) = (\<lambda>_. [])"
    using book_orders_rep by (fastforce simp: maker_list_def flat_def price_list_def split: side.splits)
  then have new: "clob_of (book_new ?cfg) = ?c []"
    by (simp add: clob_of_def position_def book_new_def fun_eq_iff)
  have "snd (clob_execute (?c []) ?ask) = ?c [node_new ?ask 5]"
    by (simp add: clob_eval cfg_stop_taker_def fun_eq_iff)
  then obtain b where b: "reachable sha0 ?cfg b" "clob_of b = ?c [node_new ?ask 5]"
    using reachable_place [OF reachable.reach_new typed(1,2)] new by (metis snd_conv)
  obtain r b' where b': "place_with_report sha0 b ?bid = Some (r, b')" "clob_execute (clob_of b) ?bid = (r, clob_of b')"
    using reachable_place [OF b(1) typed(1,3)] by metis
  have "clob_execute (?c [node_new ?ask 5]) ?bid = (Ok (report [] Rejected []), ?c [node_new ?ask 5])"
    by (simp add: clob_eval cfg_stop_taker_def fun_eq_iff)
  then have r: "r = Ok (report [] Rejected [])" and same: "clob_of b' = ?c [node_new ?ask 5]"
    using b'(2) b(2) by simp_all
  have "book_orders b' Bid = cl_orders (clob_of b') Bid"
    by (simp add: clob_of_def)
  then have "book_orders b' Bid = []"
    by (simp add: same)
  then show ?thesis
    using b(1) b'(1) r by (auto simp: limit_order_def)
qed

end
