(* ===== verification/BookSafety.thy ===== *)
theory BookSafety
  imports OrderKinds
begin

text \<open>
  Reduce-only orders, errors, replays and the read-only queries: the remaining properties of the order
  book, on every reachable book.
\<close>

section \<open>Reduce-only\<close>

definition resting_part :: "match_report \<Rightarrow> quantity" where
  "resting_part rep = (case mr_outcome (rep_result rep) of Resting r \<Rightarrow> r | PartiallyFilledResting r \<Rightarrow> r | _ \<Rightarrow> 0)"

lemma truthful_bound: "outcome_truthful qty rep \<Longrightarrow> 0 < qty \<Longrightarrow> traded (mr_fills (rep_result rep)) + resting_part rep \<le> qty"
  by (auto simp: outcome_truthful_def resting_part_def Let_def split: order_outcome.splits)

text \<open>C16 (safety). A reduce-only order never grows or flips a position: what it trades and what it leaves resting
  is, together, at most the account's long position for an ask and its short position for a bid.\<close>

theorem reduce_only_bounded:
  assumes "reachable sha cfg b" and "config_addressable cfg" and "order_typed ord"
    and "place_with_report sha b ord = Some (Ok rep, b')" and "no_reduce_only ord \<or> no_order_type ord = ReduceOnly"
  shows "traded (mr_fills (rep_result rep)) + resting_part rep \<le>
    max 0 (case no_side ord of Ask \<Rightarrow> position b (no_account ord) | Bid \<Rightarrow> - position b (no_account ord))"
proof -
  have run: "clob_execute (clob_of b) ord = (Ok rep, clob_of b')"
    using assms(1-4) by (rule place_run(1))
  then have pos: "0 < no_quantity ord"
    by (simp add: clob_execute_def split: if_splits)
  from clob_outcome_truthful [OF run] reachable_makers_ok [OF assms(1,2)]
  have "mr_outcome (rep_result rep) = Rejected \<and> mr_fills (rep_result rep) = [] \<or>
      (\<exists>qty. clob_clamp (clob_of b) ord = Some qty \<and> outcome_truthful qty rep)" by blast
  then show ?thesis
  proof (elim disjE exE conjE)
    fix qty
    assume qty: "clob_clamp (clob_of b) ord = Some qty" "outcome_truthful qty rep"
    have "traded (mr_fills (rep_result rep)) + resting_part rep \<le> qty"
      using truthful_bound [OF qty(2)] clamp_positive [OF qty(1) pos] by blast
    also have "qty \<le> max 0 (case no_side ord of Ask \<Rightarrow> position b (no_account ord) | Bid \<Rightarrow> - position b (no_account ord))"
      using qty(1) assms(5) by (auto simp: clob_clamp_def Let_def prim_saturate_def split: if_splits side.splits)
    finally show ?thesis .
  qed (simp add: resting_part_def)
qed

definition reduce_order :: new_order where
  "reduce_order = (limit_order 4 3 Bid 100 6)\<lparr>no_order_type := ReduceOnly\<rparr>"

lemma clob_of_set_position: "clob_of (set_position b a q) = (clob_of b)\<lparr>cl_position := (position b)(a := q)\<rparr>"
  by (simp add: clob_of_def set_position_def position_def book_orders_def fun_eq_iff)

theorem reduce_only_bounded_witness:
  "\<exists>b b' rep. position b 3 = - 4 \<and> place_with_report sha0 b reduce_order = Some (Ok rep, b') \<and>
     mr_outcome (rep_result rep) = FullyFilled \<and> traded (mr_fills (rep_result rep)) + resting_part rep \<le> 4"
proof -
  obtain b0 where b0: "reachable sha0 cfg0 b0" "clob_of b0 = clob0"
    using example_reachable by blast
  define b where "b = set_position b0 3 (- 4)"
  have b: "reachable sha0 cfg0 b"
    using reachable.reach_step [OF b0(1), of "SetPosition 3 (- 4)" b] by (simp add: b_def u32_max_def fits_def)
  have clob: "clob_of b = clob0\<lparr>cl_position := (cl_position clob0)(3 := - 4)\<rparr>"
    using clob_of_set_position [of b0 3 "- 4"] b0(2) clob_of_fields(3) [of b0] by (simp add: b_def)
  have typed: "order_typed reduce_order"
    by (simp add: reduce_order_def order_typed_def limit_order_def u32_max_def u64_max_def fits_def)
  obtain r b' where b': "place_with_report sha0 b reduce_order = Some (r, b')"
    "clob_execute (clob_of b) reduce_order = (r, clob_of b')"
    using reachable_place [OF b config_addressable0 typed] .
  have "clob_clamp (clob_of b) reduce_order = Some 4"
    by (simp add: clob clob_clamp_def clob0_def reduce_order_def limit_order_def prim_saturate_def)
  then obtain rep where rep: "fst (clob_execute (clob_of b) reduce_order) = Ok rep" "mr_outcome (rep_result rep) = FullyFilled"
    unfolding clob_execute_def by (simp add: clob reduce_order_def clob_eval clob0_def)
  have pos: "position b 3 = - 4"
    using arg_cong [OF clob, of "\<lambda>c. cl_position c 3"] by simp
  have "place_with_report sha0 b reduce_order = Some (Ok rep, b')"
    using b' rep(1) by simp
  then show ?thesis
    using reduce_only_bounded [OF b config_addressable0 typed] rep(2) pos
    by (auto simp: reduce_order_def limit_order_def)
qed

section \<open>Errors and replays\<close>

text \<open>C5 (error). A command that fails has no effect: when placing, replacing or submitting a basket returns an
  error, the book is exactly the one before, slab slots, level links, indexes and replay cache included.\<close>

theorem errors_leave_book:
  assumes "reachable sha cfg b" and "config_addressable cfg"
  shows "(order_typed ord \<longrightarrow> place_with_report sha b ord = Some (Err e, b1) \<longrightarrow> b1 = b) \<and>
    (i \<le> u64_max \<longrightarrow> fits I64 p \<longrightarrow> fits I64 q \<longrightarrow> replace_with_report sha b i p q = Some (Err e, b2) \<longrightarrow> b2 = b) \<and>
    ((\<forall>leg\<in>set legs. order_typed leg) \<longrightarrow> submit_basket sha b legs = Some (Err e, b3) \<longrightarrow> b3 = b)"
proof -
  obtain Q where rep: "book_rep sha b Q"
    using assms by (rule reachable_rep)
  then have "book_inv sha b"
    by (auto simp: book_inv_def)
  then show ?thesis
    using execute_Err_unchanged [OF rep] replace_Err_unchanged [OF rep] basket_Err_unchanged
    by (auto simp: place_with_report_def)
qed

theorem errors_leave_book_witness:
  "\<exists>b. clob_of b = clob0 \<and> place_with_report sha0 b (limit_order 1 3 Bid 100 1) = Some (Err DuplicateOrderId, b)"
proof -
  let ?o = "limit_order 1 3 Bid 100 1"
  have typed: "order_typed ?o"
    by (simp add: u32_max_def fits_def)
  have "fst (clob_execute clob0 ?o) = Err DuplicateOrderId"
    by (simp add: clob_eval clob0_def)
  then obtain b b' where b: "reachable sha0 cfg0 b" "clob_of b = clob0"
    "place_with_report sha0 b ?o = Some (Err DuplicateOrderId, b')"
    using example_place [OF typed] by (metis prod.collapse)
  then show ?thesis
    using errors_leave_book [OF b(1) config_addressable0, of ?o DuplicateOrderId b'] typed by auto
qed

text \<open>C17 (safety). A retried submission runs once: after a submission succeeded, submitting again with the same
  account and client id returns the recorded result and changes nothing, whatever the rest of the order says.\<close>

theorem submit_exactly_once:
  assumes "reachable sha cfg b" and "config_addressable cfg" and "0 < cfg_dedup_capacity cfg" and "order_typed ord"
    and "submit sha b ord = Some (Ok r, b')"
    and "no_account retry = no_account ord" and "no_client_id retry = no_client_id ord"
  shows "submit sha b' retry = Some (Ok r, b')"
proof -
  obtain Q where rep: "book_rep sha b Q" and cfg: "bk_config b = cfg"
    using assms(1,2) by (rule reachable_rep)
  have dd: "dd_wf (bk_dedup b)" "0 < dd_capacity (bk_dedup b)"
    using rep cfg assms(3) by (simp_all add: book_rep_def)
  have "submit_spec b ord = (Ok r, clob_of b', bk_dedup b')"
    using submit_refines [OF rep assms(4)] assms(5) by auto
  then have "dd_get (bk_dedup b') (no_account ord) (no_client_id ord) = Some r"
    using dd_get_insert_same [OF dd, of "no_account ord" "no_client_id ord" r]
    by (auto simp: submit_spec_def split: option.splits prod.splits sum.splits)
  then show ?thesis
    using assms(6,7) by (simp add: submit_def)
qed

theorem submit_exactly_once_witness:
  "\<exists>b' r. submit sha0 (book_new cfg0) (limit_order 1 1 Ask 100 5) = Some (Ok r, b') \<and>
     submit sha0 b' ((limit_order 9 1 Bid 7 3)\<lparr>no_client_id := 1\<rparr>) = Some (Ok r, b')"
proof -
  let ?o = "limit_order 1 1 Ask 100 5"
  have typed: "order_typed ?o"
    by (simp add: u32_max_def fits_def)
  have new: "reachable sha0 cfg0 (book_new cfg0)"
    by (rule reachable.reach_new)
  obtain Q where rep: "book_rep sha0 (book_new cfg0) Q"
    using new config_addressable0 by (rule reachable_rep)
  have empty: "dd_get (bk_dedup (book_new cfg0)) a k = None" for a k
    by (simp add: book_new_def dd_get_def dd_with_capacity_def)
  obtain r b' where b': "submit sha0 (book_new cfg0) ?o = Some (r, b')" "submit_spec (book_new cfg0) ?o = (r, clob_of b', bk_dedup b')"
    using submit_refines [OF rep typed] by blast
  have "fst (clob_execute (clob_of (book_new cfg0)) ?o) = Ok (report [] (Resting 5) [])"
    unfolding clob_of_new by (simp add: clob_eval)
  then obtain x where x: "r = Ok x"
    using b'(2) by (cases "clob_execute (clob_of (book_new cfg0)) ?o") (auto simp: submit_spec_def empty)
  have run: "submit sha0 (book_new cfg0) ?o = Some (Ok x, b')"
    using b'(1) x by simp
  have "submit sha0 b' ((limit_order 9 1 Bid 7 3)\<lparr>no_client_id := 1\<rparr>) = Some (Ok x, b')"
    by (rule submit_exactly_once [OF new config_addressable0 _ typed run]) (simp_all add: limit_order_def)
  then show ?thesis
    using run by blast
qed

section \<open>Queries\<close>

text \<open>C18 (equivalence). The incrementally maintained state root of a reachable book is the root of a full rebuild
  over the resting orders, for every hash function.\<close>

theorem state_root_incremental:
  assumes "reachable sha cfg b" and "config_addressable cfg"
  shows "state_root_full_rebuild sha b = Some (state_root sha b)"
  using reachable_rep [OF assms] rebuild_root by metis

theorem state_root_incremental_witness:
  "\<exists>b. clob_of b = clob0 \<and> state_root_full_rebuild sha0 b = Some (state_root sha0 b)"
  using example_reachable state_root_incremental [OF _ config_addressable0] by blast

text \<open>C22 (functional). The quantity queries: a level's quantity is the exact sum over the orders resting at its
  price, the total is the sum over all resting orders up to saturation, and the number of resting orders
  never exceeds the configured capacity.\<close>

theorem quantity_queries:
  assumes "reachable sha cfg b" and "config_addressable cfg"
  shows "level_quantity b sd p = sum_list (map nd_remaining (filter (\<lambda>n. nd_price n = p) (book_orders b sd))) \<and>
    total_resting_quantity b =
      Some (min (int_max I64) (sum_list (map nd_remaining (book_orders b Bid @ book_orders b Ask)))) \<and>
    resting_len b = length (book_orders b Bid @ book_orders b Ask) \<and> resting_len b \<le> cfg_capacity cfg"
proof -
  obtain Q where rep: "book_rep sha b Q" and cfg: "bk_config b = cfg"
    using assms by (rule reachable_rep)
  have "resting_len b \<le> cfg_capacity cfg"
    using rep cfg sl.len_le_cap [OF book_rep_wf [OF rep]] by (simp add: resting_len_def book_rep_def)
  then show ?thesis
    using clob_level_rep [OF rep, of sd p] total_resting_rep [OF rep] clob_count_rep [OF rep]
      sum_nonneg_rep [OF rep, of Bid] sum_nonneg_rep [OF rep, of Ask]
    by (simp add: level_quantity_def clob_level_def clob_count_def resting_len_def prim_saturate_def)
qed

theorem quantity_queries_witness:
  "\<exists>b. clob_of b = clob0 \<and> level_quantity b Ask 100 = 10 \<and> total_resting_quantity b = Some 14 \<and> resting_len b = 3"
proof -
  obtain b where b: "reachable sha0 cfg0 b" "clob_of b = clob0"
    using example_reachable by blast
  have "book_orders b = cl_orders clob0"
    using b(2) clob_of_fields(2) by metis
  then show ?thesis
    using quantity_queries [OF b(1) config_addressable0, of Ask 100] b(2) by (auto simp: clob0_def clob_eval)
qed

lemma resting_orders_rep:
  assumes rep: "book_rep sha b Q"
  shows "resting_orders b = map resting_view (sort_key nd_order_id (book_orders b Bid @ book_orders b Ask))"
proof -
  let ?all = "book_orders b Bid @ book_orders b Ask" and ?ys = "sort_key nd_order_id (book_orders b Bid @ book_orders b Ask)"
  have dist: "distinct (map nd_order_id ?all)"
    using rep by (rule order_ids_distinct)
  have "i \<in> set (omap_keys (bk_id_index b)) \<longleftrightarrow> book_contains b i" for i
    by (simp add: omap_keys_def om.key_iff book_contains_def)
  moreover have "book_contains b i \<longleftrightarrow> i \<in> set (map nd_order_id ?all)" for i
    unfolding clob_has_rep [OF rep, symmetric] clob_has_def by auto
  ultimately have keys: "set (omap_keys (bk_id_index b)) = set (map nd_order_id ?all)"
    by blast
  have "sort (omap_keys (bk_id_index b)) = map nd_order_id ?ys"
    using keys keys_ascending [of "bk_id_index b"] dist
    by (intro sorted_distinct_set_unique)
      (auto simp: strict_sorted_iff distinct_map inj_on_Un)
  moreover have "book_resting_order b (nd_order_id n) = Some (resting_view n)" if "n \<in> set ?ys" for n
  proof -
    have "List.find (\<lambda>m. nd_order_id m = nd_order_id n) ns = Some n"
      if "n \<in> set ns" "distinct (map nd_order_id ns)" for ns
      using that by (induction ns) auto
    then show ?thesis
      using that dist by (simp add: resting_order_rep [OF rep] clob_find_def)
  qed
  ultimately show ?thesis
    by (simp add: resting_orders_def map_filter_def comp_def cong: map_cong)
qed

text \<open>The lookups agree with the book: \<open>contains\<close>, \<open>owner\<close> and \<open>resting_order\<close> find exactly the
  resting order with the id, and \<open>resting_orders\<close> lists all of them in ascending id order.\<close>

theorem lookups_agree:
  assumes "reachable sha cfg b" and "config_addressable cfg"
  defines "all_orders \<equiv> book_orders b Bid @ book_orders b Ask"
  shows "book_resting_order b i = map_option resting_view (List.find (\<lambda>n. nd_order_id n = i) all_orders) \<and>
    owner b i = map_option nd_account (List.find (\<lambda>n. nd_order_id n = i) all_orders) \<and>
    (book_contains b i \<longleftrightarrow> i \<in> nd_order_id ` set all_orders) \<and>
    resting_orders b = map resting_view (sort_key nd_order_id all_orders)"
proof -
  obtain Q where rep: "book_rep sha b Q"
    using assms(1,2) by (rule reachable_rep)
  have find: "List.find (\<lambda>n. nd_order_id n = i) all_orders = clob_find (clob_of b) i"
    by (simp add: all_orders_def clob_find_def)
  have "owner b i = map_option nd_account (clob_find (clob_of b) i)"
  proof (cases "omap_get (bk_id_index b) i")
    case (Some loc)
    have "index_ok (live_orders b) (bk_id_index b)"
      using rep by (simp add: book_rep_def)
    from this Some show ?thesis
      by (rule index_ok_lookup) (simp add: owner_def clob_find_rep [OF rep] Some)
  qed (simp add: owner_def clob_find_rep [OF rep])
  moreover have "book_contains b i \<longleftrightarrow> i \<in> nd_order_id ` set all_orders"
    using clob_has_rep [OF rep, of i] by (auto simp: all_orders_def clob_has_def)
  ultimately show ?thesis
    using resting_order_rep [OF rep, of i] resting_orders_rep [OF rep] unfolding find unfolding all_orders_def by simp
qed

theorem lookups_agree_witness:
  "\<exists>b. clob_of b = clob0 \<and> owner b 2 = Some 2 \<and> map ro_order_id (resting_orders b) = [1, 2, 3]"
proof -
  obtain b where b: "reachable sha0 cfg0 b" "clob_of b = clob0"
    using example_reachable by blast
  have "book_orders b = cl_orders clob0"
    using b(2) clob_of_fields(2) by metis
  then show ?thesis
    using lookups_agree [OF b(1) config_addressable0, of 2] b(2)
    by (auto simp: clob0_def clob_eval resting_view_def intro!: exI [of _ b])
qed

text \<open>The resting pre-check is sound: when \<open>can_rest_without_match\<close> says yes for a good-till-cancelled
  limit order that is not reduce-only, placing the order rests it in full, without a fill or a cancellation.\<close>

theorem can_rest_sound:
  assumes "reachable sha cfg b" and "config_addressable cfg" and "order_typed ord"
    and "no_order_type ord = Limit" and "no_tif ord = Gtc" and "\<not> no_reduce_only ord"
    and "can_rest_without_match b ord = Ok True"
  shows "\<exists>b'. place_with_report sha b ord = Some (Ok (report [] (Resting (no_quantity ord)) []), b')"
proof -
  obtain Q where rep: "book_rep sha b Q" and cfg: "bk_config b = cfg"
    using assms(1,2) by (rule reachable_rep)
  let ?c = "clob_of b" and ?ms = "book_orders b (opposite (no_side ord))"
  have ok: "0 < no_quantity ord" "0 < no_price ord" "\<not> clob_has ?c (no_order_id ord)"
    "fits I64 (clob_level ?c (no_side ord) (no_price ord) + no_quantity ord)"
    "\<not> would_cross b (no_side ord) (no_price ord)" "\<not> slab_is_full (bk_slab b)"
    using assms(7) by (auto simp: can_rest_without_match_def and_then_Inr_iff scalar_checked_add_def Let_def
        clob_level_rep [OF rep] clob_has_rep [OF rep] split: if_splits)
  have room: "clob_count ?c < cfg_capacity (cl_config ?c)"
    using ok(6) sl.len_le_cap [OF book_rep_wf [OF rep]] rep
    by (auto simp: clob_count_rep [OF rep] slab_is_full_def book_rep_def)
  have "spec_match stp ord False q ?ms =
      \<lparr>sp_stopped = False, sp_remaining = q, sp_fills = [], sp_stp = [], sp_makers = ?ms\<rparr>" for stp q
    using ok(5) would_cross_head [OF rep, of "no_side ord"] by (intro spec_match_no_cross) (simp add: book_orders_rep [OF rep])
  then have "fst (clob_execute ?c ord) = Ok (report [] (Resting (no_quantity ord)) [])"
    using ok assms(4-6) room
    by (simp add: clob_execute_def clob_clamp_def clob_settle_def clob_rest_def clob_count_def clob_level_def Let_def)
  then show ?thesis
    using reachable_place [OF assms(1-3)] by (metis fst_conv)
qed

theorem can_rest_sound_witness:
  "\<exists>b'. can_rest_without_match (book_new cfg0) (limit_order 1 1 Ask 100 5) = Ok True \<and>
     place_with_report sha0 (book_new cfg0) (limit_order 1 1 Ask 100 5) = Some (Ok (report [] (Resting 5) []), b')"
proof -
  let ?o = "limit_order 1 1 Ask 100 5"
  have typed: "order_typed ?o"
    by (simp add: u32_max_def fits_def)
  have "can_rest_without_match (book_new cfg0) ?o = Ok True"
    by (simp add: can_rest_without_match_def limit_order_def book_contains_def would_cross_def best_price_def
        book_new_def side_of_def side_new_def slab_is_full_def with_capacity_def level_total_def
        scalar_checked_add_def prim_checked_def fits_def omap_keys_def omap_last_def)
  then show ?thesis
    using can_rest_sound [OF reachable.reach_new config_addressable0 typed] by (auto simp: limit_order_def)
qed

end
