(* ===== verification/SimdKernel.thy ===== *)
theory SimdKernel
  imports Orders
begin

text \<open>
  The batched notional kernel of \<open>crates/simd/src/matching.rs\<close> and the backend selection of
  \<open>crates/simd/src/backend.rs\<close>. The vector instructions are the lane-wise operations their
  documentation gives, on machine words; the target architecture and the feature bits of the host are
  a record.
\<close>

unbundle bit_operations_syntax

section \<open>Backends\<close>

datatype target_arch = X86_64 | Aarch64 | OtherArch

record host =
  h_arch :: target_arch
  h_avx2 :: bool
  h_avx512 :: bool

definition has_avx2 :: "host \<Rightarrow> bool" where
  "has_avx2 h \<longleftrightarrow> h_arch h = X86_64 \<and> h_avx2 h"

definition has_avx512 :: "host \<Rightarrow> bool" where
  "has_avx512 h \<longleftrightarrow> h_arch h = X86_64 \<and> h_avx512 h"

fun is_available :: "host \<Rightarrow> backend \<Rightarrow> bool" where
  "is_available h Scalar = True"
| "is_available h Avx2 = has_avx2 h"
| "is_available h Avx512 = has_avx512 h"
| "is_available h Neon = (h_arch h = Aarch64)"

fun backend_name :: "backend \<Rightarrow> string" where
  "backend_name Scalar = ''scalar''"
| "backend_name Avx2 = ''avx2''"
| "backend_name Avx512 = ''avx512''"
| "backend_name Neon = ''neon''"

datatype backend_error = Unknown string | Unavailable backend

definition force :: "host \<Rightarrow> string \<Rightarrow> (backend, backend_error) result" where
  "force h name =
     and_then
       (if name = ''scalar'' then Ok Scalar
        else if name = ''avx2'' then Ok Avx2
        else if name = ''avx512'' then Ok Avx512
        else if name = ''neon'' then Ok Neon
        else Err (Unknown name))
       (\<lambda>b. if is_available h b then Ok b else Err (Unavailable b))"

definition detect_uncached :: "host \<Rightarrow> backend" where
  "detect_uncached h =
     (if is_available h Avx512 then Avx512
      else if is_available h Avx2 then Avx2
      else if is_available h Neon then Neon
      else Scalar)"

lemma detect_available: "is_available h (detect_uncached h)"
  by (simp add: detect_uncached_def)

lemma force_name: "force h (backend_name b) = (if is_available h b then Ok b else Err (Unavailable b))"
  by (cases b) (simp_all add: force_def)

section \<open>The kernel\<close>

definition MATCH_BATCH_LANES :: nat where "MATCH_BATCH_LANES = 8"

record match_notional =
  mn_notional :: amount
  mn_notional_ceil :: amount

definition NOTIONAL_DIVISOR :: int where
  "NOTIONAL_DIVISOR = (PRICE_SCALE * QTY_SCALE) sdiv AMOUNT_SCALE"

definition from_product :: "int \<Rightarrow> match_notional" where
  "from_product product =
     (let quotient = product sdiv NOTIONAL_DIVISOR; remainder = product smod NOTIONAL_DIVISOR
      in \<lparr>mn_notional = quotient, mn_notional_ceil = (if remainder > 0 then quotient + 1 else quotient)\<rparr>)"

text \<open>The returned flag and the output slice after the call.\<close>

definition matching_notionals_scalar ::
  "int list \<Rightarrow> int list \<Rightarrow> match_notional list \<Rightarrow> bool \<times> match_notional list" where
  "matching_notionals_scalar prices quantities output =
     (if length prices \<noteq> length quantities \<or> length prices \<noteq> length output then (False, output)
      else (True, map2 (\<lambda>p q. from_product (p * q)) prices quantities))"

definition chunk_fits_u32 :: "int list \<Rightarrow> int list \<Rightarrow> bool" where
  "chunk_fits_u32 prices quantities =
     list_all (\<lambda>(p, q). 0 \<le> p \<and> p \<le> int u32_max \<and> 0 \<le> q \<and> q \<le> int u32_max) (zip prices quantities)"

text \<open>\<open>u32::try_from(x).unwrap_or(0)\<close>\<close>

definition u32_lane :: "int \<Rightarrow> 32 word" where
  "u32_lane x = (if 0 \<le> x \<and> x \<le> int u32_max then word_of_int x else 0)"

text \<open>\<open>vmull_u32\<close> multiplies two 32-bit lanes into 64-bit lanes; \<open>_mm256_mul_epu32\<close> and
  \<open>_mm512_mul_epu32\<close> multiply the low halves of 64-bit lanes.\<close>

definition vmull_u32 :: "32 word list \<Rightarrow> 32 word list \<Rightarrow> 64 word list" where
  "vmull_u32 = map2 (\<lambda>a b. ucast a * ucast b)"

definition mul_epu32 :: "64 word list \<Rightarrow> 64 word list \<Rightarrow> 64 word list" where
  "mul_epu32 = map2 (\<lambda>a b. take_bit 32 a * take_bit 32 b)"

text \<open>Storing the products: \<open>output.iter_mut().zip(products)\<close>.\<close>

definition store_products :: "match_notional list \<Rightarrow> 64 word list \<Rightarrow> match_notional list" where
  "store_products output products =
     map2 (\<lambda>_ product. from_product (uint product)) output products @ drop (length products) output"

definition multiply_neon :: "int list \<Rightarrow> int list \<Rightarrow> match_notional list \<Rightarrow> match_notional list" where
  "multiply_neon prices quantities output =
     (let price = map (\<lambda>i. u32_lane (prices ! i)) [0, 1, 2, 3];
          quantity = map (\<lambda>i. u32_lane (quantities ! i)) [0, 1, 2, 3];
          low = vmull_u32 (take 2 price) (take 2 quantity);
          high = vmull_u32 (drop 2 price) (drop 2 quantity)
      in store_products output (low @ high))"

definition multiply_avx2 :: "int list \<Rightarrow> int list \<Rightarrow> match_notional list \<Rightarrow> match_notional list" where
  "multiply_avx2 prices quantities output =
     (let price = map (\<lambda>i. ucast (u32_lane (prices ! i))) [0, 1, 2, 3];
          quantity = map (\<lambda>i. ucast (u32_lane (quantities ! i))) [0, 1, 2, 3]
      in store_products output (mul_epu32 price quantity))"

definition multiply_avx512 :: "int list \<Rightarrow> int list \<Rightarrow> match_notional list \<Rightarrow> match_notional list" where
  "multiply_avx512 prices quantities output =
     (let price = map (\<lambda>i. ucast (u32_lane (prices ! i))) [0, 1, 2, 3, 4, 5, 6, 7];
          quantity = map (\<lambda>i. ucast (u32_lane (quantities ! i))) [0, 1, 2, 3, 4, 5, 6, 7]
      in store_products output (mul_epu32 price quantity))"

text \<open>The loop over whole blocks of \<open>n\<close> lanes, then the scalar tail.\<close>

function block_loop ::
  "nat \<Rightarrow> (int list \<Rightarrow> int list \<Rightarrow> match_notional list \<Rightarrow> match_notional list) \<Rightarrow>
   int list \<Rightarrow> int list \<Rightarrow> match_notional list \<Rightarrow> bool \<times> match_notional list" where
  "block_loop n multiply prices quantities output =
     (if n = 0 \<or> length prices < n then matching_notionals_scalar prices quantities output
      else
        (let p = take n prices; q = take n quantities; out = take n output;
             block = (if chunk_fits_u32 p q then multiply p q out
                      else snd (matching_notionals_scalar p q out));
             (converted, rest) = block_loop n multiply (drop n prices) (drop n quantities) (drop n output)
         in (converted, block @ rest)))"
  by auto
termination
  by (relation "measure (\<lambda>(n, m, ps, qs, out). length ps)") auto

definition matching_notionals ::
  "host \<Rightarrow> backend \<Rightarrow> int list \<Rightarrow> int list \<Rightarrow> match_notional list \<Rightarrow> bool \<times> match_notional list" where
  "matching_notionals h backend prices quantities output =
     (if length prices \<noteq> length quantities \<or> length prices \<noteq> length output then (False, output)
      else if h_arch h = X86_64 \<and> backend = Avx512 \<and> is_available h Avx512 then
        block_loop 8 multiply_avx512 prices quantities output
      else if h_arch h = X86_64 \<and> backend = Avx2 \<and> is_available h Avx2 then
        block_loop 4 multiply_avx2 prices quantities output
      else if h_arch h = Aarch64 \<and> backend = Neon then
        block_loop 4 multiply_neon prices quantities output
      else matching_notionals_scalar prices quantities output)"

section \<open>The lanes compute the exact products\<close>

declare block_loop.simps [simp del]

lemma u32_max_int: "int u32_max = 2 ^ 32 - 1"
  by (simp add: u32_max_def)

lemma lane_product:
  assumes "0 \<le> p" "p \<le> int u32_max" "0 \<le> q" "q \<le> int u32_max"
  shows "uint (ucast (u32_lane p) * ucast (u32_lane q) :: 64 word) = p * q"
proof -
  have "p < 2 ^ 32" "q < 2 ^ 32"
    using assms by (simp_all add: u32_max_int)
  moreover from this have "p * q < 2 ^ 64"
    using assms mult_strict_mono [of p "2 ^ 32" q "2 ^ 32"] by (cases "q = 0") auto
  ultimately show ?thesis
    using assms
    by (simp add: u32_lane_def uint_word_arith_bintrs unsigned_ucast_eq unsigned_of_int take_bit_int_eq_self)
qed

lemma take_bit_lane: "take_bit 32 (ucast w :: 64 word) = ucast w" for w :: "32 word"
  by transfer simp

text \<open>What a multiply has to do on a block of its lane count.\<close>

definition exact_lanes :: "nat \<Rightarrow> (int list \<Rightarrow> int list \<Rightarrow> match_notional list \<Rightarrow> match_notional list) \<Rightarrow> bool" where
  "exact_lanes n multiply \<longleftrightarrow>
     (\<forall>p q out. length p = n \<longrightarrow> length q = n \<longrightarrow> length out = n \<longrightarrow> chunk_fits_u32 p q \<longrightarrow>
        multiply p q out = map2 (\<lambda>p q. from_product (p * q)) p q)"

lemma length_4: "length xs = 4 \<longleftrightarrow> (\<exists>a b c d. xs = [a, b, c, d])"
  by (auto simp: numeral_eq_Suc length_Suc_conv)

lemma length_8: "length xs = 8 \<longleftrightarrow> (\<exists>a b c d e f g h. xs = [a, b, c, d, e, f, g, h])"
  by (auto simp: numeral_eq_Suc length_Suc_conv)

lemma exact_neon: "exact_lanes 4 multiply_neon"
  unfolding exact_lanes_def length_4
  by (auto simp: multiply_neon_def vmull_u32_def store_products_def chunk_fits_u32_def lane_product)

lemma exact_avx2: "exact_lanes 4 multiply_avx2"
  unfolding exact_lanes_def length_4
  by (auto simp: multiply_avx2_def mul_epu32_def store_products_def chunk_fits_u32_def take_bit_lane lane_product)

lemma exact_avx512: "exact_lanes 8 multiply_avx512"
  unfolding exact_lanes_def length_8
  by (auto simp: multiply_avx512_def mul_epu32_def store_products_def chunk_fits_u32_def take_bit_lane lane_product)

lemma block_loop_scalar:
  assumes "exact_lanes n multiply" and "length prices = length quantities" and "length prices = length outs"
  shows "block_loop n multiply prices quantities outs = matching_notionals_scalar prices quantities outs"
  using assms
proof (induction n multiply prices quantities outs rule: block_loop.induct)
  case (1 n multiply prices quantities outs)
  show ?case
  proof (cases "n = 0 \<or> length prices < n")
    case True
    then show ?thesis by (subst block_loop.simps) simp
  next
    case False
    let ?f = "\<lambda>p q. from_product (p * q)"
    have lens: "length (take n prices) = n" "length (take n quantities) = n" "length (take n outs) = n"
      using False 1 by simp_all
    have block: "(if chunk_fits_u32 (take n prices) (take n quantities)
        then multiply (take n prices) (take n quantities) (take n outs)
        else snd (matching_notionals_scalar (take n prices) (take n quantities) (take n outs))) =
        map2 ?f (take n prices) (take n quantities)"
      using 1(2) lens by (auto simp: exact_lanes_def matching_notionals_scalar_def)
    have rest: "block_loop n multiply (drop n prices) (drop n quantities) (drop n outs) =
        (True, map2 ?f (drop n prices) (drop n quantities))"
      using 1 False by (simp add: matching_notionals_scalar_def)
    have "map2 ?f (take n prices) (take n quantities) @ map2 ?f (drop n prices) (drop n quantities) =
        map2 ?f prices quantities"
      using lens by (simp flip: map_append zip_append)
    then show ?thesis
      using False block rest 1 by (subst block_loop.simps) (simp add: Let_def matching_notionals_scalar_def)
  qed
qed

lemma kernel_scalar:
  "matching_notionals h backend prices quantities output = matching_notionals_scalar prices quantities output"
proof (cases "length prices \<noteq> length quantities \<or> length prices \<noteq> length output")
  case True
  then show ?thesis
    by (auto simp: matching_notionals_def matching_notionals_scalar_def)
next
  case False
  then show ?thesis
    using block_loop_scalar [OF exact_avx512] block_loop_scalar [OF exact_avx2] block_loop_scalar [OF exact_neon]
    by (auto simp: matching_notionals_def)
qed

text \<open>C28 (equivalence). The vector kernels are bit-identical to the scalar reference: for every architecture,
  host feature set, requested backend and input, the dispatched kernel returns the flag and the output
  slice of the scalar reference, whether blocks take the 32-bit lanes, the wide fallback or the tail.\<close>

theorem kernel_bit_identical:
  "matching_notionals h backend prices quantities output = matching_notionals_scalar prices quantities output"
  by (rule kernel_scalar)

section \<open>The kernel and the scalar types agree\<close>

lemma from_product_notional:
  assumes "fits I64 p" and "fits I64 q"
  shows "notional p q = Ok (mn_notional (from_product (p * q)))"
    and "notional_ceil p q = Ok (mn_notional_ceil (from_product (p * q)))"
proof -
  have div: "NOTIONAL_DIVISOR = notional_divisor"
    by (simp add: NOTIONAL_DIVISOR_def notional_divisor_def)
  show "notional p q = Ok (mn_notional (from_product (p * q)))"
    using assms by (simp add: notional_def prim_checked_fits i64_product_fits from_product_def Let_def div)
  show "notional_ceil p q = Ok (mn_notional_ceil (from_product (p * q)))"
    using assms notional_ceil_i64 [OF assms]
    by (simp add: notional_ceil_def prim_checked_fits i64_product_fits from_product_def Let_def div ceil_quotient_def
        split: if_splits)
qed

end
