(* ===== verification/Planner.thy ===== *)
theory Planner
  imports Book SimdKernel
begin

text \<open>
  The dry-run planner of \<open>crates/orderbook/src/book.rs\<close>: \<open>plan_match\<close>, \<open>plan_match_summary\<close> and the
  batched aggregation of \<open>SummaryBatch\<close>. The sources walk the depth twice, once per aggregation, with the
  same loop; here the walk is one definition over the action taken for each planned fill. \<open>None\<close> is a
  call that does not return.
\<close>

section \<open>The walk\<close>

type_synonym 's fill_step = "price \<Rightarrow> node \<Rightarrow> quantity \<Rightarrow> 's \<Rightarrow> ('s, order_error) result option"

text \<open>One level, from its head: whether to go on, the quantity still wanted, the aggregation state.\<close>

partial_function (option) scan_chain ::
  "node slab \<Rightarrow> stp_policy \<Rightarrow> account_id \<Rightarrow> 's fill_step \<Rightarrow> price \<Rightarrow> nat \<Rightarrow> quantity \<Rightarrow> 's \<Rightarrow>
   (bool \<times> quantity \<times> 's, order_error) result option" where
  "scan_chain sl stp taker step price cur remaining s =
     (if cur = NIL \<or> remaining \<le> 0 then Some (Ok (remaining > 0, remaining, s))
      else case slab_get sl cur of
        None \<Rightarrow> Some (Ok (False, remaining, s))
      | Some maker \<Rightarrow>
          if nd_account maker = taker then
            (case stp of
               CancelMaker \<Rightarrow> scan_chain sl stp taker step price (nd_next maker) remaining s
             | CancelTaker \<Rightarrow> Some (Ok (False, remaining, s))
             | CancelBoth \<Rightarrow> Some (Ok (False, remaining, s)))
          else
            (let fill_qty = min remaining (nd_remaining maker) in
             case step price maker fill_qty s of
               None \<Rightarrow> None
             | Some (Inl e) \<Rightarrow> Some (Err e)
             | Some (Inr s') \<Rightarrow>
                 scan_chain sl stp taker step price (nd_next maker)
                   (prim_saturate I64 (remaining - fill_qty)) s'))"

fun scan_levels ::
  "node slab \<Rightarrow> stp_policy \<Rightarrow> new_order \<Rightarrow> bool \<Rightarrow> 's fill_step \<Rightarrow> (price \<times> level) list \<Rightarrow> quantity \<Rightarrow> 's \<Rightarrow>
   ('s, order_error) result option" where
  "scan_levels sl stp ord is_market step [] remaining s = Some (Ok s)"
| "scan_levels sl stp ord is_market step ((price, lv) # rest) remaining s =
     (if remaining \<le> 0 \<or> \<not> crosses (no_side ord) is_market (no_price ord) price then Some (Ok s)
      else case scan_chain sl stp (no_account ord) step price (lv_head lv) remaining s of
        None \<Rightarrow> None
      | Some (Inl e) \<Rightarrow> Some (Err e)
      | Some (Inr (go_on, remaining', s')) \<Rightarrow>
          if go_on then scan_levels sl stp ord is_market step rest remaining' s' else Some (Ok s'))"

text \<open>The guards of both scans, then the walk over the opposite side.\<close>

definition scan_depth :: "order_book \<Rightarrow> new_order \<Rightarrow> 's fill_step \<Rightarrow> 's \<Rightarrow> ('s, order_error) result option" where
  "scan_depth b ord step s =
     (let is_market = (no_order_type ord = Market) in
      if no_quantity ord \<le> 0 then Some (Err NonPositiveQuantity)
      else if \<not> is_market \<and> no_price ord \<le> 0 then Some (Err NonPositivePrice)
      else scan_levels (bk_slab b) (cfg_stp (bk_config b)) ord is_market step
             (levels_best_first (side_of (opposite (no_side ord)) b)) (no_quantity ord) s)"

section \<open>The scalar scan\<close>

definition worst_of :: "side \<Rightarrow> price \<Rightarrow> price option \<Rightarrow> price" where
  "worst_of ts price worst =
     (case worst of
        None \<Rightarrow> price
      | Some w \<Rightarrow>
          (case ts of
             Bid \<Rightarrow> if price > w then price else w
           | Ask \<Rightarrow> if price < w then price else w))"

definition plan_fill :: "node \<Rightarrow> quantity \<Rightarrow> planned_fill" where
  "plan_fill maker q =
     \<lparr>pf_maker_order = nd_order_id maker, pf_maker_account = nd_account maker, pf_price = nd_price maker,
      pf_quantity = q\<rparr>"

definition summary_zero :: match_summary where
  "summary_zero = \<lparr>ms_filled_quantity = 0, ms_worst_price = None, ms_notional = 0, ms_notional_ceil = 0\<rparr>"

text \<open>The update closure of \<open>scan_match\<close>, ending in the caller's \<open>on_fill\<close>.\<close>

definition scan_update ::
  "side \<Rightarrow> (planned_fill \<Rightarrow> 'c \<Rightarrow> ('c, order_error) result) \<Rightarrow> (match_summary \<times> 'c) fill_step" where
  "scan_update ts on_fill price maker q s =
     (case s of (m, c) \<Rightarrow>
       Some (and_then (map_err (\<lambda>_. OrderOverflow) (notional price q)) (\<lambda>n.
             and_then (map_err (\<lambda>_. OrderOverflow) (scalar_checked_add I128 (ms_notional m) n)) (\<lambda>total.
             and_then (map_err (\<lambda>_. OrderOverflow) (notional_ceil price q)) (\<lambda>nc.
             and_then (map_err (\<lambda>_. OrderOverflow) (scalar_checked_add I128 (ms_notional_ceil m) nc)) (\<lambda>total_ceil.
             and_then (on_fill (plan_fill maker q) c) (\<lambda>c'.
             Ok (\<lparr>ms_filled_quantity = scalar_saturating_add I64 (ms_filled_quantity m) q,
                  ms_worst_price = Some (worst_of ts price (ms_worst_price m)),
                  ms_notional = total, ms_notional_ceil = total_ceil\<rparr>, c'))))))))"

definition scan_match ::
  "order_book \<Rightarrow> new_order \<Rightarrow> (planned_fill \<Rightarrow> 'c \<Rightarrow> ('c, order_error) result) \<Rightarrow> 'c \<Rightarrow>
   (match_summary \<times> 'c, order_error) result option" where
  "scan_match b ord on_fill c = scan_depth b ord (scan_update (no_side ord) on_fill) (summary_zero, c)"

definition plan_match :: "order_book \<Rightarrow> new_order \<Rightarrow> (match_plan, order_error) result option" where
  "plan_match b ord =
     do { r \<leftarrow> scan_match b ord (\<lambda>f fills. Ok (fills @ [f])) [];
          Some (and_then r (\<lambda>(m, fills).
            Ok \<lparr>ms_filled_quantity = ms_filled_quantity m, ms_worst_price = ms_worst_price m,
                ms_notional = ms_notional m, ms_notional_ceil = ms_notional_ceil m, mp_fills = fills\<rparr>)) }"

section \<open>The batched scan\<close>

record summary_batch =
  bt_backend :: backend
  bt_taker_side :: side
  bt_prices :: "int list"
  bt_quantities :: "int list"
  bt_notionals :: "match_notional list"
  bt_len :: nat
  bt_filled :: quantity
  bt_worst :: "price option"
  bt_notional :: amount
  bt_notional_ceil :: amount

definition batch_new :: "backend \<Rightarrow> side \<Rightarrow> summary_batch" where
  "batch_new backend ts =
     \<lparr>bt_backend = backend, bt_taker_side = ts, bt_prices = replicate MATCH_BATCH_LANES 0,
      bt_quantities = replicate MATCH_BATCH_LANES 0,
      bt_notionals = replicate MATCH_BATCH_LANES \<lparr>mn_notional = 0, mn_notional_ceil = 0\<rparr>, bt_len = 0,
      bt_filled = 0, bt_worst = None, bt_notional = 0, bt_notional_ceil = 0\<rparr>"

text \<open>The accumulation loop of \<open>flush\<close> over the lanes. On an error the batch is not used again.\<close>

fun flush_lanes :: "nat list \<Rightarrow> summary_batch \<Rightarrow> (summary_batch, order_error) result" where
  "flush_lanes [] bt = Ok bt"
| "flush_lanes (lane # lanes) bt =
     (let price = bt_prices bt ! lane; quantity = bt_quantities bt ! lane in
      and_then (map_err (\<lambda>_. OrderOverflow)
          (scalar_checked_add I128 (bt_notional bt) (mn_notional (bt_notionals bt ! lane)))) (\<lambda>n.
      and_then (map_err (\<lambda>_. OrderOverflow)
          (scalar_checked_add I128 (bt_notional_ceil bt) (mn_notional_ceil (bt_notionals bt ! lane)))) (\<lambda>nc.
      flush_lanes lanes
        (bt\<lparr>bt_filled := scalar_saturating_add I64 (bt_filled bt) quantity, bt_notional := n,
            bt_notional_ceil := nc, bt_worst := Some (worst_of (bt_taker_side bt) price (bt_worst bt))\<rparr>))))"

definition batch_flush :: "host \<Rightarrow> summary_batch \<Rightarrow> (summary_batch, order_error) result" where
  "batch_flush h bt =
     (if bt_len bt = 0 then Ok bt
      else
        (let n = bt_len bt;
             (converted, out) = matching_notionals h (bt_backend bt) (take n (bt_prices bt))
                                  (take n (bt_quantities bt)) (take n (bt_notionals bt))
         in if \<not> converted then Err OrderOverflow
            else and_then (flush_lanes [0..<n] (bt\<lparr>bt_notionals := out @ drop n (bt_notionals bt)\<rparr>))
                   (\<lambda>bt'. Ok (bt'\<lparr>bt_len := 0\<rparr>))))"

text \<open>Writing a lane outside the arrays would panic.\<close>

definition batch_push :: "host \<Rightarrow> summary_batch fill_step" where
  "batch_push h price maker quantity bt =
     (if bt_len bt \<ge> MATCH_BATCH_LANES then None
      else
        (let bt' = bt\<lparr>bt_prices := (bt_prices bt)[bt_len bt := price],
                      bt_quantities := (bt_quantities bt)[bt_len bt := quantity], bt_len := bt_len bt + 1\<rparr>
         in Some (if bt_len bt' = MATCH_BATCH_LANES then batch_flush h bt' else Ok bt')))"

definition batch_finish :: "host \<Rightarrow> summary_batch \<Rightarrow> (match_summary, order_error) result" where
  "batch_finish h bt =
     and_then (batch_flush h bt) (\<lambda>bt'.
       Ok \<lparr>ms_filled_quantity = bt_filled bt', ms_worst_price = bt_worst bt', ms_notional = bt_notional bt',
           ms_notional_ceil = bt_notional_ceil bt'\<rparr>)"

definition scan_match_summary_batched ::
  "host \<Rightarrow> order_book \<Rightarrow> new_order \<Rightarrow> backend \<Rightarrow> (match_summary, order_error) result option" where
  "scan_match_summary_batched h b ord backend =
     do { r \<leftarrow> scan_depth b ord (batch_push h) (batch_new backend (no_side ord));
          Some (and_then r (batch_finish h)) }"

definition plan_match_summary_with_backend ::
  "host \<Rightarrow> order_book \<Rightarrow> new_order \<Rightarrow> backend \<Rightarrow> (match_summary, order_error) result option" where
  "plan_match_summary_with_backend h b ord backend =
     (if backend = Scalar then
        do { r \<leftarrow> scan_match b ord (\<lambda>_ u. Ok u) (); Some (and_then r (\<lambda>(m, _). Ok m)) }
      else scan_match_summary_batched h b ord backend)"

definition plan_match_summary :: "host \<Rightarrow> order_book \<Rightarrow> new_order \<Rightarrow> (match_summary, order_error) result option" where
  "plan_match_summary h b ord = plan_match_summary_with_backend h b ord (cfg_matching_backend (bk_config b))"

end
