(* ===== verification/PlanRefine.thy ===== *)
theory PlanRefine
  imports BookSafety Planner
begin

text \<open>
  The planner against matching. The walk visits exactly the fills that matching would make, in order;
  the sums cannot overflow; the batched aggregation computes what the scalar one does. So the plan
  predicts the execution.
\<close>

section \<open>The walk on a list of orders\<close>

fun plan_list :: "stp_policy \<Rightarrow> new_order \<Rightarrow> bool \<Rightarrow> quantity \<Rightarrow> node list \<Rightarrow> (node \<times> quantity) list" where
  "plan_list stp taker mkt rem [] = []"
| "plan_list stp taker mkt rem (m # ms) =
     (if rem \<le> 0 \<or> \<not> crosses (no_side taker) mkt (no_price taker) (nd_price m) then []
      else if nd_account m = no_account taker then
        (if stp = CancelMaker then plan_list stp taker mkt rem ms else [])
      else if rem < nd_remaining m then [(m, rem)]
      else (m, nd_remaining m) # plan_list stp taker mkt (rem - nd_remaining m) ms)"

lemma plan_list_done: "rem \<le> 0 \<Longrightarrow> plan_list stp taker mkt rem ms = []"
  by (cases ms) simp_all

lemma spec_fills_plan:
  "sp_fills (spec_match stp taker mkt rem ms) = map (\<lambda>(m, q). make_fill taker m q) (plan_list stp taker mkt rem ms)"
  by (induction stp taker mkt rem ms rule: spec_match.induct) (auto simp: Let_def split: stp_policy.splits)

lemma plan_list_props:
  assumes "(m, q) \<in> set (plan_list stp taker mkt rem ms)" and "makers_ok ms"
  shows "m \<in> set ms \<and> 0 < q \<and> q \<le> nd_remaining m"
  using assms by (induction stp taker mkt rem ms rule: plan_list.induct) (auto split: if_splits)

lemma plan_list_sum: "makers_ok ms \<Longrightarrow> 0 \<le> rem \<Longrightarrow> sum_list (map snd (plan_list stp taker mkt rem ms)) \<le> rem"
proof (induction stp taker mkt rem ms rule: plan_list.induct)
  case (2 stp taker mkt rem m ms)
  then show ?case by (cases "rem < nd_remaining m") auto
qed simp

text \<open>A fold with an early exit, over the planned fills.\<close>

fun fold_steps :: "'s fill_step \<Rightarrow> (node \<times> quantity) list \<Rightarrow> 's \<Rightarrow> ('s, order_error) result option" where
  "fold_steps step [] s = Some (Ok s)"
| "fold_steps step ((m, q) # xs) s =
     (case step (nd_price m) m q s of
        None \<Rightarrow> None
      | Some (Inl e) \<Rightarrow> Some (Err e)
      | Some (Inr s') \<Rightarrow> fold_steps step xs s')"

fun scan_level :: "stp_policy \<Rightarrow> account_id \<Rightarrow> 's fill_step \<Rightarrow> quantity \<Rightarrow> 's \<Rightarrow> node list \<Rightarrow>
   (bool \<times> quantity \<times> 's, order_error) result option" where
  "scan_level stp taker step rem s [] = Some (Ok (rem > 0, rem, s))"
| "scan_level stp taker step rem s (n # ns) =
     (if rem \<le> 0 then Some (Ok (False, rem, s))
      else if nd_account n = taker then
        (if stp = CancelMaker then scan_level stp taker step rem s ns else Some (Ok (False, rem, s)))
      else let q = min rem (nd_remaining n) in
        case step (nd_price n) n q s of
          None \<Rightarrow> None
        | Some (Inl e) \<Rightarrow> Some (Err e)
        | Some (Inr s') \<Rightarrow> scan_level stp taker step (prim_saturate I64 (rem - q)) s' ns)"

fun scan_makers :: "stp_policy \<Rightarrow> new_order \<Rightarrow> bool \<Rightarrow> 's fill_step \<Rightarrow> quantity \<Rightarrow> 's \<Rightarrow> node list \<Rightarrow>
   ('s, order_error) result option" where
  "scan_makers stp ord mkt step rem s [] = Some (Ok s)"
| "scan_makers stp ord mkt step rem s (n # ns) =
     (if rem \<le> 0 \<or> \<not> crosses (no_side ord) mkt (no_price ord) (nd_price n) then Some (Ok s)
      else if nd_account n = no_account ord then
        (if stp = CancelMaker then scan_makers stp ord mkt step rem s ns else Some (Ok s))
      else let q = min rem (nd_remaining n) in
        case step (nd_price n) n q s of
          None \<Rightarrow> None
        | Some (Inl e) \<Rightarrow> Some (Err e)
        | Some (Inr s') \<Rightarrow> scan_makers stp ord mkt step (prim_saturate I64 (rem - q)) s' ns)"

lemma scan_makers_done: "rem \<le> 0 \<Longrightarrow> scan_makers stp ord mkt step rem s ns = Some (Ok s)"
  by (cases ns) simp_all

text \<open>The steps of the planner do not look at the links of a node.\<close>

definition ignores_links :: "'s fill_step \<Rightarrow> bool" where
  "ignores_links step \<longleftrightarrow> (\<forall>p n. step p (payload n) = step p n)"

lemma scan_chain_linked:
  assumes "linked (slab_get sl) p xs NIL" and "NIL \<notin> set xs" and "ignores_links step"
    and "\<And>x. x \<in> set xs \<Longrightarrow> nd_price (slot_order sl x) = price"
  shows "scan_chain sl stp taker step price (first_of xs NIL) rem s = scan_level stp taker step rem s (map (slot_order sl) xs)"
  using assms
proof (induction xs arbitrary: p rem s)
  case Nil
  then show ?case by (simp add: scan_chain.simps)
next
  case (Cons x xs)
  then obtain n where n: "slab_get sl x = Some n" by auto
  have pay: "slot_order sl x = payload n" "nd_price n = price"
    using Cons.prems(4) [of x] n by (simp_all add: slot_order_get)
  have step: "step price (payload n) = step price n"
    using Cons.prems(3) by (simp add: ignores_links_def)
  show ?case
    using linked_walk [OF Cons.prems(1) n] Cons n pay step
    by (subst scan_chain.simps) (auto simp: Let_def split: stp_policy.splits option.splits sum.splits)
qed

lemma scan_level_done: "rem \<le> 0 \<Longrightarrow> scan_level stp taker step rem s ns = Some (Ok (False, rem, s))"
  by (cases ns) simp_all

definition scan_then :: "stp_policy \<Rightarrow> new_order \<Rightarrow> bool \<Rightarrow> 's fill_step \<Rightarrow> node list \<Rightarrow>
   (bool \<times> quantity \<times> 's, order_error) result option \<Rightarrow> ('s, order_error) result option" where
  "scan_then stp ord mkt step ms r =
     (case r of
        None \<Rightarrow> None
      | Some (Inl e) \<Rightarrow> Some (Err e)
      | Some (Inr (go_on, rem', s')) \<Rightarrow> if go_on then scan_makers stp ord mkt step rem' s' ms else Some (Ok s'))"

lemma scan_makers_append:
  assumes "\<And>n. n \<in> set ns \<Longrightarrow> crosses (no_side ord) mkt (no_price ord) (nd_price n)"
  shows "scan_makers stp ord mkt step rem s (ns @ ms) =
    scan_then stp ord mkt step ms (scan_level stp (no_account ord) step rem s ns)"
  using assms
proof (induction ns arbitrary: rem s)
  case Nil
  then show ?case by (simp add: scan_then_def scan_makers_done)
next
  case (Cons n ns)
  have IH: "scan_makers stp ord mkt step rem s (ns @ ms) =
      scan_then stp ord mkt step ms (scan_level stp (no_account ord) step rem s ns)" for rem s
    using Cons by simp
  show ?case
  proof (cases "rem \<le> 0 \<or> nd_account n = no_account ord")
    case True
    then show ?thesis
      using Cons.prems [of n] IH [of rem s] by (auto simp: scan_then_def)
  next
    case False
    let ?q = "min rem (nd_remaining n)"
    show ?thesis
      using False Cons.prems [of n]
      by (cases "step (nd_price n) n ?q s" rule: option.exhaust;
          cases "the (step (nd_price n) n ?q s)" rule: sum.exhaust)
        (simp_all add: Let_def IH, simp_all add: scan_then_def)
  qed
qed

lemma scan_levels_rep:
  assumes rep: "side_rep sl sd sb Q" and wf: "slab_wf sl" and sub: "set ls \<subseteq> set (levels_best_first sb)"
    and step: "ignores_links step"
  shows "scan_levels sl stp ord mkt step ls rem s =
    scan_makers stp ord mkt step rem s (map (slot_order sl) (concat (map (\<lambda>l. Q (fst l)) ls)))"
  using sub
proof (induction ls arbitrary: rem s)
  case Nil
  then show ?case by simp
next
  case (Cons l ls)
  obtain p lv where l: "l = (p, lv)" by fastforce
  have head: "Q p \<noteq> []" "lv_head lv = first_of (Q p) NIL"
    using levels_best_first_head [OF rep, of p lv] Cons.prems l by auto
  have chain: "scan_chain sl stp (no_account ord) step p (lv_head lv) rem s =
      scan_level stp (no_account ord) step rem s (map (slot_order sl) (Q p))" for rem s
    using side_rep_queue [OF rep, of p] queue_no_NIL [OF wf side_rep_queue [OF rep], of p]
      scan_chain_linked [of sl NIL "Q p" step p] slot_order_props(1) [OF rep] head(2) step by (simp add: queue_ok_def)
  have price: "nd_price n = p" if "n \<in> set (map (slot_order sl) (Q p))" for n
    using that slot_order_props(1) [OF rep] by auto
  have IH: "scan_levels sl stp ord mkt step ls rem s =
      scan_makers stp ord mkt step rem s (map (slot_order sl) (concat (map (\<lambda>l. Q (fst l)) ls)))" for rem s
    using Cons by simp
  show ?case
  proof (cases "crosses (no_side ord) mkt (no_price ord) p")
    case True
    have "scan_makers stp ord mkt step rem s (map (slot_order sl) (Q p) @ map (slot_order sl) (concat (map (\<lambda>l. Q (fst l)) ls))) =
      scan_then stp ord mkt step (map (slot_order sl) (concat (map (\<lambda>l. Q (fst l)) ls)))
        (scan_level stp (no_account ord) step rem s (map (slot_order sl) (Q p)))"
      using True price by (intro scan_makers_append) simp
    then have "scan_makers stp ord mkt step rem s (map (slot_order sl) (concat (map (\<lambda>l. Q (fst l)) (l # ls)))) =
        scan_then stp ord mkt step (map (slot_order sl) (concat (map (\<lambda>l. Q (fst l)) ls)))
          (scan_level stp (no_account ord) step rem s (map (slot_order sl) (Q p)))"
      by (simp add: l)
    moreover have "scan_levels sl stp ord mkt step (l # ls) rem s =
        scan_then stp ord mkt step (map (slot_order sl) (concat (map (\<lambda>l. Q (fst l)) ls)))
          (scan_level stp (no_account ord) step rem s (map (slot_order sl) (Q p)))"
      unfolding l scan_levels.simps chain scan_then_def IH
      using True by (simp add: scan_level_done)
    ultimately show ?thesis by simp
  next
    case False
    then show ?thesis
      using l head(1) price by (cases "Q p") auto
  qed
qed

lemma scan_makers_plan:
  assumes "makers_ok ms" and "0 \<le> rem" and "fits I64 rem"
  shows "scan_makers stp ord mkt step rem s ms = fold_steps step (plan_list stp ord mkt rem ms) s"
  using assms
proof (induction ms arbitrary: rem s)
  case (Cons m ms)
  have "fits I64 (rem - nd_remaining m)" if "nd_remaining m \<le> rem"
    using that Cons.prems by (intro fits_nonneg_le [OF Cons.prems(3)]) auto
  then show ?case
    using Cons by (auto simp: Let_def min_def prim_saturate_id plan_list_done scan_makers_done
        split: option.splits sum.splits)
qed simp

section \<open>The sums\<close>

text \<open>Adding one fill to a summary, without overflow.\<close>

definition add_fill :: "side \<Rightarrow> match_summary \<Rightarrow> price \<Rightarrow> quantity \<Rightarrow> match_summary" where
  "add_fill ts m p q =
     \<lparr>ms_filled_quantity = ms_filled_quantity m + q, ms_worst_price = Some (worst_of ts p (ms_worst_price m)),
      ms_notional = ms_notional m + mn_notional (from_product (p * q)),
      ms_notional_ceil = ms_notional_ceil m + mn_notional_ceil (from_product (p * q))\<rparr>"

fun fill_total :: "side \<Rightarrow> match_summary \<Rightarrow> (price \<times> quantity) list \<Rightarrow> match_summary" where
  "fill_total ts m [] = m"
| "fill_total ts m ((p, q) # xs) = fill_total ts (add_fill ts m p q) xs"

lemma fill_total_append: "fill_total ts m (xs @ ys) = fill_total ts (fill_total ts m xs) ys"
  by (induction ts m xs rule: fill_total.induct) simp_all

definition typed_fill :: "price \<times> quantity \<Rightarrow> bool" where
  "typed_fill x \<longleftrightarrow> 0 < fst x \<and> fits I64 (fst x) \<and> 0 < snd x \<and> fits I64 (snd x)"

definition sums_fit :: "match_summary \<Rightarrow> (price \<times> quantity) list \<Rightarrow> bool" where
  "sums_fit m xs \<longleftrightarrow>
     (\<forall>x\<in>set xs. typed_fill x) \<and> 0 \<le> ms_filled_quantity m \<and> 0 \<le> ms_notional m \<and> 0 \<le> ms_notional_ceil m \<and>
     fits I64 (ms_filled_quantity m + sum_list (map snd xs)) \<and>
     fits I128 (ms_notional m + (\<Sum>(p, q)\<leftarrow>xs. p * q)) \<and> fits I128 (ms_notional_ceil m + (\<Sum>(p, q)\<leftarrow>xs. p * q))"

lemma from_product_bounds:
  assumes "0 < x"
  shows "0 \<le> mn_notional (from_product x)" "mn_notional (from_product x) \<le> x"
    "0 \<le> mn_notional_ceil (from_product x)" "mn_notional_ceil (from_product x) \<le> x"
proof -
  have d: "NOTIONAL_DIVISOR = 1000000"
    by (simp add: NOTIONAL_DIVISOR_def scale_defs)
  have eq: "x sdiv 1000000 = x div 1000000" "x smod 1000000 = x mod 1000000"
    using assms by (simp_all add: sdiv_nonneg smod_nonneg)
  have bounds: "0 \<le> x div 1000000" "x div 1000000 \<le> x" "0 < x mod 1000000 \<Longrightarrow> x div 1000000 + 1 \<le> x"
    using assms mult_div_mod_eq [of 1000000 x] by linarith+
  show "0 \<le> mn_notional (from_product x)" "mn_notional (from_product x) \<le> x"
    "0 \<le> mn_notional_ceil (from_product x)" "mn_notional_ceil (from_product x) \<le> x"
    using bounds by (auto simp: from_product_def d eq Let_def)
qed

lemma products_nonneg: "\<forall>x\<in>set xs. typed_fill x \<Longrightarrow> 0 \<le> (\<Sum>(p, q)\<leftarrow>xs. p * q) \<and> 0 \<le> sum_list (map snd xs)"
  by (induction xs) (auto simp: typed_fill_def)

lemma sums_fit_Cons:
  assumes fit: "sums_fit m ((p, q) # xs)"
  shows "sums_fit (add_fill ts m p q) xs" and "typed_fill (p, q)"
    and "fits I64 (ms_filled_quantity m + q)"
    and "fits I128 (ms_notional m + mn_notional (from_product (p * q)))"
    and "fits I128 (ms_notional_ceil m + mn_notional_ceil (from_product (p * q)))"
proof -
  let ?S = "\<Sum>(p, q)\<leftarrow>xs. p * q"
  have typed: "typed_fill (p, q)" "\<forall>x\<in>set xs. typed_fill x"
    using fit by (simp_all add: sums_fit_def)
  then have nn: "0 \<le> ?S" "0 \<le> sum_list (map snd xs)"
    using products_nonneg by blast+
  have pq: "0 < p * q" "0 < q"
    using typed(1) by (simp_all add: typed_fill_def)
  note b = from_product_bounds [OF pq(1)]
  have m: "0 \<le> ms_filled_quantity m" "0 \<le> ms_notional m" "0 \<le> ms_notional_ceil m"
    "fits I64 (ms_filled_quantity m + (q + sum_list (map snd xs)))"
    "fits I128 (ms_notional m + (p * q + ?S))" "fits I128 (ms_notional_ceil m + (p * q + ?S))"
    using fit by (simp_all add: sums_fit_def)
  show "typed_fill (p, q)" by (rule typed(1))
  show "fits I64 (ms_filled_quantity m + q)"
    using m(1) nn pq by (intro fits_nonneg_le [OF m(4)]) simp_all
  show "fits I128 (ms_notional m + mn_notional (from_product (p * q)))"
    using m(2) nn b by (intro fits_nonneg_le [OF m(5)]) simp_all
  show "fits I128 (ms_notional_ceil m + mn_notional_ceil (from_product (p * q)))"
    using m(3) nn b by (intro fits_nonneg_le [OF m(6)]) simp_all
  have "fits I128 (ms_notional m + mn_notional (from_product (p * q)) + ?S)"
    using m(2) nn b by (intro fits_nonneg_le [OF m(5)]) simp_all
  moreover have "fits I128 (ms_notional_ceil m + mn_notional_ceil (from_product (p * q)) + ?S)"
    using m(3) nn b by (intro fits_nonneg_le [OF m(6)]) simp_all
  ultimately show "sums_fit (add_fill ts m p q) xs"
    using m typed(2) b pq by (simp add: sums_fit_def add_fill_def add.assoc)
qed

lemma sums_fit_prefix: "sums_fit m (xs @ ys) \<Longrightarrow> sums_fit m xs"
proof -
  assume fit: "sums_fit m (xs @ ys)"
  then have nn: "0 \<le> (\<Sum>(p, q)\<leftarrow>xs. p * q)" "0 \<le> sum_list (map snd xs)" "0 \<le> (\<Sum>(p, q)\<leftarrow>ys. p * q)" "0 \<le> sum_list (map snd ys)"
    using products_nonneg [of xs] products_nonneg [of ys] by (auto simp: sums_fit_def)
  show "sums_fit m xs"
    using fit nn
      fits_nonneg_le [of I64 "ms_filled_quantity m + sum_list (map snd (xs @ ys))" "ms_filled_quantity m + sum_list (map snd xs)"]
      fits_nonneg_le [of I128 "ms_notional m + (\<Sum>(p, q)\<leftarrow>xs @ ys. p * q)" "ms_notional m + (\<Sum>(p, q)\<leftarrow>xs. p * q)"]
      fits_nonneg_le [of I128 "ms_notional_ceil m + (\<Sum>(p, q)\<leftarrow>xs @ ys. p * q)" "ms_notional_ceil m + (\<Sum>(p, q)\<leftarrow>xs. p * q)"]
    by (simp add: sums_fit_def)
qed

lemma sums_fit_append: "sums_fit m (xs @ ys) \<Longrightarrow> sums_fit (fill_total ts m xs) ys"
  by (induction ts m xs rule: fill_total.induct) (simp_all add: sums_fit_Cons(1))

abbreviation pairs :: "(node \<times> quantity) list \<Rightarrow> (price \<times> quantity) list" where
  "pairs xs \<equiv> map (\<lambda>(n, q). (nd_price n, q)) xs"

section \<open>The scalar scan\<close>

lemma fold_scan_update:
  assumes "sums_fit m (pairs xs)" and on_fill: "\<And>f c. on_fill f c = Ok (g f c)"
  shows "fold_steps (scan_update ts on_fill) xs (m, c) =
    Some (Ok (fill_total ts m (pairs xs), fold (\<lambda>(n, q). g (plan_fill n q)) xs c))"
  using assms(1)
proof (induction xs arbitrary: m c)
  case (Cons x xs)
  obtain n q where x: "x = (n, q)" by fastforce
  have fit: "sums_fit m ((nd_price n, q) # pairs xs)"
    using Cons.prems x by simp
  have typed: "fits I64 (nd_price n)" "fits I64 q"
    using sums_fit_Cons(2) [OF fit] by (simp_all add: typed_fill_def)
  have "scan_update ts on_fill (nd_price n) n q (m, c) =
      Some (Ok (add_fill ts m (nd_price n) q, g (plan_fill n q) c))"
    using sums_fit_Cons(3-5) [OF fit]
    by (simp add: scan_update_def from_product_notional [OF typed] scalar_checked_add_def prim_checked_fits
        on_fill add_fill_def scalar_saturating_add_def prim_saturate_id)
  then show ?case
    using Cons.IH [OF sums_fit_Cons(1) [OF fit]] x by simp
qed simp

section \<open>The batched scan\<close>

definition batch_summary :: "summary_batch \<Rightarrow> match_summary" where
  "batch_summary bt = \<lparr>ms_filled_quantity = bt_filled bt, ms_worst_price = bt_worst bt, ms_notional = bt_notional bt,
     ms_notional_ceil = bt_notional_ceil bt\<rparr>"

definition set_summary :: "match_summary \<Rightarrow> summary_batch \<Rightarrow> summary_batch" where
  "set_summary m bt = bt\<lparr>bt_filled := ms_filled_quantity m, bt_notional := ms_notional m,
     bt_notional_ceil := ms_notional_ceil m, bt_worst := ms_worst_price m\<rparr>"

lemma set_summary_simps [simp]:
  "batch_summary (set_summary m bt) = m" "set_summary (batch_summary bt) bt = bt"
  "set_summary m (set_summary m' bt) = set_summary m bt"
  "bt_prices (set_summary m bt) = bt_prices bt" "bt_quantities (set_summary m bt) = bt_quantities bt"
  "bt_notionals (set_summary m bt) = bt_notionals bt" "bt_taker_side (set_summary m bt) = bt_taker_side bt"
  "bt_len (set_summary m bt) = bt_len bt"
  by (simp_all add: set_summary_def batch_summary_def)

lemma flush_lanes_total:
  assumes "sums_fit (batch_summary bt) (map (\<lambda>i. (bt_prices bt ! i, bt_quantities bt ! i)) lanes)"
    and "\<And>i. i \<in> set lanes \<Longrightarrow> bt_notionals bt ! i = from_product (bt_prices bt ! i * bt_quantities bt ! i)"
  shows "flush_lanes lanes bt = Ok (set_summary (fill_total (bt_taker_side bt) (batch_summary bt)
    (map (\<lambda>i. (bt_prices bt ! i, bt_quantities bt ! i)) lanes)) bt)"
  using assms
proof (induction lanes arbitrary: bt)
  case (Cons i lanes)
  let ?p = "bt_prices bt ! i" and ?q = "bt_quantities bt ! i"
  let ?bt = "set_summary (add_fill (bt_taker_side bt) (batch_summary bt) ?p ?q) bt"
  have fit: "sums_fit (batch_summary bt) ((?p, ?q) # map (\<lambda>i. (bt_prices bt ! i, bt_quantities bt ! i)) lanes)"
    using Cons.prems(1) by simp
  note ok = sums_fit_Cons [OF fit]
  have "flush_lanes (i # lanes) bt = flush_lanes lanes ?bt"
    using ok(3-5) Cons.prems(2) [of i]
    by (simp add: Let_def scalar_checked_add_def prim_checked_fits batch_summary_def set_summary_def add_fill_def
        scalar_saturating_add_def prim_saturate_id)
  also have "\<dots> = Ok (set_summary (fill_total (bt_taker_side ?bt) (batch_summary ?bt)
      (map (\<lambda>i. (bt_prices ?bt ! i, bt_quantities ?bt ! i)) lanes)) ?bt)"
    using Cons.prems(2) ok(1) by (intro Cons.IH) simp_all
  finally show ?case
    by simp
qed simp

text \<open>A batch holds the sums so far and the fills that wait in the arrays.\<close>

definition batch_rep :: "summary_batch \<Rightarrow> match_summary \<Rightarrow> (price \<times> quantity) list \<Rightarrow> bool" where
  "batch_rep bt m pend \<longleftrightarrow>
     batch_summary bt = m \<and> bt_len bt = length pend \<and> length pend \<le> MATCH_BATCH_LANES \<and>
     length (bt_prices bt) = MATCH_BATCH_LANES \<and> length (bt_quantities bt) = MATCH_BATCH_LANES \<and>
     length (bt_notionals bt) = MATCH_BATCH_LANES \<and>
     take (length pend) (bt_prices bt) = map fst pend \<and> take (length pend) (bt_quantities bt) = map snd pend"

lemma batch_rep_nth:
  assumes "batch_rep bt m pend" and "i < length pend"
  shows "bt_prices bt ! i = fst (pend ! i)" and "bt_quantities bt ! i = snd (pend ! i)"
  using assms nth_take [of i "length pend" "bt_prices bt"] nth_take [of i "length pend" "bt_quantities bt"]
  by (simp_all add: batch_rep_def)

lemma batch_lanes:
  assumes "batch_rep bt m pend"
  shows "map (\<lambda>i. (bt_prices bt ! i, bt_quantities bt ! i)) [0..<length pend] = pend"
  using batch_rep_nth [OF assms] by (intro nth_equalityI) simp_all

lemma batch_flush_rep:
  assumes rep: "batch_rep bt m pend" and fit: "sums_fit m pend"
  shows "\<exists>bt'. batch_flush h bt = Ok bt' \<and> batch_rep bt' (fill_total (bt_taker_side bt) m pend) [] \<and>
    bt_taker_side bt' = bt_taker_side bt"
proof (cases "pend = []")
  case True
  then show ?thesis
    using rep by (auto simp: batch_flush_def batch_rep_def)
next
  case False
  let ?n = "length pend"
  let ?out = "map2 (\<lambda>p q. from_product (p * q)) (map fst pend) (map snd pend)"
  let ?bt = "bt\<lparr>bt_notionals := ?out @ drop ?n (bt_notionals bt)\<rparr>"
  have len: "bt_len bt = ?n" "batch_summary bt = m"
    using rep by (simp_all add: batch_rep_def)
  have conv: "matching_notionals h (bt_backend bt) (take ?n (bt_prices bt)) (take ?n (bt_quantities bt))
      (take ?n (bt_notionals bt)) = (True, ?out)"
    using rep kernel_scalar by (simp add: batch_rep_def matching_notionals_scalar_def)
  have rep': "batch_rep ?bt m pend"
    using rep by (simp add: batch_rep_def batch_summary_def)
  have out: "bt_notionals ?bt ! i = from_product (bt_prices ?bt ! i * bt_quantities ?bt ! i)" if "i \<in> set [0..<?n]" for i
    using that batch_rep_nth [OF rep', of i] by (simp add: nth_append split_beta)
  have "flush_lanes [0..<?n] ?bt = Ok (set_summary (fill_total (bt_taker_side bt) m pend) ?bt)"
    using flush_lanes_total [of ?bt "[0..<?n]"] out fit batch_lanes [OF rep'] rep' by (simp add: batch_rep_def)
  then have "batch_flush h bt = Ok ((set_summary (fill_total (bt_taker_side bt) m pend) ?bt)\<lparr>bt_len := 0\<rparr>)"
    using False conv by (simp add: batch_flush_def len)
  then show ?thesis
    using rep' by (auto simp: batch_rep_def batch_summary_def set_summary_def)
qed

lemma batch_push_rep:
  assumes rep: "batch_rep bt m pend" and room: "length pend < MATCH_BATCH_LANES" and fit: "sums_fit m (pend @ [(p, q)])"
  shows "\<exists>bt' m' pend'. batch_push h p n q bt = Some (Ok bt') \<and> batch_rep bt' m' pend' \<and>
    length pend' < MATCH_BATCH_LANES \<and> bt_taker_side bt' = bt_taker_side bt \<and>
    (m' = m \<and> pend' = pend @ [(p, q)] \<or> m' = fill_total (bt_taker_side bt) m (pend @ [(p, q)]) \<and> pend' = [])"
proof -
  let ?bt = "bt\<lparr>bt_prices := (bt_prices bt)[bt_len bt := p], bt_quantities := (bt_quantities bt)[bt_len bt := q],
    bt_len := bt_len bt + 1\<rparr>"
  have len: "bt_len bt = length pend"
    using rep by (simp add: batch_rep_def)
  have rep': "batch_rep ?bt m (pend @ [(p, q)])"
    using rep room by (simp add: batch_rep_def batch_summary_def take_Suc_conv_app_nth)
  have push: "batch_push h p n q bt = Some (if length pend + 1 = MATCH_BATCH_LANES then batch_flush h ?bt else Ok ?bt)"
    using room by (simp add: batch_push_def len Let_def)
  show ?thesis
  proof (cases "length pend + 1 = MATCH_BATCH_LANES")
    case True
    obtain bt' where "batch_flush h ?bt = Ok bt'" "batch_rep bt' (fill_total (bt_taker_side bt) m (pend @ [(p, q)])) []"
      "bt_taker_side bt' = bt_taker_side bt"
      using batch_flush_rep [OF rep' fit, of h] by auto
    then show ?thesis
      using push True by (intro exI [of _ bt'] exI [of _ "fill_total (bt_taker_side bt) m (pend @ [(p, q)])"] exI [of _ "[]"])
        (simp add: MATCH_BATCH_LANES_def)
  next
    case False
    then show ?thesis
      using push rep' room by (intro exI [of _ ?bt] exI [of _ m] exI [of _ "pend @ [(p, q)]"]) simp
  qed
qed

lemma fold_batch_push:
  assumes "batch_rep bt m pend" and "length pend < MATCH_BATCH_LANES" and "sums_fit m (pend @ pairs xs)"
  shows "\<exists>bt' m' pend'. fold_steps (batch_push h) xs bt = Some (Ok bt') \<and> batch_rep bt' m' pend' \<and> sums_fit m' pend' \<and>
    bt_taker_side bt' = bt_taker_side bt \<and>
    fill_total (bt_taker_side bt) m' pend' = fill_total (bt_taker_side bt) m (pend @ pairs xs)"
  using assms
proof (induction xs arbitrary: bt m pend)
  case (Cons x xs)
  obtain n q where x: "x = (n, q)" by fastforce
  let ?ts = "bt_taker_side bt" and ?p = "nd_price n"
  have "sums_fit m ((pend @ [(?p, q)]) @ pairs xs)"
    using Cons.prems(3) x by simp
  moreover from this have "sums_fit m (pend @ [(?p, q)])"
    by (rule sums_fit_prefix)
  ultimately obtain bt' m' pend' where push: "batch_push h ?p n q bt = Some (Ok bt')" "batch_rep bt' m' pend'"
    "length pend' < MATCH_BATCH_LANES" "bt_taker_side bt' = ?ts"
    and cases: "m' = m \<and> pend' = pend @ [(?p, q)] \<or> m' = fill_total ?ts m (pend @ [(?p, q)]) \<and> pend' = []"
    and fit: "sums_fit m ((pend @ [(?p, q)]) @ pairs xs)"
    using batch_push_rep [OF Cons.prems(1,2), of ?p q h n] by blast
  have "sums_fit m' (pend' @ pairs xs)" "fill_total ?ts m' (pend' @ pairs xs) = fill_total ?ts m (pend @ pairs (x # xs))"
    using cases fit sums_fit_append [OF fit, of ?ts] x by (auto simp: fill_total_append)
  then show ?case
    using Cons.IH [OF push(2,3)] push(1,4) x by auto
qed auto

lemma batch_total:
  assumes "sums_fit summary_zero (pairs xs)"
  shows "\<exists>bt. fold_steps (batch_push h) xs (batch_new backend ts) = Some (Ok bt) \<and>
    batch_finish h bt = Ok (fill_total ts summary_zero (pairs xs))"
proof -
  have new: "batch_rep (batch_new backend ts) summary_zero []" "bt_taker_side (batch_new backend ts) = ts"
    by (simp_all add: batch_rep_def batch_new_def batch_summary_def summary_zero_def)
  obtain bt m pend where bt: "fold_steps (batch_push h) xs (batch_new backend ts) = Some (Ok bt)" "batch_rep bt m pend"
    "sums_fit m pend" "bt_taker_side bt = ts" "fill_total ts m pend = fill_total ts summary_zero (pairs xs)"
    using fold_batch_push [OF new(1), of xs h] assms new(2) by (auto simp: MATCH_BATCH_LANES_def)
  obtain bt' where "batch_flush h bt = Ok bt'" "batch_rep bt' (fill_total ts m pend) []"
    using batch_flush_rep [OF bt(2,3), of h] bt(4) by auto
  then have "batch_finish h bt = Ok (fill_total ts summary_zero (pairs xs))"
    using bt(5) by (simp add: batch_finish_def batch_rep_def batch_summary_def)
  then show ?thesis
    using bt(1) by blast
qed

section \<open>Plans on the book\<close>

lemma scan_depth_rep:
  assumes rep: "book_rep sha b Q" and ord: "order_typed ord" "0 < no_quantity ord" "no_order_type ord = Market \<or> 0 < no_price ord"
    and step: "ignores_links step"
  shows "scan_depth b ord step s = fold_steps step (plan_list (cfg_stp (bk_config b)) ord (no_order_type ord = Market)
    (no_quantity ord) (book_orders b (opposite (no_side ord)))) s"
proof -
  let ?sd = "opposite (no_side ord)"
  note side = book_rep_side [OF rep, of ?sd]
  have "map (\<lambda>l. Q ?sd (fst l)) (levels_best_first (side_of ?sd b)) = map (Q ?sd) (price_list ?sd {p. Q ?sd p \<noteq> []})"
    by (simp add: comp_def flip: levels_best_first_keys [OF side])
  then have orders: "map (slot_order (bk_slab b)) (concat (map (\<lambda>l. Q ?sd (fst l)) (levels_best_first (side_of ?sd b)))) =
      book_orders b ?sd"
    by (simp add: book_orders_rep [OF rep] maker_list_side_orders side_orders_def flat_def)
  show ?thesis
    using ord scan_levels_rep [OF side book_rep_wf [OF rep] _ step, of "levels_best_first (side_of ?sd b)"]
      scan_makers_plan [OF book_makers_ok [OF rep], of "no_quantity ord" "cfg_stp (bk_config b)" ord]
    unfolding orders by (auto simp: scan_depth_def Let_def order_typed_def)
qed

lemma book_order_typed:
  assumes rep: "book_rep sha b Q" and "n \<in> set (book_orders b sd)"
  shows "0 < nd_price n" and "fits I64 (nd_price n)" and "0 < nd_remaining n" and "fits I64 (nd_remaining n)"
proof -
  have n: "n \<in> set (maker_list b Q sd)"
    using assms(2) by (simp add: book_orders_rep [OF rep])
  then show "0 < nd_price n" "0 < nd_remaining n"
    using side_orders_props [OF book_rep_side [OF rep]] by (simp_all add: maker_list_side_orders)
  have "node_typed n"
    using n in_maker_list [OF rep] rep unfolding book_rep_def by blast
  then show "fits I64 (nd_price n)" "fits I64 (nd_remaining n)"
    by (simp_all add: node_typed_def)
qed

lemma products_le:
  assumes "\<forall>x\<in>set xs. typed_fill x"
  shows "(\<Sum>(p, q)\<leftarrow>xs. p * q) \<le> int_max I64 * sum_list (map snd xs)"
  using assms
proof (induction xs)
  case (Cons x xs)
  have "fst x * snd x \<le> int_max I64 * snd x"
    using Cons.prems by (intro mult_right_mono) (auto simp: typed_fill_def fits_def)
  then show ?case
    using Cons by (simp add: split_beta distrib_left)
qed simp

end
