(* ===== verification/PlanClaims.thy ===== *)
theory PlanClaims
  imports PlanRefine
begin

text \<open>
  The planner on the order book: its sums never overflow, its plan is what execution does, and the
  vector backends do not change it.
\<close>

section \<open>The sums fit\<close>

lemma snd_pairs: "map snd (pairs xs) = map snd xs"
  by (induction xs) auto

lemma plan_sums_fit:
  assumes rep: "book_rep sha b Q" and ord: "order_typed ord" "0 < no_quantity ord"
  shows "sums_fit summary_zero (pairs (plan_list stp ord mkt (no_quantity ord) (book_orders b sd)))"
proof -
  let ?xs = "plan_list stp ord mkt (no_quantity ord) (book_orders b sd)"
  have typed: "\<forall>x\<in>set (pairs ?xs). typed_fill x"
  proof
    fix x
    assume "x \<in> set (pairs ?xs)"
    then obtain n q where x: "x = (nd_price n, q)" and nq: "(n, q) \<in> set ?xs" by auto
    have n: "n \<in> set (book_orders b sd)" "0 < q" "q \<le> nd_remaining n"
      using plan_list_props [OF nq book_makers_ok [OF rep]] by blast+
    have "fits I64 q"
      using n(2,3) by (intro fits_nonneg_le [OF book_order_typed(4) [OF rep n(1)]]) simp_all
    then show "typed_fill x"
      using book_order_typed(1,2) [OF rep n(1)] n(2) by (simp add: x typed_fill_def)
  qed
  have snds: "map snd (pairs ?xs) = map snd ?xs"
    by (rule snd_pairs)
  have le: "sum_list (map snd ?xs) \<le> no_quantity ord"
    using plan_list_sum [OF book_makers_ok [OF rep], of "no_quantity ord"] ord(2) by simp
  note nn = products_nonneg [OF typed, unfolded snds]
  have fit64: "fits I64 (sum_list (map snd ?xs))"
    using ord(1) nn le fits_nonneg_le [of I64 "no_quantity ord" "sum_list (map snd ?xs)"] by (simp add: order_typed_def)
  have "(\<Sum>(p, q)\<leftarrow>pairs ?xs. p * q) \<le> int_max I64 * int_max I64"
  proof -
    have "sum_list (map snd ?xs) \<le> int_max I64"
      using fit64 by (simp add: fits_def)
    then have "int_max I64 * sum_list (map snd ?xs) \<le> int_max I64 * int_max I64"
      by (intro mult_left_mono) simp_all
    then show ?thesis
      using products_le [OF typed, unfolded snds] by linarith
  qed
  then have "fits I128 (\<Sum>(p, q)\<leftarrow>pairs ?xs. p * q)"
    using nn by (simp add: fits_def)
  then show ?thesis
    unfolding sums_fit_def snds using typed fit64 by (simp add: summary_zero_def)
qed

section \<open>The plan in closed form\<close>

lemma fill_total_fields:
  "ms_filled_quantity (fill_total ts m xs) = ms_filled_quantity m + sum_list (map snd xs) \<and>
   ms_notional (fill_total ts m xs) = ms_notional m + (\<Sum>(p, q)\<leftarrow>xs. mn_notional (from_product (p * q))) \<and>
   ms_notional_ceil (fill_total ts m xs) = ms_notional_ceil m + (\<Sum>(p, q)\<leftarrow>xs. mn_notional_ceil (from_product (p * q)))"
  by (induction ts m xs rule: fill_total.induct) (simp_all add: add_fill_def)

lemma plan_list_sorted:
  assumes "sorted_wrt R ms" and "makers_ok ms"
  shows "sorted_wrt R (map fst (plan_list stp taker mkt rem ms))"
  using assms
proof (induction stp taker mkt rem ms rule: plan_list.induct)
  case (2 stp taker mkt rem m ms)
  have "R m n" if "(n, q) \<in> set (plan_list stp taker mkt (rem - nd_remaining m) ms)" for n q
    using that plan_list_props [of n q stp taker mkt "rem - nd_remaining m" ms] 2(3,4) by auto
  then show ?case
    using 2 by auto
qed simp

text \<open>Along a side that is ordered best first, the worst price is the last one.\<close>

lemma fill_total_worst:
  assumes "sorted_wrt (\<lambda>x y. pkey (opposite ts) (fst x) \<le> pkey (opposite ts) (fst y)) xs"
    and "\<And>w x. ms_worst_price m = Some w \<Longrightarrow> x \<in> set xs \<Longrightarrow> pkey (opposite ts) w \<le> pkey (opposite ts) (fst x)"
  shows "ms_worst_price (fill_total ts m xs) = (if xs = [] then ms_worst_price m else Some (fst (last xs)))"
  using assms
proof (induction ts m xs rule: fill_total.induct)
  case (2 ts m p q xs)
  have "worst_of ts p (ms_worst_price m) = p"
    using 2(3) [of _ "(p, q)"] by (cases ts) (auto simp: worst_of_def pkey_def split: option.splits)
  then have "ms_worst_price (add_fill ts m p q) = Some p"
    by (simp add: add_fill_def)
  then show ?case
    using 2(1) 2(2) by fastforce
qed simp

definition planned :: "fill \<Rightarrow> planned_fill" where
  "planned f = \<lparr>pf_maker_order = maker_order f, pf_maker_account = maker_account f, pf_price = fill_price f,
                pf_quantity = fill_quantity f\<rparr>"

lemma scan_update_links: "ignores_links (scan_update ts on_fill)"
  by (simp add: ignores_links_def scan_update_def plan_fill_def fun_eq_iff)

lemma batch_push_links: "ignores_links (batch_push h)"
  by (simp add: ignores_links_def batch_push_def fun_eq_iff)

abbreviation book_plan :: "order_book \<Rightarrow> new_order \<Rightarrow> (node \<times> quantity) list" where
  "book_plan b ord \<equiv> plan_list (cfg_stp (bk_config b)) ord (no_order_type ord = Market) (no_quantity ord)
     (book_orders b (opposite (no_side ord)))"

lemma fold_append: "fold (\<lambda>(n, q) fills. fills @ [plan_fill n q]) xs c = c @ map (\<lambda>(n, q). plan_fill n q) xs"
  by (induction xs arbitrary: c) auto

lemma scan_match_rep:
  assumes rep: "book_rep sha b Q" and ord: "order_typed ord" "0 < no_quantity ord" "no_order_type ord = Market \<or> 0 < no_price ord"
    and on_fill: "\<And>f c. on_fill f c = Ok (g f c)"
  shows "scan_match b ord on_fill c = Some (Ok (fill_total (no_side ord) summary_zero (pairs (book_plan b ord)),
    fold (\<lambda>(n, q). g (plan_fill n q)) (book_plan b ord) c))"
  unfolding scan_match_def scan_depth_rep [OF rep ord scan_update_links]
  by (rule fold_scan_update [OF plan_sums_fit [OF rep ord(1,2)] on_fill])

lemma plan_match_rep:
  assumes "book_rep sha b Q" and "order_typed ord" "0 < no_quantity ord" "no_order_type ord = Market \<or> 0 < no_price ord"
  shows "plan_match b ord = Some (Ok (match_summary.extend (fill_total (no_side ord) summary_zero (pairs (book_plan b ord)))
    (match_plan.fields (map (\<lambda>(n, q). plan_fill n q) (book_plan b ord)))))"
  using scan_match_rep [OF assms, of "\<lambda>f fills. Ok (fills @ [f])" "\<lambda>f fills. fills @ [f]" "[]"]
  by (simp add: plan_match_def fold_append match_summary.defs match_plan.defs)

lemma summary_rep:
  assumes rep: "book_rep sha b Q" and ord: "order_typed ord" "0 < no_quantity ord" "no_order_type ord = Market \<or> 0 < no_price ord"
  shows "plan_match_summary_with_backend h b ord backend =
    Some (Ok (fill_total (no_side ord) summary_zero (pairs (book_plan b ord))))"
proof (cases "backend = Scalar")
  case True
  then show ?thesis
    using scan_match_rep [OF rep ord refl, of "\<lambda>_ u. u" "()"] by (simp add: plan_match_summary_with_backend_def)
next
  case False
  obtain bt where "fold_steps (batch_push h) (book_plan b ord) (batch_new backend (no_side ord)) = Some (Ok bt)"
    "batch_finish h bt = Ok (fill_total (no_side ord) summary_zero (pairs (book_plan b ord)))"
    using batch_total [OF plan_sums_fit [OF rep ord(1,2)]] by blast
  then show ?thesis
    using False by (simp add: plan_match_summary_with_backend_def scan_match_summary_batched_def
        scan_depth_rep [OF rep ord batch_push_links])
qed

abbreviation fill_pairs :: "fill list \<Rightarrow> (price \<times> quantity) list" where
  "fill_pairs fs \<equiv> map (\<lambda>f. (fill_price f, fill_quantity f)) fs"

lemma from_product_typed:
  assumes "typed_fill (p, q)"
  shows "mn_notional (from_product (p * q)) = p * q div 1000000"
    and "mn_notional_ceil (from_product (p * q)) = (p * q + 999999) div 1000000"
  using assms from_product_notional [of p q] notional_i64 [of p q] notional_ceil_i64 [of p q]
  by (auto simp: typed_fill_def sdiv_nonneg zero_le_mult_iff)

lemma plan_totals:
  assumes "\<forall>x\<in>set (fill_pairs fs). typed_fill x"
  shows "ms_filled_quantity (fill_total ts summary_zero (fill_pairs fs)) = traded fs"
    and "ms_notional (fill_total ts summary_zero (fill_pairs fs)) = (\<Sum>f\<leftarrow>fs. fill_price f * fill_quantity f div 1000000)"
    and "ms_notional_ceil (fill_total ts summary_zero (fill_pairs fs)) =
      (\<Sum>f\<leftarrow>fs. (fill_price f * fill_quantity f + 999999) div 1000000)"
proof -
  have "(\<Sum>f\<leftarrow>fs. mn_notional (from_product (fill_price f * fill_quantity f))) =
      (\<Sum>f\<leftarrow>fs. fill_price f * fill_quantity f div 1000000)"
    and "(\<Sum>f\<leftarrow>fs. mn_notional_ceil (from_product (fill_price f * fill_quantity f))) =
      (\<Sum>f\<leftarrow>fs. (fill_price f * fill_quantity f + 999999) div 1000000)"
    using assms from_product_typed by (auto intro!: arg_cong [where f = sum_list] map_cong)
  then show "ms_filled_quantity (fill_total ts summary_zero (fill_pairs fs)) = traded fs"
    "ms_notional (fill_total ts summary_zero (fill_pairs fs)) = (\<Sum>f\<leftarrow>fs. fill_price f * fill_quantity f div 1000000)"
    "ms_notional_ceil (fill_total ts summary_zero (fill_pairs fs)) =
      (\<Sum>f\<leftarrow>fs. (fill_price f * fill_quantity f + 999999) div 1000000)"
    using fill_total_fields [of ts summary_zero "fill_pairs fs"] by (simp_all add: summary_zero_def comp_def)
qed

section \<open>Properties\<close>

text \<open>The plan of an order, as a function of the fills matching would give it.\<close>

definition plan_of :: "match_plan \<Rightarrow> fill list \<Rightarrow> bool" where
  "plan_of plan fs \<longleftrightarrow> mp_fills plan = map planned fs \<and> ms_filled_quantity plan = traded fs \<and>
     ms_notional plan = (\<Sum>f\<leftarrow>fs. fill_price f * fill_quantity f div 1000000) \<and>
     ms_notional_ceil plan = (\<Sum>f\<leftarrow>fs. (fill_price f * fill_quantity f + 999999) div 1000000) \<and>
     ms_worst_price plan = (if fs = [] then None else Some (fill_price (last fs)))"

lemma plan_match_fills:
  assumes rep: "book_rep sha b Q" and ord: "order_typed ord" "0 < no_quantity ord" "no_order_type ord = Market \<or> 0 < no_price ord"
  defines "fs \<equiv> map (\<lambda>(n, q). make_fill ord n q) (book_plan b ord)"
  shows "\<exists>plan. plan_match b ord = Some (Ok plan) \<and> plan_of plan fs"
proof -
  let ?xs = "book_plan b ord" and ?m = "fill_total (no_side ord) summary_zero (pairs (book_plan b ord))"
  have fits: "\<forall>x\<in>set (pairs ?xs). typed_fill x"
    using plan_sums_fit [OF rep ord(1,2)] unfolding sums_fit_def by blast
  have prices: "pairs ?xs = fill_pairs fs"
    unfolding fs_def by (simp add: make_fill_def split_def)
  have fills: "map (\<lambda>(n, q). plan_fill n q) ?xs = map planned fs"
    unfolding fs_def by (simp add: make_fill_def plan_fill_def planned_def split_def)
  have sorted: "sorted_wrt (\<lambda>x y. pkey (opposite (no_side ord)) (fst x) \<le> pkey (opposite (no_side ord)) (fst y)) (pairs ?xs)"
    using plan_list_sorted [OF book_orders_sorted [OF rep, of "opposite (no_side ord)"] book_makers_ok [OF rep]]
    unfolding sorted_wrt_map by (simp add: split_def)
  have "ms_worst_price ?m = (if fs = [] then None else Some (fill_price (last fs)))"
    using fill_total_worst [OF sorted, of summary_zero] unfolding prices by (simp add: summary_zero_def last_map)
  then show ?thesis
    using plan_totals [of fs "no_side ord"] fits
    unfolding plan_match_rep [OF rep ord] fills prices plan_of_def
    by (intro exI [of _ "match_summary.extend (fill_total (no_side ord) summary_zero (fill_pairs fs))
        (match_plan.fields (map planned fs))"]) (simp add: match_summary.defs match_plan.defs)
qed

lemma plan_list_quantity: "plan_list stp (ord\<lparr>no_quantity := k\<rparr>) mkt rem ms = plan_list stp ord mkt rem ms"
  by (induction stp ord mkt rem ms rule: plan_list.induct) auto

text \<open>The fills of an accepted order that is not post-only are those of the plan for the admitted quantity,
  unless it is a fill-or-kill order for which they are too few.\<close>

lemma accepted_fills:
  assumes run: "clob_execute (clob_of b) ord = (Ok rep, clob_of b')" and ok: "makers_ok (book_orders b (opposite (no_side ord)))"
    and kind: "no_order_type ord \<noteq> PostOnly" and clamp: "clob_clamp (clob_of b) ord = Some qty"
  defines "fs \<equiv> map (\<lambda>(n, q). make_fill ord n q) (plan_list (cfg_stp (bk_config b)) ord (no_order_type ord = Market) qty
     (book_orders b (opposite (no_side ord))))"
  shows "(if no_tif ord = Fok \<and> traded fs < qty then rep = report [] Rejected [] else mr_fills (rep_result rep) = fs) \<and>
    0 < no_quantity ord \<and> (no_order_type ord = Market \<or> 0 < no_price ord)"
proof -
  let ?r = "spec_match (cfg_stp (bk_config b)) ord (no_order_type ord = Market) qty (book_orders b (opposite (no_side ord)))"
  have guards: "0 < no_quantity ord" "no_order_type ord = Market \<or> 0 < no_price ord"
    "\<not> clob_has (clob_of b) (no_order_id ord)"
    using run by (auto simp: clob_execute_def split: if_splits)
  have fs: "fs = sp_fills ?r"
    by (simp add: fs_def spec_fills_plan)
  have left: "sp_remaining ?r = qty - traded fs" "0 \<le> sp_remaining ?r"
    using clamp_positive [OF clamp guards(1)] spec_remaining_bounds [of qty] ok
      spec_conserves_taker [of "cfg_stp (bk_config b)" ord "no_order_type ord = Market" qty "book_orders b (opposite (no_side ord))"]
    unfolding fs by simp_all
  have exec: "clob_execute (clob_of b) ord =
      (if no_tif ord = Fok \<and> sp_remaining ?r \<noteq> 0 then (clob_rejected, clob_of b) else clob_settle (clob_of b) ord qty ?r)"
    using guards kind clamp by (auto simp: clob_execute_def Let_def)
  have "mr_fills (rep_result rep) = fs" if "clob_settle (clob_of b) ord qty ?r = (Ok rep, clob_of b')"
    using that unfolding fs by (cases rule: clob_settle_cases) auto
  then show ?thesis
    using exec run left guards by (auto simp: clob_rejected_def split: if_splits)
qed

text \<open>C26 (equivalence). The pre-trade plan predicts execution. Take any order the book accepts that is not
  post-only and whose quantity the reduce-only clamp admits in part or in whole (in whole, when it is not
  reduce-only). The plan for the admitted quantity, made on the same book, succeeds; it lists exactly the
  fills the order then gets, with their total quantity, the rounded-down and rounded-up notional sums (which
  cannot overflow), and the price of the last fill as the worst price. The one exception is a fill-or-kill
  order, and there the plan still decides: it is rejected without a fill exactly when the planned quantity
  falls short of the admitted one.\<close>

theorem plan_predicts:
  assumes "reachable sha cfg b" and "config_addressable cfg" and "order_typed ord"
    and "place_with_report sha b ord = Some (Ok rep, b')"
    and "no_order_type ord \<noteq> PostOnly" and "reduce_clamp b ord = Some qty"
  defines "fs \<equiv> mr_fills (rep_result rep)"
  shows "(\<exists>plan. plan_match b (ord\<lparr>no_quantity := qty\<rparr>) = Some (Ok plan) \<and>
     (if no_tif ord = Fok \<and> ms_filled_quantity plan < qty then rep = report [] Rejected []
      else mp_fills plan = map planned fs \<and> ms_filled_quantity plan = traded fs \<and>
        ms_notional plan = (\<Sum>f\<leftarrow>fs. fill_price f * fill_quantity f div 1000000) \<and>
        ms_notional_ceil plan = (\<Sum>f\<leftarrow>fs. (fill_price f * fill_quantity f + 999999) div 1000000) \<and>
        ms_worst_price plan = (if fs = [] then None else Some (fill_price (last fs))))) \<and>
    (no_reduce_only ord \<or> no_order_type ord = ReduceOnly \<or> ord\<lparr>no_quantity := qty\<rparr> = ord)"
proof -
  obtain Q where rep: "book_rep sha b Q"
    using assms(1,2) by (rule reachable_rep)
  note run = place_run(1) [OF assms(1-4)]
  let ?o = "ord\<lparr>no_quantity := qty\<rparr>"
  let ?fs = "map (\<lambda>(n, q). make_fill ord n q) (plan_list (cfg_stp (bk_config b)) ord (no_order_type ord = Market) qty
     (book_orders b (opposite (no_side ord))))"
  have pos: "0 < no_quantity ord"
    using run by (auto simp: clob_execute_def split: if_splits)
  have clamp: "clob_clamp (clob_of b) ord = Some qty"
    using assms(6) clob_clamp_rep [OF rep pos] by simp
  note qty = clamp_positive [OF clamp pos]
  note fills = accepted_fills [OF run book_makers_ok [OF rep] assms(5) clamp]
  have typed: "order_typed ?o"
    using assms(3) qty fits_nonneg_le [of I64 "no_quantity ord" qty] by (simp add: order_typed_def)
  obtain plan where "plan_match b ?o = Some (Ok plan)" and "plan_of plan ?fs"
    using plan_match_fills [OF rep typed] qty fills by (auto simp: plan_list_quantity make_fill_def)
  moreover have "no_reduce_only ord \<or> no_order_type ord = ReduceOnly \<or> ?o = ord"
  proof (cases "no_reduce_only ord \<or> no_order_type ord = ReduceOnly")
    case False
    then have "qty = no_quantity ord"
      using assms(6) by (simp add: reduce_clamp_def)
    then show ?thesis by simp
  qed auto
  ultimately show ?thesis
    using fills unfolding plan_of_def fs_def by (auto split: if_splits)
qed

theorem plan_predicts_witness:
  "\<exists>b b' rep plan. clob_of b = clob0 \<and> place_with_report sha0 b (limit_order 4 3 Bid 100 7) = Some (Ok rep, b') \<and>
     plan_match b (limit_order 4 3 Bid 100 7) = Some (Ok plan) \<and> map pf_quantity (mp_fills plan) = [5, 2] \<and>
     ms_filled_quantity plan = 7 \<and> ms_worst_price plan = Some 100 \<and> ms_notional plan = 0 \<and> ms_notional_ceil plan = 2"
proof -
  let ?o = "limit_order 4 3 Bid 100 7"
  have typed: "order_typed ?o"
    by (simp add: u32_max_def fits_def)
  obtain rep where rep: "fst (clob_execute clob0 ?o) = Ok rep"
    "map (\<lambda>f. (fill_price f, fill_quantity f)) (mr_fills (rep_result rep)) = [(100, 5), (100, 2)]"
    by (simp add: clob_eval clob0_def)
  then obtain b b' where b: "reachable sha0 cfg0 b" "clob_of b = clob0" "place_with_report sha0 b ?o = Some (Ok rep, b')"
    using example_place [OF typed, of "Ok rep"] by (metis prod.collapse)
  obtain f g where "mr_fills (rep_result rep) = [f, g]" "fill_price f = 100" "fill_quantity f = 5" "fill_price g = 100" "fill_quantity g = 2"
    using rep(2) by auto
  moreover have clamp: "reduce_clamp b ?o = Some 7" and same: "?o\<lparr>no_quantity := 7\<rparr> = ?o"
    by (simp_all add: reduce_clamp_def limit_order_def)
  moreover obtain plan where "plan_match b ?o = Some (Ok plan)"
    "mp_fills plan = map planned (mr_fills (rep_result rep)) \<and> ms_filled_quantity plan = traded (mr_fills (rep_result rep)) \<and>
     ms_notional plan = (\<Sum>f\<leftarrow>mr_fills (rep_result rep). fill_price f * fill_quantity f div 1000000) \<and>
     ms_notional_ceil plan = (\<Sum>f\<leftarrow>mr_fills (rep_result rep). (fill_price f * fill_quantity f + 999999) div 1000000) \<and>
     ms_worst_price plan = (if mr_fills (rep_result rep) = [] then None else Some (fill_price (last (mr_fills (rep_result rep)))))"
    using plan_predicts [OF b(1) config_addressable0 typed b(3) _ clamp] unfolding same by (auto simp: limit_order_def)
  ultimately show ?thesis
    using b(2,3) by (intro exI [of _ b] exI [of _ b'] exI [of _ rep] exI [of _ plan]) (simp add: planned_def)
qed

text \<open>C27 (equivalence). The backend does not change a plan: on every reachable book, for every host and every
  requested backend, the summary of the batched vector path, of the scalar path and of the full plan are
  the same, errors included.\<close>

theorem summary_backend_independent:
  assumes "reachable sha cfg b" and "config_addressable cfg" and "order_typed ord"
  shows "plan_match_summary_with_backend h b ord backend =
    map_option (\<lambda>r. and_then r (\<lambda>plan. Ok (match_summary.truncate plan))) (plan_match b ord)"
proof (cases "no_quantity ord \<le> 0 \<or> no_order_type ord \<noteq> Market \<and> no_price ord \<le> 0")
  case True
  then show ?thesis
    by (elim disjE) (simp_all add: plan_match_summary_with_backend_def scan_match_summary_batched_def plan_match_def
        scan_match_def scan_depth_def Let_def)
next
  case False
  obtain Q where rep: "book_rep sha b Q"
    using assms(1,2) by (rule reachable_rep)
  have ord: "0 < no_quantity ord" "no_order_type ord = Market \<or> 0 < no_price ord"
    using False by auto
  show ?thesis
    unfolding summary_rep [OF rep assms(3) ord] plan_match_rep [OF rep assms(3) ord]
    by (simp add: match_summary.defs match_plan.defs)
qed

theorem summary_backend_independent_witness:
  "\<exists>b. clob_of b = clob0 \<and>
     plan_match_summary_with_backend \<lparr>h_arch = X86_64, h_avx2 = True, h_avx512 = False\<rparr> b (limit_order 4 3 Bid 100 7) Avx2 =
     map_option (\<lambda>r. and_then r (\<lambda>plan. Ok (match_summary.truncate plan))) (plan_match b (limit_order 4 3 Bid 100 7))"
proof -
  have "order_typed (limit_order 4 3 Bid 100 7)"
    by (simp add: u32_max_def fits_def)
  then show ?thesis
    using example_reachable summary_backend_independent [OF _ config_addressable0] by blast
qed

end
