(* ===== verification/Conditional.thy ===== *)
theory Conditional
  imports Orders Hashing "HOL-Library.Product_Lexorder"
begin

text \<open>
  The conditional order engine, \<open>crates/orderbook/src/conditional.rs\<close>: stop orders, trailing stops,
  one-cancels-the-other pairs and TWAP schedules. The engine keeps one record per conditional and
  four indexes over the pending ones; a mark-price tick evaluates only the records the indexes
  offer. A \<open>BTreeSet\<close> is an ordered map to \<open>unit\<close>, read in ascending order by \<open>omap_keys\<close>. The
  \<open>HashMap\<close> of entries is an ordered map too: the engine never iterates over it except to count.
  Prices and quantities are \<open>i64\<close> values held as \<open>int\<close>.
\<close>

section \<open>Intents, templates and triggers\<close>

datatype conditional_error =
    CondCapacityExhausted
  | CondZeroSlices
  | CondNonPositiveQuantity
  | CondNonPositiveOffset
  | CondMalformed
  | CondOverflow
  | CondUnknownId
  | CondOwnerMismatch
  | CondInvalidStatus

record place_template =
  pt_order_id :: order_id
  pt_account :: account_id
  pt_side :: side
  pt_order_type :: order_type
  pt_tif :: time_in_force
  pt_price :: price
  pt_quantity :: quantity
  pt_client_id :: nat
  pt_reduce_only :: bool

datatype order_intent =
    IntentPlace new_order
  | IntentCancel order_id
  | IntentAtomic "order_intent list"

datatype execution_ack = AckExecuted | AckRejected | AckRetryable

datatype conditional_status =
    StPending
  | StPendingExecution
  | StExecuted
  | StRejected
  | StRetryable

definition into_intent :: "place_template \<Rightarrow> order_id \<Rightarrow> nat \<Rightarrow> quantity \<Rightarrow> order_intent" where
  "into_intent pl oid client q = IntentPlace
     \<lparr>no_order_id = oid, no_account = pt_account pl, no_side = pt_side pl,
      no_order_type = pt_order_type pl, no_tif = pt_tif pl, no_price = pt_price pl,
      no_quantity = q, no_client_id = client, no_reduce_only = pt_reduce_only pl\<rparr>"

datatype trigger_kind = Above price | Below price

fun stop_loss :: "side \<Rightarrow> price \<Rightarrow> trigger_kind" where
  "stop_loss Ask t = Below t"
| "stop_loss Bid t = Above t"

fun take_profit :: "side \<Rightarrow> price \<Rightarrow> trigger_kind" where
  "take_profit Ask t = Above t"
| "take_profit Bid t = Below t"

fun trigger_fires :: "trigger_kind \<Rightarrow> price \<Rightarrow> bool" where
  "trigger_fires (Above t) px \<longleftrightarrow> px \<ge> t"
| "trigger_fires (Below t) px \<longleftrightarrow> px \<le> t"

datatype trail_direction = SellStop | BuyStop

record trailing =
  tr_direction :: trail_direction
  tr_offset :: int
  tr_extremum :: int
  tr_threshold :: int

definition recompute :: "trailing \<Rightarrow> trailing" where
  "recompute t = t\<lparr>tr_threshold :=
     (case tr_direction t of
        SellStop \<Rightarrow> prim_saturate I64 (tr_extremum t - tr_offset t)
      | BuyStop \<Rightarrow> prim_saturate I64 (tr_extremum t + tr_offset t))\<rparr>"

definition trailing_new :: "trail_direction \<Rightarrow> price \<Rightarrow> price \<Rightarrow> trailing" where
  "trailing_new d offset reference =
     recompute \<lparr>tr_direction = d, tr_offset = offset, tr_extremum = reference, tr_threshold = 0\<rparr>"

definition trailing_update :: "trailing \<Rightarrow> price \<Rightarrow> trailing" where
  "trailing_update t px =
     (case tr_direction t of
        SellStop \<Rightarrow> if px > tr_extremum t then recompute (t\<lparr>tr_extremum := px\<rparr>) else t
      | BuyStop \<Rightarrow> if px < tr_extremum t then recompute (t\<lparr>tr_extremum := px\<rparr>) else t)"

definition trailing_fires :: "trailing \<Rightarrow> price \<Rightarrow> bool" where
  "trailing_fires t px =
     (case tr_direction t of SellStop \<Rightarrow> px \<le> tr_threshold t | BuyStop \<Rightarrow> px \<ge> tr_threshold t)"

record oco_leg =
  leg_trigger :: trigger_kind
  leg_place :: "place_template option"
  leg_cancel_order_id :: "order_id option"

record twap_state =
  tw_place :: place_template
  tw_total_slices :: nat
  tw_emitted :: nat
  tw_parent :: int

datatype entry_kind =
    Simple trigger_kind place_template
  | Trailing trailing place_template
  | Oco oco_leg oco_leg
  | Twap twap_state

record cond_entry =
  ce_owner :: account_id
  ce_status :: conditional_status
  ce_kind :: entry_kind
  ce_pending_batch :: "order_intent option"

section \<open>TWAP slices\<close>

definition twap_slice_qty :: "int \<Rightarrow> nat \<Rightarrow> nat \<Rightarrow> (int, conditional_error) result" where
  "twap_slice_qty parent slices index =
     (if slices = 0 \<or> parent \<le> 0 then Err CondNonPositiveQuantity
      else let n = int slices in
        if parent < n then Err CondNonPositiveQuantity
        else let base = parent sdiv n; rem = parent smod n;
                 qty = (if int index < rem then base + 1 else base)
          in if qty \<le> 0 then Err CondNonPositiveQuantity else Ok qty)"

text \<open>The loop of \<open>validate_twap\<close> from index \<open>i\<close> with the slices before it summed.\<close>

function validate_twap_from :: "int \<Rightarrow> nat \<Rightarrow> nat \<Rightarrow> int \<Rightarrow> (unit, conditional_error) result" where
  "validate_twap_from parent slices i acc =
     (if i < slices then
        and_then (twap_slice_qty parent slices i) (\<lambda>q.
        and_then (ok_or (prim_checked I64 (acc + q)) CondOverflow) (\<lambda>acc'.
          validate_twap_from parent slices (Suc i) acc'))
      else if acc \<noteq> parent then Err CondOverflow else Ok ())"
  by pat_completeness auto

termination
  by (relation "measure (\<lambda>(_, slices, i, _). slices - i)") auto

declare validate_twap_from.simps [simp del]

definition validate_twap :: "int \<Rightarrow> nat \<Rightarrow> (unit, conditional_error) result" where
  "validate_twap parent slices = validate_twap_from parent slices 0 0"

definition checked_child_id :: "nat \<Rightarrow> nat \<Rightarrow> (nat, conditional_error) result" where
  "checked_child_id base index = (if base + index \<le> u64_max then Ok (base + index) else Err CondOverflow)"

section \<open>Firing one entry\<close>

definition oco_atomic :: "oco_leg \<Rightarrow> order_intent" where
  "oco_atomic fired = IntentAtomic
     ((case leg_place fired of None \<Rightarrow> []
       | Some pl \<Rightarrow> [into_intent pl (pt_order_id pl) (pt_client_id pl) (pt_quantity pl)]) @
      (case leg_cancel_order_id fired of None \<Rightarrow> [] | Some oid \<Rightarrow> [IntentCancel oid]))"

text \<open>The \<open>match &mut self.kind\<close> of \<open>try_fire\<close>: the intent, if any, and the kind it leaves.\<close>

fun fire_kind :: "price \<Rightarrow> entry_kind \<Rightarrow> order_intent option \<times> entry_kind" where
  "fire_kind px (Simple trig pl) =
     ((if trigger_fires trig px
       then Some (into_intent pl (pt_order_id pl) (pt_client_id pl) (pt_quantity pl)) else None),
      Simple trig pl)"
| "fire_kind px (Trailing trail pl) =
     (let trail = trailing_update trail px in
      ((if trailing_fires trail px
        then Some (into_intent pl (pt_order_id pl) (pt_client_id pl) (pt_quantity pl)) else None),
       Trailing trail pl))"
| "fire_kind px (Oco leg_a leg_b) =
     ((if trigger_fires (leg_trigger leg_a) px then Some (oco_atomic leg_a)
       else if trigger_fires (leg_trigger leg_b) px then Some (oco_atomic leg_b)
       else None),
      Oco leg_a leg_b)"
| "fire_kind px (Twap st) =
     ((case twap_slice_qty (tw_parent st) (tw_total_slices st) (tw_emitted st) of
         Inl _ \<Rightarrow> None
       | Inr qty \<Rightarrow>
         (case checked_child_id (pt_order_id (tw_place st)) (tw_emitted st) of
            Inl _ \<Rightarrow> None
          | Inr oid \<Rightarrow>
            (case checked_child_id (pt_client_id (tw_place st)) (tw_emitted st) of
               Inl _ \<Rightarrow> None
             | Inr client \<Rightarrow> Some (into_intent (tw_place st) oid client qty)))),
      Twap st)"

definition try_fire :: "price \<Rightarrow> cond_entry \<Rightarrow> order_intent option \<times> cond_entry" where
  "try_fire px e =
     (if ce_status e \<noteq> StPending \<and> ce_status e \<noteq> StRetryable then (None, e)
      else (case fire_kind px (ce_kind e) of
          (None, k) \<Rightarrow> (None, e\<lparr>ce_kind := k\<rparr>)
        | (Some intent, k) \<Rightarrow>
            (Some intent, e\<lparr>ce_kind := k, ce_status := StPendingExecution,
                            ce_pending_batch := Some intent\<rparr>)))"

section \<open>The engine\<close>

type_synonym cond_id = nat
type_synonym 'a oset = "('a, unit) omap"

record cond_engine =
  cg_capacity :: nat
  cg_entries :: "(cond_id, cond_entry) omap"
  cg_above :: "(int, cond_id oset) omap"
  cg_below :: "(int, cond_id oset) omap"
  cg_scan :: "cond_id oset"
  cg_twap_ready :: "(nat \<times> cond_id) oset"
  cg_next_id :: nat

definition cond_new :: "nat \<Rightarrow> cond_engine" where
  "cond_new cap =
     \<lparr>cg_capacity = cap, cg_entries = omap_empty, cg_above = omap_empty, cg_below = omap_empty,
      cg_scan = omap_empty, cg_twap_ready = omap_empty, cg_next_id = 0\<rparr>"

definition cond_pending_len :: "cond_engine \<Rightarrow> nat" where
  "cond_pending_len g =
     length (filter (\<lambda>(_, e). \<not> (ce_status e = StExecuted \<or> ce_status e = StRejected))
       (entries (cg_entries g)))"

definition cond_status :: "cond_engine \<Rightarrow> cond_id \<Rightarrow> conditional_status option" where
  "cond_status g cid = map_option ce_status (omap_get (cg_entries g) cid)"

definition cond_owner :: "cond_engine \<Rightarrow> cond_id \<Rightarrow> account_id option" where
  "cond_owner g cid = map_option ce_owner (omap_get (cg_entries g) cid)"

definition cond_pending_batch :: "cond_engine \<Rightarrow> cond_id \<Rightarrow> order_intent option" where
  "cond_pending_batch g cid = Option.bind (omap_get (cg_entries g) cid) ce_pending_batch"

definition alloc_id :: "cond_engine \<Rightarrow> (nat, conditional_error) result \<times> cond_engine" where
  "alloc_id g =
     (if cg_next_id g + 1 \<le> u64_max then (Ok (cg_next_id g), g\<lparr>cg_next_id := cg_next_id g + 1\<rparr>)
      else (Err CondOverflow, g))"

text \<open>Adding an id under a threshold, and removing it together with a set it leaves empty.\<close>

definition threshold_add :: "(int, cond_id oset) omap \<Rightarrow> int \<Rightarrow> cond_id \<Rightarrow> (int, cond_id oset) omap" where
  "threshold_add m t cid =
     omap_put t (omap_put cid () (case omap_get m t of None \<Rightarrow> omap_empty | Some s \<Rightarrow> s)) m"

definition threshold_remove :: "(int, cond_id oset) omap \<Rightarrow> int \<Rightarrow> cond_id \<Rightarrow> (int, cond_id oset) omap" where
  "threshold_remove m t cid =
     (case omap_get m t of
        None \<Rightarrow> m
      | Some s \<Rightarrow> (let s = omap_remove cid s in
          if omap_keys s = [] then omap_remove t m else omap_put t s m))"

fun index_new :: "cond_id \<Rightarrow> entry_kind \<Rightarrow> cond_engine \<Rightarrow> cond_engine" where
  "index_new cid (Simple (Above t) _) g = g\<lparr>cg_above := threshold_add (cg_above g) t cid\<rparr>"
| "index_new cid (Simple (Below t) _) g = g\<lparr>cg_below := threshold_add (cg_below g) t cid\<rparr>"
| "index_new cid (Trailing _ _) g = g\<lparr>cg_scan := omap_put cid () (cg_scan g)\<rparr>"
| "index_new cid (Oco _ _) g = g\<lparr>cg_scan := omap_put cid () (cg_scan g)\<rparr>"
| "index_new cid (Twap _) g = g\<lparr>cg_twap_ready := omap_put (0, cid) () (cg_twap_ready g)\<rparr>"

definition cond_insert ::
    "entry_kind \<Rightarrow> account_id \<Rightarrow> cond_engine \<Rightarrow> (cond_id, conditional_error) result \<times> cond_engine" where
  "cond_insert kind own g =
     (if omap_size (cg_entries g) \<ge> cg_capacity g then (Err CondCapacityExhausted, g)
      else (case alloc_id g of
          (Inl e, g) \<Rightarrow> (Err e, g)
        | (Inr cid, g) \<Rightarrow>
            let g = index_new cid kind g in
            (Ok cid, g\<lparr>cg_entries := omap_put cid
               \<lparr>ce_owner = own, ce_status = StPending, ce_kind = kind, ce_pending_batch = None\<rparr>
               (cg_entries g)\<rparr>)))"

fun unindex :: "cond_id \<Rightarrow> entry_kind \<Rightarrow> cond_engine \<Rightarrow> cond_engine" where
  "unindex cid (Simple (Above t) _) g = g\<lparr>cg_above := threshold_remove (cg_above g) t cid\<rparr>"
| "unindex cid (Simple (Below t) _) g = g\<lparr>cg_below := threshold_remove (cg_below g) t cid\<rparr>"
| "unindex cid (Trailing _ _) g = g\<lparr>cg_scan := omap_remove cid (cg_scan g)\<rparr>"
| "unindex cid (Oco _ _) g = g\<lparr>cg_scan := omap_remove cid (cg_scan g)\<rparr>"
| "unindex cid (Twap st) g = g\<lparr>cg_twap_ready := omap_remove (tw_emitted st, cid) (cg_twap_ready g)\<rparr>"

section \<open>Registering conditionals\<close>

definition add_stop ::
    "place_template \<Rightarrow> trigger_kind \<Rightarrow> cond_engine \<Rightarrow> (cond_id, conditional_error) result \<times> cond_engine" where
  "add_stop pl trig g =
     (if pt_quantity pl \<le> 0 then (Err CondNonPositiveQuantity, g)
      else cond_insert (Simple trig pl) (pt_account pl) g)"

definition add_trailing ::
    "place_template \<Rightarrow> trail_direction \<Rightarrow> price \<Rightarrow> price \<Rightarrow> cond_engine
     \<Rightarrow> (cond_id, conditional_error) result \<times> cond_engine" where
  "add_trailing pl d offset reference g =
     (if pt_quantity pl \<le> 0 then (Err CondNonPositiveQuantity, g)
      else if offset \<le> 0 then (Err CondNonPositiveOffset, g)
      else cond_insert (Trailing (trailing_new d offset reference) pl) (pt_account pl) g)"

definition leg_invalid :: "oco_leg \<Rightarrow> bool" where
  "leg_invalid leg = (case leg_place leg of None \<Rightarrow> False | Some pl \<Rightarrow> pt_quantity pl \<le> 0)"

definition oco_owner :: "oco_leg \<Rightarrow> oco_leg \<Rightarrow> (account_id, conditional_error) result" where
  "oco_owner leg_a leg_b =
     (case (leg_place leg_a, leg_place leg_b) of
        (Some a, Some b) \<Rightarrow>
          if pt_account a \<noteq> pt_account b then Err CondOwnerMismatch else Ok (pt_account a)
      | (Some a, None) \<Rightarrow> Ok (pt_account a)
      | (None, Some b) \<Rightarrow> Ok (pt_account b)
      | (None, None) \<Rightarrow> Err CondMalformed)"

definition add_oco ::
    "oco_leg \<Rightarrow> oco_leg \<Rightarrow> cond_engine \<Rightarrow> (cond_id, conditional_error) result \<times> cond_engine" where
  "add_oco leg_a leg_b g =
     (case oco_owner leg_a leg_b of
        Inl e \<Rightarrow> (Err e, g)
      | Inr own \<Rightarrow>
          if leg_invalid leg_a then (Err CondNonPositiveQuantity, g)
          else if leg_invalid leg_b then (Err CondNonPositiveQuantity, g)
          else cond_insert (Oco leg_a leg_b) own g)"

definition add_twap ::
    "place_template \<Rightarrow> nat \<Rightarrow> cond_engine \<Rightarrow> (cond_id, conditional_error) result \<times> cond_engine" where
  "add_twap pl slices g =
     (if slices = 0 then (Err CondZeroSlices, g)
      else if pt_quantity pl \<le> 0 then (Err CondNonPositiveQuantity, g)
      else (case and_then (validate_twap (pt_quantity pl) slices) (\<lambda>_.
                 and_then (checked_child_id (pt_order_id pl) (slices - 1)) (\<lambda>_.
                   checked_child_id (pt_client_id pl) (slices - 1))) of
          Inl e \<Rightarrow> (Err e, g)
        | Inr _ \<Rightarrow> cond_insert
            (Twap \<lparr>tw_place = pl, tw_total_slices = slices, tw_emitted = 0, tw_parent = pt_quantity pl\<rparr>)
            (pt_account pl) g))"

section \<open>Acknowledgement and retry\<close>

definition ack_executed :: "cond_id \<Rightarrow> cond_entry \<Rightarrow> cond_engine \<Rightarrow> cond_engine" where
  "ack_executed cid e g =
     (case ce_kind e of
        Twap st \<Rightarrow>
          (let st' = st\<lparr>tw_emitted := min u32_max (tw_emitted st + 1)\<rparr>;
               e' = e\<lparr>ce_pending_batch := None, ce_kind := Twap st'\<rparr>
           in if tw_emitted st' < tw_total_slices st' then
                g\<lparr>cg_entries := omap_put cid (e'\<lparr>ce_status := StPending\<rparr>) (cg_entries g),
                  cg_twap_ready := omap_put (tw_emitted st', cid) () (cg_twap_ready g)\<rparr>
              else (let g = unindex cid (Twap st) g in g\<lparr>cg_entries := omap_remove cid (cg_entries g)\<rparr>))
      | k \<Rightarrow> (let g = unindex cid k g in g\<lparr>cg_entries := omap_remove cid (cg_entries g)\<rparr>))"

definition cond_ack ::
    "cond_id \<Rightarrow> account_id \<Rightarrow> execution_ack \<Rightarrow> cond_engine
     \<Rightarrow> (unit, conditional_error) result \<times> cond_engine" where
  "cond_ack cid own outcome g =
     (case omap_get (cg_entries g) cid of
        None \<Rightarrow> (Err CondUnknownId, g)
      | Some e \<Rightarrow>
          if ce_owner e \<noteq> own then (Err CondOwnerMismatch, g)
          else if ce_status e \<noteq> StPendingExecution \<and> ce_status e \<noteq> StRetryable
            then (Err CondInvalidStatus, g)
          else (Ok (), (case outcome of
              AckExecuted \<Rightarrow> ack_executed cid e g
            | AckRejected \<Rightarrow>
                (let g = unindex cid (ce_kind e) g in g\<lparr>cg_entries := omap_remove cid (cg_entries g)\<rparr>)
            | AckRetryable \<Rightarrow>
                g\<lparr>cg_entries := omap_put cid (e\<lparr>ce_status := StRetryable\<rparr>) (cg_entries g)\<rparr>)))"

definition cond_retry ::
    "cond_id \<Rightarrow> account_id \<Rightarrow> cond_engine \<Rightarrow> (order_intent, conditional_error) result \<times> cond_engine" where
  "cond_retry cid own g =
     (case omap_get (cg_entries g) cid of
        None \<Rightarrow> (Err CondUnknownId, g)
      | Some e \<Rightarrow>
          if ce_owner e \<noteq> own then (Err CondOwnerMismatch, g)
          else if ce_status e \<noteq> StRetryable then (Err CondInvalidStatus, g)
          else (case ce_pending_batch e of
              None \<Rightarrow> (Err CondInvalidStatus, g)
            | Some batch \<Rightarrow> (Ok batch,
                g\<lparr>cg_entries := omap_put cid (e\<lparr>ce_status := StPendingExecution\<rparr>) (cg_entries g)\<rparr>)))"

section \<open>A mark-price tick\<close>

text \<open>\<open>BTreeSet::extend\<close>, and the candidate set the four indexes offer at a price.\<close>

definition oset_extend :: "'a::linorder oset \<Rightarrow> 'a list \<Rightarrow> 'a oset" where
  "oset_extend s xs = fold (\<lambda>x. omap_put x ()) xs s"

definition threshold_ids :: "(int \<Rightarrow> bool) \<Rightarrow> (int, cond_id oset) omap \<Rightarrow> cond_id list" where
  "threshold_ids within m = concat (map (\<lambda>(_, s). omap_keys s) (filter (\<lambda>(t, _). within t) (entries m)))"

definition candidates :: "price \<Rightarrow> cond_engine \<Rightarrow> cond_id oset" where
  "candidates px g =
     (let c = oset_extend omap_empty (threshold_ids (\<lambda>t. t \<le> px) (cg_above g));
          c = oset_extend c (threshold_ids (\<lambda>t. px \<le> t) (cg_below g));
          c = oset_extend c (omap_keys (cg_scan g))
      in oset_extend c (map snd (omap_keys (cg_twap_ready g))))"

fun fire_candidates ::
    "price \<Rightarrow> cond_id list \<Rightarrow> (cond_id, cond_entry) omap
     \<Rightarrow> (cond_id \<times> order_intent \<times> entry_kind) list \<times> (cond_id, cond_entry) omap" where
  "fire_candidates px [] m = ([], m)"
| "fire_candidates px (cid # ids) m =
     (case omap_get m cid of
        None \<Rightarrow> fire_candidates px ids m
      | Some e \<Rightarrow>
          (case try_fire px e of
             (None, e') \<Rightarrow> fire_candidates px ids (omap_put cid e' m)
           | (Some intent, e') \<Rightarrow>
               (case fire_candidates px ids (omap_put cid e' m) of
                  (fired, m') \<Rightarrow> ((cid, intent, ce_kind e') # fired, m'))))"

definition evaluate_into ::
    "price \<Rightarrow> (cond_id \<times> order_intent) list \<Rightarrow> cond_engine \<Rightarrow> (cond_id \<times> order_intent) list \<times> cond_engine" where
  "evaluate_into px out g =
     (case fire_candidates px (omap_keys (candidates px g)) (cg_entries g) of
        (fired, m) \<Rightarrow>
          (out @ map (\<lambda>(cid, intent, _). (cid, intent)) fired,
           fold (\<lambda>(cid, _, kind). unindex cid kind) fired (g\<lparr>cg_entries := m\<rparr>)))"

definition on_mark_price :: "price \<Rightarrow> cond_engine \<Rightarrow> (cond_id \<times> order_intent) list \<times> cond_engine" where
  "on_mark_price px g = evaluate_into px [] g"

section \<open>Decoding a conditional from the wire\<close>

record decoded_conditional =
  dc_place :: place_template
  dc_trigger :: trigger_kind

definition ENCODED_CONDITIONAL_LEN :: nat where
  "ENCODED_CONDITIONAL_LEN = 41"

text \<open>\<open>bytes.get(a..b)\<close>, and the panicking index \<open>bytes[i]\<close> with \<open>None\<close> for the panic.\<close>

definition slice_get :: "bytes \<Rightarrow> nat \<Rightarrow> nat \<Rightarrow> bytes option" where
  "slice_get bs a b = (if a \<le> b \<and> b \<le> length bs then Some (take (b - a) (drop a bs)) else None)"

definition byte_at :: "bytes \<Rightarrow> nat \<Rightarrow> nat option" where
  "byte_at bs i = (if i < length bs then Some (unat (bs ! i)) else None)"

definition read_i64 :: "bytes \<Rightarrow> nat \<Rightarrow> (int, conditional_error) result" where
  "read_i64 bs at =
     (if at + 8 \<le> u64_max then
        and_then (ok_or (slice_get bs at (at + 8)) CondMalformed) (\<lambda>s. Ok (i64_of_bytes s))
      else Err CondMalformed)"

definition read_u64 :: "bytes \<Rightarrow> nat \<Rightarrow> (nat, conditional_error) result" where
  "read_u64 bs at =
     (if at + 8 \<le> u64_max then
        and_then (ok_or (slice_get bs at (at + 8)) CondMalformed) (\<lambda>s. Ok (le_nat s))
      else Err CondMalformed)"

definition read_u32 :: "bytes \<Rightarrow> nat \<Rightarrow> (nat, conditional_error) result" where
  "read_u32 bs at =
     (if at + 4 \<le> u64_max then
        and_then (ok_or (slice_get bs at (at + 4)) CondMalformed) (\<lambda>s. Ok (le_nat s))
      else Err CondMalformed)"

definition side_of_byte :: "nat \<Rightarrow> (side, conditional_error) result" where
  "side_of_byte b = (if b = 0 then Ok Bid else if b = 1 then Ok Ask else Err CondMalformed)"

definition order_type_of_byte :: "nat \<Rightarrow> (order_type, conditional_error) result" where
  "order_type_of_byte b =
     (if b = 0 then Ok Limit else if b = 1 then Ok Market else if b = 2 then Ok PostOnly
      else if b = 3 then Ok ReduceOnly else Err CondMalformed)"

definition tif_of_byte :: "nat \<Rightarrow> (time_in_force, conditional_error) result" where
  "tif_of_byte b =
     (if b = 0 then Ok Gtc else if b = 1 then Ok Ioc else if b = 2 then Ok Fok else Err CondMalformed)"

definition bool_of_byte :: "nat \<Rightarrow> (bool, conditional_error) result" where
  "bool_of_byte b = (if b = 0 then Ok False else if b = 1 then Ok True else Err CondMalformed)"

definition trigger_of_byte :: "price \<Rightarrow> nat \<Rightarrow> (trigger_kind, conditional_error) result" where
  "trigger_of_byte t b =
     (if b = 0 then Ok (Above t) else if b = 1 then Ok (Below t) else Err CondMalformed)"

definition decode_conditional :: "bytes \<Rightarrow> (decoded_conditional, conditional_error) result option" where
  "decode_conditional bs =
     (if length bs < ENCODED_CONDITIONAL_LEN then Some (Err CondMalformed)
      else
        try_then (Some (read_u32 bs 0)) (\<lambda>acct.
        try_then (map_option side_of_byte (byte_at bs 4)) (\<lambda>sd.
        try_then (map_option order_type_of_byte (byte_at bs 5)) (\<lambda>otype.
        try_then (map_option tif_of_byte (byte_at bs 6)) (\<lambda>tif.
        try_then (Some (read_i64 bs 8)) (\<lambda>px.
        try_then (Some (read_i64 bs 16)) (\<lambda>q.
        if q \<le> 0 then Some (Err CondNonPositiveQuantity)
        else
        try_then (Some (read_i64 bs 24)) (\<lambda>t.
        try_then (Some (read_u64 bs 32)) (\<lambda>client.
        try_then (map_option bool_of_byte (byte_at bs 40)) (\<lambda>reduce.
        try_then (map_option (trigger_of_byte t) (byte_at bs 7)) (\<lambda>trig.
          Some (Ok
            \<lparr>dc_place = \<lparr>pt_order_id = client, pt_account = acct, pt_side = sd, pt_order_type = otype,
                          pt_tif = tif, pt_price = px, pt_quantity = q, pt_client_id = client,
                          pt_reduce_only = reduce\<rparr>,
             dc_trigger = trig\<rparr>))))))))))))"

end
