(* ===== verification/ConditionalLaws.thy ===== *)
theory ConditionalLaws
  imports Conditional
begin

text \<open>
  The invariant of the conditional engine. The four indexes hold exactly the pending entries, each
  under the slot its kind calls for; a fired entry keeps its batch until it is acknowledged. Every
  operation preserves the invariant, and a mark-price tick over the candidates the indexes offer
  does what a scan over all entries would do.
\<close>

section \<open>Sets of identifiers\<close>

text \<open>The contract of a set that is filled and emptied one element at a time: the contents of
  several insertions and removals in a row.\<close>

locale id_set =
  fixes mem :: "'s \<Rightarrow> 'k \<Rightarrow> bool"
    and add :: "'k \<Rightarrow> 's \<Rightarrow> 's"
    and del :: "'k \<Rightarrow> 's \<Rightarrow> 's"
  assumes mem_add: "mem (add k s) j \<longleftrightarrow> j = k \<or> mem s j"
    and mem_del: "mem (del k s) j \<longleftrightarrow> j \<noteq> k \<and> mem s j"
begin

lemma mem_add_all: "mem (fold add ks s) j \<longleftrightarrow> j \<in> set ks \<or> mem s j"
  by (induction ks arbitrary: s) (auto simp: mem_add)

lemma mem_del_all: "mem (fold del ks s) j \<longleftrightarrow> j \<notin> set ks \<and> mem s j"
  by (induction ks arbitrary: s) (auto simp: mem_del)

end

definition oset_mem :: "'a::linorder oset \<Rightarrow> 'a \<Rightarrow> bool" where
  "oset_mem s x \<longleftrightarrow> omap_get s x \<noteq> None"

definition threshold_mem :: "(int, cond_id oset) omap \<Rightarrow> int \<times> cond_id \<Rightarrow> bool" where
  "threshold_mem m = (\<lambda>(t, cid). case omap_get m t of None \<Rightarrow> False | Some s \<Rightarrow> oset_mem s cid)"

lemma omap_keys_mem: "k \<in> set (omap_keys m) \<longleftrightarrow> omap_get m k \<noteq> None"
  using om.key_iff [of k m] by (simp add: omap_keys_def)

lemma oset_mem_keys: "oset_mem s x \<longleftrightarrow> x \<in> set (omap_keys s)"
  by (simp add: oset_mem_def omap_keys_mem)

interpretation os: id_set oset_mem "\<lambda>x. omap_put x ()" omap_remove
  by unfold_locales (auto simp: oset_mem_def)

interpretation th: id_set threshold_mem
    "\<lambda>(t, cid) m. threshold_add m t cid" "\<lambda>(t, cid) m. threshold_remove m t cid"
proof unfold_locales
  fix k j :: "int \<times> cond_id" and m
  obtain t cid t' cid' where kj: "k = (t, cid)" "j = (t', cid')" by fastforce
  show "threshold_mem ((\<lambda>(t, cid) m. threshold_add m t cid) k m) j \<longleftrightarrow> j = k \<or> threshold_mem m j"
    by (auto simp: kj threshold_mem_def threshold_add_def oset_mem_def split: option.splits)
  show "threshold_mem ((\<lambda>(t, cid) m. threshold_remove m t cid) k m) j \<longleftrightarrow> j \<noteq> k \<and> threshold_mem m j"
  proof (cases "omap_get m t")
    case None
    then show ?thesis by (auto simp: kj threshold_mem_def threshold_remove_def)
  next
    case (Some s)
    have "omap_keys (omap_remove cid s) = [] \<Longrightarrow> \<not> oset_mem (omap_remove cid s) x" for x
      by (simp add: oset_mem_keys)
    with Some show ?thesis
      by (auto simp: kj threshold_mem_def threshold_remove_def Let_def os.mem_del)
  qed
qed

lemma oset_extend_mem: "oset_mem (oset_extend s xs) x \<longleftrightarrow> x \<in> set xs \<or> oset_mem s x"
  by (simp add: oset_extend_def os.mem_add_all)

lemma threshold_ids_mem: "cid \<in> set (threshold_ids P m) \<longleftrightarrow> (\<exists>t. P t \<and> threshold_mem m (t, cid))"
proof -
  have "cid \<in> set (threshold_ids P m) \<longleftrightarrow> (\<exists>t s. (t, s) \<in> set (entries m) \<and> P t \<and> oset_mem s cid)"
    by (force simp: threshold_ids_def oset_mem_keys)
  then show ?thesis
    by (auto simp: om.in_iter_iff threshold_mem_def split: option.splits)
qed

section \<open>The slot of an entry\<close>

datatype slot = AboveAt int | BelowAt int | Scanned | ReadyAt nat

fun home :: "entry_kind \<Rightarrow> slot" where
  "home (Simple (Above t) _) = AboveAt t"
| "home (Simple (Below t) _) = BelowAt t"
| "home (Trailing _ _) = Scanned"
| "home (Oco _ _) = Scanned"
| "home (Twap st) = ReadyAt (tw_emitted st)"

fun indexed :: "cond_engine \<Rightarrow> slot \<Rightarrow> cond_id \<Rightarrow> bool" where
  "indexed g (AboveAt t) cid = threshold_mem (cg_above g) (t, cid)"
| "indexed g (BelowAt t) cid = threshold_mem (cg_below g) (t, cid)"
| "indexed g Scanned cid = oset_mem (cg_scan g) cid"
| "indexed g (ReadyAt k) cid = oset_mem (cg_twap_ready g) (k, cid)"

lemma indexed_index_new:
  assumes "\<And>st. k = Twap st \<Longrightarrow> tw_emitted st = 0"
  shows "indexed (index_new cid k g) s i \<longleftrightarrow> s = home k \<and> i = cid \<or> indexed g s i"
  using assms th.mem_add [of "(_, cid)"]
  by (cases "(cid, k, g)" rule: index_new.cases; cases s) (auto simp: os.mem_add)

lemma indexed_unindex:
  "indexed (unindex cid k g) s i \<longleftrightarrow> \<not> (s = home k \<and> i = cid) \<and> indexed g s i"
  using th.mem_del [of "(_, cid)"]
  by (cases "(cid, k, g)" rule: unindex.cases; cases s) (auto simp: os.mem_del)

lemma index_new_fields [simp]:
  "cg_entries (index_new cid k g) = cg_entries g" "cg_next_id (index_new cid k g) = cg_next_id g"
  "cg_capacity (index_new cid k g) = cg_capacity g"
  by (cases "(cid, k, g)" rule: index_new.cases; simp)+

lemma unindex_fields [simp]:
  "cg_entries (unindex cid k g) = cg_entries g" "cg_next_id (unindex cid k g) = cg_next_id g"
  "cg_capacity (unindex cid k g) = cg_capacity g"
  by (cases "(cid, k, g)" rule: unindex.cases; simp)+

lemma indexed_updates [simp]:
  "indexed (g\<lparr>cg_entries := m\<rparr>) s i = indexed g s i"
  "indexed (g\<lparr>cg_next_id := n\<rparr>) s i = indexed g s i"
  by (cases s; simp)+

definition unindex_all :: "(cond_id \<times> 'x \<times> entry_kind) list \<Rightarrow> cond_engine \<Rightarrow> cond_engine" where
  "unindex_all fired = fold (\<lambda>(cid, _, kind). unindex cid kind) fired"

lemma unindex_all_fields [simp]:
  "cg_entries (unindex_all fired g) = cg_entries g" "cg_next_id (unindex_all fired g) = cg_next_id g"
  "cg_capacity (unindex_all fired g) = cg_capacity g"
  by (induction fired arbitrary: g) (auto simp: unindex_all_def)

lemma indexed_unindex_all:
  "indexed (unindex_all fired g) s i \<longleftrightarrow>
     (\<forall>(j, _, k) \<in> set fired. \<not> (j = i \<and> s = home k)) \<and> indexed g s i"
  by (induction fired arbitrary: g) (auto simp: unindex_all_def indexed_unindex)

section \<open>The invariant\<close>

definition template_ok :: "account_id \<Rightarrow> place_template \<Rightarrow> bool" where
  "template_ok own pl \<longleftrightarrow> pt_account pl = own \<and> 0 < pt_quantity pl"

definition leg_ok :: "account_id \<Rightarrow> oco_leg \<Rightarrow> bool" where
  "leg_ok own leg \<longleftrightarrow> (case leg_place leg of None \<Rightarrow> True | Some pl \<Rightarrow> template_ok own pl)"

definition twap_ok :: "twap_state \<Rightarrow> bool" where
  "twap_ok st \<longleftrightarrow> tw_parent st = pt_quantity (tw_place st) \<and> tw_emitted st < tw_total_slices st
     \<and> tw_total_slices st \<le> u32_max \<and> int (tw_total_slices st) \<le> tw_parent st
     \<and> pt_order_id (tw_place st) + (tw_total_slices st - 1) \<le> u64_max
     \<and> pt_client_id (tw_place st) + (tw_total_slices st - 1) \<le> u64_max"

fun kind_ok :: "account_id \<Rightarrow> entry_kind \<Rightarrow> bool" where
  "kind_ok own (Simple _ pl) = template_ok own pl"
| "kind_ok own (Trailing trail pl) = (template_ok own pl \<and> 0 < tr_offset trail \<and> recompute trail = trail)"
| "kind_ok own (Oco leg_a leg_b) = (leg_ok own leg_a \<and> leg_ok own leg_b)"
| "kind_ok own (Twap st) = (template_ok own (tw_place st) \<and> twap_ok st)"

definition entry_ok :: "cond_entry \<Rightarrow> bool" where
  "entry_ok e \<longleftrightarrow> ce_status e \<in> {StPending, StPendingExecution, StRetryable}
     \<and> (ce_pending_batch e = None \<longleftrightarrow> ce_status e = StPending)
     \<and> kind_ok (ce_owner e) (ce_kind e)"

definition waiting :: "cond_engine \<Rightarrow> slot \<Rightarrow> cond_id \<Rightarrow> bool" where
  "waiting g s cid \<longleftrightarrow> (\<exists>e. omap_get (cg_entries g) cid = Some e \<and> ce_status e = StPending \<and> home (ce_kind e) = s)"

definition cond_inv :: "cond_engine \<Rightarrow> bool" where
  "cond_inv g \<longleftrightarrow>
     (\<forall>cid e. omap_get (cg_entries g) cid = Some e \<longrightarrow> cid < cg_next_id g \<and> entry_ok e)
     \<and> (\<forall>s cid. indexed g s cid \<longleftrightarrow> waiting g s cid)
     \<and> omap_size (cg_entries g) \<le> cg_capacity g"

lemma cond_invD:
  assumes "cond_inv g"
  shows "omap_get (cg_entries g) cid = Some e \<Longrightarrow> entry_ok e"
    and "omap_get (cg_entries g) cid = Some e \<Longrightarrow> cid < cg_next_id g"
    and "indexed g s cid \<longleftrightarrow> waiting g s cid"
    and "omap_size (cg_entries g) \<le> cg_capacity g"
  using assms by (auto simp: cond_inv_def)

lemma omap_size_empty [simp]: "omap_size omap_empty = 0"
  by (simp add: omap_size_def)

lemma dom_omap_get_finite: "finite (dom (omap_get m))"
proof -
  have "dom (omap_get m) = set (omap_keys m)"
    by (auto simp: omap_keys_mem)
  then show ?thesis by simp
qed

lemma omap_size_put:
  "omap_size (omap_put k v m) = (if omap_get m k = None then Suc (omap_size m) else omap_size m)"
  by (simp add: omap_size_card omap_get_put_fun card_insert_if dom_omap_get_finite domIff)

lemma omap_size_remove_le: "omap_size (omap_remove k m) \<le> omap_size m"
  by (simp add: omap_size_card omap_get_remove_fun dom_omap_get_finite card_mono Diff_subset)

lemma cond_new_inv: "cond_inv (cond_new cap)"
  by (auto simp: cond_inv_def cond_new_def waiting_def threshold_mem_def oset_mem_def
      elim: indexed.elims)

section \<open>Registration preserves the invariant\<close>

lemma cond_insert_cases:
  "cond_insert k own g =
     (if omap_size (cg_entries g) \<ge> cg_capacity g then (Err CondCapacityExhausted, g)
      else if cg_next_id g + 1 \<le> u64_max then
        (Ok (cg_next_id g),
         index_new (cg_next_id g) k (g\<lparr>cg_next_id := cg_next_id g + 1\<rparr>)
           \<lparr>cg_entries := omap_put (cg_next_id g)
              \<lparr>ce_owner = own, ce_status = StPending, ce_kind = k, ce_pending_batch = None\<rparr> (cg_entries g)\<rparr>)
      else (Err CondOverflow, g))"
  by (simp add: cond_insert_def alloc_id_def Let_def)

lemma cond_insert_inv:
  assumes inv: "cond_inv g" and k: "kind_ok own k" and fresh: "\<And>st. k = Twap st \<Longrightarrow> tw_emitted st = 0"
  shows "cond_inv (snd (cond_insert k own g))"
proof (cases "omap_size (cg_entries g) < cg_capacity g \<and> cg_next_id g + 1 \<le> u64_max")
  case True
  let ?n = "cg_next_id g"
  let ?e = "\<lparr>ce_owner = own, ce_status = StPending, ce_kind = k, ce_pending_batch = None\<rparr>"
  let ?g = "index_new ?n k (g\<lparr>cg_next_id := ?n + 1\<rparr>)\<lparr>cg_entries := omap_put ?n ?e (cg_entries g)\<rparr>"
  have absent: "omap_get (cg_entries g) ?n = None"
    using cond_invD(2) [OF inv, of ?n] by (cases "omap_get (cg_entries g) ?n") auto
  have "indexed ?g s cid \<longleftrightarrow> waiting ?g s cid" for s cid
    using cond_invD(3) [OF inv, of s cid] absent
    by (auto simp: indexed_index_new [OF fresh] waiting_def)
  moreover have "cid < cg_next_id ?g \<and> entry_ok e" if "omap_get (cg_entries ?g) cid = Some e" for cid e
    using that k cond_invD(1,2) [OF inv, of cid e] by (auto simp: entry_ok_def split: if_splits)
  ultimately have "cond_inv ?g"
    using True absent by (simp add: cond_inv_def omap_size_put)
  then show ?thesis
    using True by (simp add: cond_insert_cases)
next
  case False
  then show ?thesis using inv by (auto simp: cond_insert_cases)
qed

lemma recompute_again [simp]: "recompute (recompute t) = recompute t"
  by (simp add: recompute_def split: trail_direction.splits)

lemma recompute_fields [simp]:
  "tr_offset (recompute t) = tr_offset t" "tr_direction (recompute t) = tr_direction t"
  "tr_extremum (recompute t) = tr_extremum t"
  by (simp_all add: recompute_def)

lemma add_stop_inv: "cond_inv g \<Longrightarrow> cond_inv (snd (add_stop pl trig g))"
  by (auto simp: add_stop_def template_ok_def intro: cond_insert_inv)

lemma add_trailing_inv: "cond_inv g \<Longrightarrow> cond_inv (snd (add_trailing pl d offset reference g))"
  by (auto simp: add_trailing_def template_ok_def trailing_new_def intro!: cond_insert_inv)

lemma oco_owner_legs:
  assumes "oco_owner leg_a leg_b = Ok own" and "\<not> leg_invalid leg_a" and "\<not> leg_invalid leg_b"
  shows "leg_ok own leg_a" and "leg_ok own leg_b"
  using assms by (auto simp: oco_owner_def leg_invalid_def leg_ok_def template_ok_def
      split: option.splits if_splits)

lemma add_oco_inv: "cond_inv g \<Longrightarrow> cond_inv (snd (add_oco leg_a leg_b g))"
  by (auto simp: add_oco_def oco_owner_legs intro!: cond_insert_inv split: sum.splits)

section \<open>TWAP slices\<close>

lemma twap_slice_qty_eq:
  assumes "0 < n"
  shows "twap_slice_qty parent n i =
    (if int n \<le> parent then Ok (parent div int n + (if int i < parent mod int n then 1 else 0))
     else Err CondNonPositiveQuantity)"
proof -
  have "1 \<le> parent div int n" if "int n \<le> parent"
    using zdiv_mono1 [OF that, of "int n"] assms by simp
  then show ?thesis
    using assms by (auto simp: twap_slice_qty_def Let_def sdiv_nonneg smod_nonneg)
qed

text \<open>The slices before index \<open>m\<close> together.\<close>

definition twap_sum :: "int \<Rightarrow> nat \<Rightarrow> nat \<Rightarrow> int" where
  "twap_sum parent n m = int m * (parent div int n) + min (int m) (parent mod int n)"

lemma twap_sum_Suc:
  "twap_sum parent n (Suc m) = twap_sum parent n m + (parent div int n + (if int m < parent mod int n then 1 else 0))"
  by (simp add: twap_sum_def algebra_simps)

lemma twap_sum_all: "0 < n \<Longrightarrow> twap_sum parent n n = parent"
  by (simp add: twap_sum_def)

lemma twap_sum_0: "0 < n \<Longrightarrow> twap_sum parent n 0 = 0"
  by (simp add: twap_sum_def)

lemma twap_sum_bounds:
  assumes "0 < n" and "int n \<le> parent" and "m \<le> n"
  shows "0 \<le> twap_sum parent n m" and "twap_sum parent n m \<le> parent"
proof -
  have "0 \<le> parent div int n"
    using assms by (simp add: pos_imp_zdiv_nonneg_iff)
  then have "int m * (parent div int n) \<le> int n * (parent div int n)"
    and "0 \<le> int m * (parent div int n)"
    using assms(3) by (simp_all add: mult_right_mono)
  moreover have "int n * (parent div int n) + parent mod int n = parent" by simp
  moreover have "0 \<le> parent mod int n" using assms(1) by simp
  ultimately show "0 \<le> twap_sum parent n m" and "twap_sum parent n m \<le> parent"
    unfolding twap_sum_def by linarith+
qed

lemma validate_twap_from_ok:
  assumes "0 < n" and "int n \<le> parent" and "fits I64 parent" and "i \<le> n"
  shows "validate_twap_from parent n i (twap_sum parent n i) = Ok ()"
  using assms(4)
proof (induction "n - i" arbitrary: i)
  case 0
  then show ?case
    using assms(1) by (subst validate_twap_from.simps) (simp add: twap_sum_all)
next
  case (Suc k)
  then have "i < n" by simp
  have "fits I64 (twap_sum parent n (Suc i))"
    using fits_nonneg_le [OF assms(3) twap_sum_bounds [OF assms(1,2), of "Suc i"]] Suc.hyps(2) by simp
  then show ?case
    using Suc.hyps(1) [of "Suc i"] Suc.hyps(2) assms(1,2) \<open>i < n\<close>
    by (subst validate_twap_from.simps) (simp add: twap_slice_qty_eq prim_checked_def twap_sum_Suc)
qed

lemma validate_twap_iff:
  assumes "0 < n" and "fits I64 parent"
  shows "validate_twap parent n = (if int n \<le> parent then Ok () else Err CondNonPositiveQuantity)"
proof (cases "int n \<le> parent")
  case True
  then show ?thesis
    using validate_twap_from_ok [OF assms(1) True assms(2), of 0] assms(1)
    by (simp add: validate_twap_def twap_sum_0)
next
  case False
  then show ?thesis
    using assms(1)
    by (subst validate_twap_def, subst validate_twap_from.simps) (simp add: twap_slice_qty_eq)
qed

lemma add_twap_eq:
  assumes "slices \<noteq> 0" and "0 < pt_quantity pl" and "fits I64 (pt_quantity pl)"
  shows "add_twap pl slices g =
     (if int slices \<le> pt_quantity pl then
        if pt_order_id pl + (slices - 1) \<le> u64_max \<and> pt_client_id pl + (slices - 1) \<le> u64_max then
          cond_insert (Twap \<lparr>tw_place = pl, tw_total_slices = slices, tw_emitted = 0,
            tw_parent = pt_quantity pl\<rparr>) (pt_account pl) g
        else (Err CondOverflow, g)
      else (Err CondNonPositiveQuantity, g))"
  using assms by (simp add: add_twap_def validate_twap_iff checked_child_id_def)

lemma add_twap_inv:
  assumes "cond_inv g" and "slices \<le> u32_max" and "fits I64 (pt_quantity pl)"
  shows "cond_inv (snd (add_twap pl slices g))"
proof (cases "slices \<noteq> 0 \<and> 0 < pt_quantity pl")
  case True
  then show ?thesis
    using assms by (auto simp: add_twap_eq template_ok_def twap_ok_def intro!: cond_insert_inv)
next
  case False
  then show ?thesis using assms by (auto simp: add_twap_def)
qed

section \<open>Acknowledgement preserves the invariant\<close>

lemma cond_inv_drop:
  assumes inv: "cond_inv g" and e: "omap_get (cg_entries g) cid = Some e" and st: "ce_status e \<noteq> StPending"
  shows "cond_inv (unindex cid k g\<lparr>cg_entries := omap_remove cid (cg_entries g)\<rparr>)" (is "cond_inv ?g")
proof -
  have "indexed ?g s i \<longleftrightarrow> waiting ?g s i" for s i
    using cond_invD(3) [OF inv, of s i] e st by (auto simp: indexed_unindex waiting_def)
  moreover have "omap_size (omap_remove cid (cg_entries g)) \<le> cg_capacity g"
    using omap_size_remove_le cond_invD(4) [OF inv] by (rule order_trans)
  ultimately show ?thesis
    using cond_invD(1,2) [OF inv] by (auto simp: cond_inv_def split: if_splits)
qed

lemma cond_inv_status:
  assumes inv: "cond_inv g" and e: "omap_get (cg_entries g) cid = Some e" and st: "ce_status e \<noteq> StPending"
    and st': "st' = StPendingExecution \<or> st' = StRetryable"
  shows "cond_inv (g\<lparr>cg_entries := omap_put cid (e\<lparr>ce_status := st'\<rparr>) (cg_entries g)\<rparr>)" (is "cond_inv ?g")
proof -
  have "indexed ?g s i \<longleftrightarrow> waiting ?g s i" for s i
    using cond_invD(3) [OF inv, of s i] e st st' by (auto simp: waiting_def)
  moreover have "entry_ok (e\<lparr>ce_status := st'\<rparr>)"
    using cond_invD(1) [OF inv e] st st' by (auto simp: entry_ok_def)
  ultimately show ?thesis
    using cond_invD [OF inv] e by (auto simp: cond_inv_def omap_size_put split: if_splits)
qed

definition twap_next :: "cond_entry \<Rightarrow> twap_state \<Rightarrow> cond_entry" where
  "twap_next e st = e\<lparr>ce_pending_batch := None, ce_kind := Twap (st\<lparr>tw_emitted := Suc (tw_emitted st)\<rparr>),
     ce_status := StPending\<rparr>"

lemma ack_executed_eq:
  assumes "entry_ok e"
  shows "ack_executed cid e g =
    (case ce_kind e of
       Twap st \<Rightarrow>
         if Suc (tw_emitted st) < tw_total_slices st then
           g\<lparr>cg_entries := omap_put cid (twap_next e st) (cg_entries g),
             cg_twap_ready := omap_put (Suc (tw_emitted st), cid) () (cg_twap_ready g)\<rparr>
         else unindex cid (ce_kind e) g\<lparr>cg_entries := omap_remove cid (cg_entries g)\<rparr>
     | _ \<Rightarrow> unindex cid (ce_kind e) g\<lparr>cg_entries := omap_remove cid (cg_entries g)\<rparr>)"
proof (cases "ce_kind e")
  case (Twap st)
  then have "min u32_max (tw_emitted st + 1) = Suc (tw_emitted st)"
    using assms by (simp add: entry_ok_def twap_ok_def)
  with Twap show ?thesis by (simp add: ack_executed_def twap_next_def Let_def)
qed (simp_all add: ack_executed_def Let_def)

lemma twap_requeue_inv:
  assumes inv: "cond_inv g" and e: "omap_get (cg_entries g) cid = Some e" and st: "ce_status e \<noteq> StPending"
    and k: "ce_kind e = Twap ts" and more: "Suc (tw_emitted ts) < tw_total_slices ts"
  shows "cond_inv (g\<lparr>cg_entries := omap_put cid (twap_next e ts) (cg_entries g),
             cg_twap_ready := omap_put (Suc (tw_emitted ts), cid) () (cg_twap_ready g)\<rparr>)" (is "cond_inv ?g")
proof -
  have "indexed ?g s i \<longleftrightarrow> indexed g s i \<or> s = ReadyAt (Suc (tw_emitted ts)) \<and> i = cid" for s i
    by (cases s) (auto simp: os.mem_add)
  then have "indexed ?g s i \<longleftrightarrow> waiting ?g s i" for s i
    using cond_invD(3) [OF inv, of s i] e st by (auto simp: waiting_def twap_next_def)
  moreover have "entry_ok (twap_next e ts)"
    using cond_invD(1) [OF inv e] k more by (auto simp: entry_ok_def twap_ok_def twap_next_def)
  ultimately show ?thesis
    using cond_invD [OF inv] e by (auto simp: cond_inv_def omap_size_put split: if_splits)
qed

lemma ack_executed_inv:
  assumes "cond_inv g" and "omap_get (cg_entries g) cid = Some e" and "ce_status e \<noteq> StPending"
  shows "cond_inv (ack_executed cid e g)"
  using cond_invD(1) [OF assms(1,2)] cond_inv_drop [OF assms] twap_requeue_inv [OF assms]
  by (simp add: ack_executed_eq del: unindex.simps split: entry_kind.splits)

lemma cond_ack_inv:
  assumes "cond_inv g"
  shows "cond_inv (snd (cond_ack cid own outcome g))"
proof (cases "omap_get (cg_entries g) cid")
  case None
  then show ?thesis using assms by (simp add: cond_ack_def)
next
  case (Some e)
  then show ?thesis
    using assms cond_inv_drop [OF assms Some] ack_executed_inv [OF assms Some]
      cond_inv_status [OF assms Some]
    by (cases outcome) (auto simp: cond_ack_def Let_def simp del: unindex.simps)
qed

lemma cond_retry_inv:
  assumes "cond_inv g"
  shows "cond_inv (snd (cond_retry cid own g))"
  using assms by (auto simp: cond_retry_def cond_inv_status split: option.splits)

section \<open>A tick is a scan over all entries\<close>

lemma fire_kind_home: "home (snd (fire_kind px k)) = home k"
  by (cases k) (simp_all add: Let_def)

lemma trailing_update_ok:
  assumes "recompute t = t"
  shows "recompute (trailing_update t px) = trailing_update t px"
    and "tr_offset (trailing_update t px) = tr_offset t"
    and "tr_direction (trailing_update t px) = tr_direction t"
  using assms by (auto simp: trailing_update_def split: trail_direction.splits)

lemma fire_kind_ok: "kind_ok own k \<Longrightarrow> kind_ok own (snd (fire_kind px k))"
  by (cases k) (simp_all add: Let_def trailing_update_ok)

text \<open>Whether the indexes offer a pending entry of kind \<open>k\<close> at price \<open>px\<close>.\<close>

fun offered :: "price \<Rightarrow> entry_kind \<Rightarrow> bool" where
  "offered px (Simple trig _) = trigger_fires trig px"
| "offered px _ = True"

lemma not_offered: "\<not> offered px k \<Longrightarrow> fire_kind px k = (None, k)"
  by (cases k) simp_all

lemma try_fire_cases:
  "try_fire px e =
    (if ce_status e = StPending \<or> ce_status e = StRetryable then
       (fst (fire_kind px (ce_kind e)),
        case fst (fire_kind px (ce_kind e)) of
          None \<Rightarrow> e\<lparr>ce_kind := snd (fire_kind px (ce_kind e))\<rparr>
        | Some intent \<Rightarrow> e\<lparr>ce_kind := snd (fire_kind px (ce_kind e)), ce_status := StPendingExecution,
             ce_pending_batch := Some intent\<rparr>)
     else (None, e))"
  by (auto simp: try_fire_def split: prod.splits option.splits)

definition tick_entry :: "price \<Rightarrow> cond_entry \<Rightarrow> cond_entry" where
  "tick_entry px e = (if ce_status e = StPending then snd (try_fire px e) else e)"

definition tick_fire :: "price \<Rightarrow> cond_entry \<Rightarrow> order_intent option" where
  "tick_fire px e = (if ce_status e = StPending then fst (try_fire px e) else None)"

definition pending_scan :: "price \<Rightarrow> cond_engine \<Rightarrow> (cond_id \<times> order_intent) list" where
  "pending_scan px g = List.map_filter (\<lambda>(cid, e). map_option (Pair cid) (tick_fire px e)) (entries (cg_entries g))"

lemma tick_idle:
  "\<not> (ce_status e = StPending \<and> offered px (ce_kind e)) \<Longrightarrow> tick_entry px e = e \<and> tick_fire px e = None"
  by (auto simp: tick_entry_def tick_fire_def try_fire_cases not_offered)

lemma tick_entry_ok: "entry_ok e \<Longrightarrow> entry_ok (tick_entry px e)"
  by (auto simp: entry_ok_def tick_entry_def try_fire_cases fire_kind_ok split: option.splits)

lemma tick_entry_pending:
  "ce_status (tick_entry px e) = StPending \<longleftrightarrow> ce_status e = StPending \<and> tick_fire px e = None"
  by (auto simp: tick_entry_def tick_fire_def try_fire_cases split: option.splits)

lemma tick_entry_home: "home (ce_kind (tick_entry px e)) = home (ce_kind e)"
  by (simp add: tick_entry_def try_fire_cases fire_kind_home split: option.splits)

lemma candidates_mem:
  "oset_mem (candidates px g) cid \<longleftrightarrow>
     (\<exists>t\<le>px. indexed g (AboveAt t) cid) \<or> (\<exists>t\<ge>px. indexed g (BelowAt t) cid)
     \<or> indexed g Scanned cid \<or> (\<exists>k. indexed g (ReadyAt k) cid)"
proof -
  have "cid \<in> set (map snd (omap_keys (cg_twap_ready g))) \<longleftrightarrow> (\<exists>k. oset_mem (cg_twap_ready g) (k, cid))"
    by (force simp: oset_mem_keys)
  moreover have "cid \<in> set (omap_keys (cg_scan g)) \<longleftrightarrow> oset_mem (cg_scan g) cid"
    by (simp add: oset_mem_keys)
  moreover have "\<not> oset_mem omap_empty cid"
    by (simp add: oset_mem_def)
  ultimately show ?thesis
    unfolding candidates_def Let_def oset_extend_mem threshold_ids_mem indexed.simps by blast
qed

lemma candidates_pending:
  assumes "cond_inv g"
  shows "oset_mem (candidates px g) cid \<longleftrightarrow>
    (\<exists>e. omap_get (cg_entries g) cid = Some e \<and> ce_status e = StPending \<and> offered px (ce_kind e))"
proof -
  have "(\<exists>t\<le>px. home k = AboveAt t) \<or> (\<exists>t\<ge>px. home k = BelowAt t) \<or> home k = Scanned
      \<or> (\<exists>n. home k = ReadyAt n) \<longleftrightarrow> offered px k" for k
    by (cases k rule: home.cases) auto
  then show ?thesis
    unfolding candidates_mem cond_invD(3) [OF assms] waiting_def by blast
qed

definition fired_of :: "price \<Rightarrow> (cond_id, cond_entry) omap \<Rightarrow> cond_id
    \<Rightarrow> (cond_id \<times> order_intent \<times> entry_kind) option" where
  "fired_of px m cid = Option.bind (omap_get m cid) (\<lambda>e.
     map_option (\<lambda>intent. (cid, intent, ce_kind (snd (try_fire px e)))) (fst (try_fire px e)))"

lemma map_filter_cong: "(\<And>x. x \<in> set xs \<Longrightarrow> f x = f' x) \<Longrightarrow> List.map_filter f xs = List.map_filter f' xs"
  by (induction xs) (auto simp: List.map_filter_simps split: option.splits)

lemma fire_candidates_Cons:
  "fire_candidates px (i # ids) m =
    (case omap_get m i of
       None \<Rightarrow> fire_candidates px ids m
     | Some e \<Rightarrow>
         ((case fst (try_fire px e) of None \<Rightarrow> [] | Some intent \<Rightarrow> [(i, intent, ce_kind (snd (try_fire px e)))])
           @ fst (fire_candidates px ids (omap_put i (snd (try_fire px e)) m)),
         snd (fire_candidates px ids (omap_put i (snd (try_fire px e)) m))))"
  by (simp split: option.splits prod.splits)

declare fire_candidates.simps(2) [simp del]

lemma fired_candidates:
  "distinct ids \<Longrightarrow> fst (fire_candidates px ids m) = List.map_filter (fired_of px m) ids"
proof (induction ids arbitrary: m)
  case Nil
  then show ?case by (simp add: List.map_filter_simps)
next
  case (Cons i ids)
  have later: "List.map_filter (fired_of px (omap_put i e' m)) ids = List.map_filter (fired_of px m) ids" for e'
    using Cons.prems by (intro map_filter_cong) (auto simp: fired_of_def)
  show ?case
    using Cons.prems
    by (simp add: fire_candidates_Cons Cons.IH later List.map_filter_simps fired_of_def [of px m i]
        split: option.splits)
qed

lemma fire_candidates_entries:
  "distinct ids \<Longrightarrow> omap_get (snd (fire_candidates px ids m)) cid =
     (if cid \<in> set ids then map_option (snd \<circ> try_fire px) (omap_get m cid) else omap_get m cid)"
  by (induction ids arbitrary: m) (auto simp: fire_candidates_Cons split: option.splits)

lemma fire_candidates_size: "omap_size (snd (fire_candidates px ids m)) = omap_size m"
  by (induction ids arbitrary: m) (auto simp: fire_candidates_Cons omap_size_put split: option.splits)

lemma map_map_filter: "map h (List.map_filter f xs) = List.map_filter (\<lambda>x. map_option h (f x)) xs"
  by (induction xs) (auto simp: List.map_filter_simps split: option.splits)

lemma map_filter_map: "List.map_filter f (map h xs) = List.map_filter (\<lambda>x. f (h x)) xs"
  by (induction xs) (auto simp: List.map_filter_simps split: option.splits)

lemma map_filter_filter:
  "(\<And>x. x \<in> set xs \<Longrightarrow> \<not> P x \<Longrightarrow> f x = None) \<Longrightarrow> List.map_filter f (filter P xs) = List.map_filter f xs"
  by (induction xs) (auto simp: List.map_filter_simps split: option.splits)

lemma in_map_filter: "y \<in> set (List.map_filter f xs) \<longleftrightarrow> (\<exists>x\<in>set xs. f x = Some y)"
  by (induction xs) (auto simp: List.map_filter_simps split: option.splits)

lemma omap_keys_ascending: "sorted_wrt (<) (omap_keys m)"
  using entries_ascending [of m] by (simp add: omap_keys_def)

lemma omap_keys_distinct: "distinct (omap_keys m)"
  using omap_keys_ascending strict_sorted_iff by blast

lemma candidate_keys:
  assumes "cond_inv g"
  shows "omap_keys (candidates px g) = filter (oset_mem (candidates px g)) (omap_keys (cg_entries g))"
proof (rule strict_sorted_equal)
  show "sorted_wrt (<) (omap_keys (candidates px g))" by (rule omap_keys_ascending)
  show "sorted_wrt (<) (filter (oset_mem (candidates px g)) (omap_keys (cg_entries g)))"
    by (intro sorted_wrt_filter omap_keys_ascending)
  have "cid \<in> set (omap_keys (cg_entries g))" if "oset_mem (candidates px g) cid" for cid
    using that candidates_pending [OF assms, of px cid] by (auto simp: omap_keys_mem)
  then show "set (omap_keys (candidates px g)) = set (filter (oset_mem (candidates px g)) (omap_keys (cg_entries g)))"
    by (auto simp: oset_mem_keys)
qed

definition tick_fired :: "price \<Rightarrow> (cond_id, cond_entry) omap \<Rightarrow> cond_id
    \<Rightarrow> (cond_id \<times> order_intent \<times> entry_kind) option" where
  "tick_fired px m cid = Option.bind (omap_get m cid) (\<lambda>e.
     map_option (\<lambda>intent. (cid, intent, ce_kind (tick_entry px e))) (tick_fire px e))"

lemma fired_tick:
  assumes "cond_inv g"
  shows "fst (fire_candidates px (omap_keys (candidates px g)) (cg_entries g)) =
    List.map_filter (tick_fired px (cg_entries g)) (omap_keys (cg_entries g))"
proof -
  let ?m = "cg_entries g" and ?C = "candidates px g"
  have "fst (fire_candidates px (omap_keys ?C) ?m) = List.map_filter (fired_of px ?m) (omap_keys ?C)"
    by (intro fired_candidates omap_keys_distinct)
  also have "\<dots> = List.map_filter (tick_fired px ?m) (omap_keys ?C)"
  proof (rule map_filter_cong)
    fix cid assume "cid \<in> set (omap_keys ?C)"
    then obtain e where "omap_get ?m cid = Some e" "ce_status e = StPending"
      using candidates_pending [OF assms, of px cid] by (auto simp: oset_mem_keys)
    then show "fired_of px ?m cid = tick_fired px ?m cid"
      by (simp add: fired_of_def tick_fired_def tick_entry_def tick_fire_def)
  qed
  also have "\<dots> = List.map_filter (tick_fired px ?m) (omap_keys ?m)"
    unfolding candidate_keys [OF assms]
  proof (rule map_filter_filter)
    fix cid assume "\<not> oset_mem ?C cid"
    then show "tick_fired px ?m cid = None"
      using candidates_pending [OF assms, of px cid] tick_idle
      by (cases "omap_get ?m cid") (auto simp: tick_fired_def)
  qed
  finally show ?thesis .
qed

lemma evaluate_into_eq:
  "evaluate_into px out g =
    (out @ map (\<lambda>(cid, intent, _). (cid, intent))
       (fst (fire_candidates px (omap_keys (candidates px g)) (cg_entries g))),
     unindex_all (fst (fire_candidates px (omap_keys (candidates px g)) (cg_entries g)))
       (g\<lparr>cg_entries := snd (fire_candidates px (omap_keys (candidates px g)) (cg_entries g))\<rparr>))"
  by (simp add: evaluate_into_def unindex_all_def split: prod.splits)

lemma tick_output:
  assumes "cond_inv g"
  shows "fst (on_mark_price px g) = pending_scan px g"
proof -
  have "List.map_filter (\<lambda>cid. map_option (\<lambda>(cid, intent, _). (cid, intent)) (tick_fired px (cg_entries g) cid))
      (omap_keys (cg_entries g)) = pending_scan px g"
    unfolding pending_scan_def omap_keys_def map_filter_map
    by (rule map_filter_cong)
      (auto simp: tick_fired_def om.in_iter_iff map_option_case split: option.splits)
  then show ?thesis
    by (simp add: on_mark_price_def evaluate_into_eq fired_tick [OF assms] map_map_filter)
qed

lemma tick_entries:
  assumes "cond_inv g"
  shows "omap_get (cg_entries (snd (on_mark_price px g))) cid =
    map_option (tick_entry px) (omap_get (cg_entries g) cid)"
proof (cases "oset_mem (candidates px g) cid")
  case True
  then show ?thesis
    using candidates_pending [OF assms, of px cid]
    by (auto simp: on_mark_price_def evaluate_into_eq fire_candidates_entries omap_keys_distinct
        oset_mem_keys tick_entry_def)
next
  case False
  then have "map_option (tick_entry px) (omap_get (cg_entries g) cid) = omap_get (cg_entries g) cid"
    using candidates_pending [OF assms, of px cid] tick_idle
    by (cases "omap_get (cg_entries g) cid") auto
  with False show ?thesis
    by (simp add: on_mark_price_def evaluate_into_eq fire_candidates_entries omap_keys_distinct
        oset_mem_keys)
qed

lemma tick_fields [simp]:
  "cg_next_id (snd (on_mark_price px g)) = cg_next_id g"
  "cg_capacity (snd (on_mark_price px g)) = cg_capacity g"
  "omap_size (cg_entries (snd (on_mark_price px g))) = omap_size (cg_entries g)"
  by (simp_all add: on_mark_price_def evaluate_into_eq fire_candidates_size)

lemma tick_inv:
  assumes inv: "cond_inv g"
  shows "cond_inv (snd (on_mark_price px g))" (is "cond_inv ?g")
proof -
  have "indexed ?g s cid \<longleftrightarrow> waiting ?g s cid" for s cid
  proof -
    have "(cid, x, k) \<in> set (List.map_filter (tick_fired px (cg_entries g)) (omap_keys (cg_entries g)))
        \<longleftrightarrow> tick_fired px (cg_entries g) cid = Some (cid, x, k)" for x k
      by (auto simp: in_map_filter tick_fired_def bind_eq_Some_conv omap_keys_mem)
    then have "indexed ?g s cid \<longleftrightarrow> indexed g s cid
        \<and> (\<forall>x k. tick_fired px (cg_entries g) cid = Some (cid, x, k) \<longrightarrow> s \<noteq> home k)"
      unfolding on_mark_price_def evaluate_into_eq indexed_unindex_all fired_tick [OF inv] snd_conv
        indexed_updates by fastforce
    also have "\<dots> \<longleftrightarrow> waiting ?g s cid"
      using cond_invD(3) [OF inv, of s cid]
      by (cases "omap_get (cg_entries g) cid")
        (auto simp: waiting_def tick_entries [OF inv] tick_fired_def tick_entry_pending tick_entry_home)
    finally show ?thesis .
  qed
  then show ?thesis
    using cond_invD [OF inv] by (auto simp: cond_inv_def tick_entries [OF inv] tick_entry_ok)
qed

end
