(* ===== verification/ConditionalClaims.thy ===== *)
theory ConditionalClaims
  imports ConditionalLaws
begin

text \<open>
  What the conditional engine promises over every sequence of its operations: what a tick emits, to whom
  the orders belong, how often a batch is emitted before it is acknowledged, and that errors change nothing.
\<close>

section \<open>Commands and reachable engines\<close>

datatype cond_command =
    AddStop place_template trigger_kind
  | AddTrailing place_template trail_direction price price
  | AddOco oco_leg oco_leg
  | AddTwap place_template nat
  | Ack cond_id account_id execution_ack
  | Retry cond_id account_id
  | Tick price

fun cond_apply :: "cond_command \<Rightarrow> cond_engine \<Rightarrow> (cond_id \<times> order_intent) list \<times> cond_engine" where
  "cond_apply (AddStop pl trig) g = ([], snd (add_stop pl trig g))"
| "cond_apply (AddTrailing pl d offset reference) g = ([], snd (add_trailing pl d offset reference g))"
| "cond_apply (AddOco leg_a leg_b) g = ([], snd (add_oco leg_a leg_b g))"
| "cond_apply (AddTwap pl slices) g = ([], snd (add_twap pl slices g))"
| "cond_apply (Ack cid own outcome) g = ([], snd (cond_ack cid own outcome g))"
| "cond_apply (Retry cid own) g =
     (case cond_retry cid own g of
        (Inl _, g') \<Rightarrow> ([], g')
      | (Inr batch, g') \<Rightarrow> ([(cid, batch)], g'))"
| "cond_apply (Tick px) g = on_mark_price px g"

fun cond_typed :: "cond_command \<Rightarrow> bool" where
  "cond_typed (AddTwap pl slices) \<longleftrightarrow> slices \<le> u32_max \<and> fits I64 (pt_quantity pl)"
| "cond_typed _ \<longleftrightarrow> True"

fun cond_run :: "cond_command list \<Rightarrow> cond_engine \<Rightarrow> (cond_id \<times> order_intent) list \<times> cond_engine" where
  "cond_run [] g = ([], g)"
| "cond_run (c # cs) g = (fst (cond_apply c g) @ fst (cond_run cs (snd (cond_apply c g))),
     snd (cond_run cs (snd (cond_apply c g))))"

inductive cond_reachable :: "nat \<Rightarrow> cond_engine \<Rightarrow> bool" for cap where
  cond_init: "cond_reachable cap (cond_new cap)"
| cond_step: "cond_reachable cap g \<Longrightarrow> cond_typed c \<Longrightarrow> cond_reachable cap (snd (cond_apply c g))"

lemma cond_apply_retry [simp]: "snd (cond_apply (Retry cid own) g) = snd (cond_retry cid own g)"
  by (simp split: prod.splits sum.splits)

declare cond_apply.simps(6) [simp del]

lemma cond_apply_inv: "cond_inv g \<Longrightarrow> cond_typed c \<Longrightarrow> cond_inv (snd (cond_apply c g))"
  by (cases c) (simp_all add: add_stop_inv add_trailing_inv add_oco_inv add_twap_inv cond_ack_inv
      cond_retry_inv tick_inv)

lemma cond_reachable_inv: "cond_reachable cap g \<Longrightarrow> cond_inv g"
  by (induction rule: cond_reachable.induct) (simp_all add: cond_new_inv cond_apply_inv)

lemma cond_insert_capacity [simp]: "cg_capacity (snd (cond_insert k own g)) = cg_capacity g"
  by (simp add: cond_insert_cases)

lemma cond_ack_capacity [simp]: "cg_capacity (snd (cond_ack cid own outcome g)) = cg_capacity g"
  by (simp add: cond_ack_def ack_executed_def Let_def del: unindex.simps
      split: option.splits execution_ack.splits entry_kind.splits)

lemma cond_apply_capacity: "cg_capacity (snd (cond_apply c g)) = cg_capacity g"
  by (cases c) (simp_all add: add_stop_def add_trailing_def add_oco_def add_twap_def cond_retry_def
      split: sum.splits option.splits)

section \<open>Example engine\<close>

definition place0 :: place_template where
  "place0 = \<lparr>pt_order_id = 7, pt_account = 3, pt_side = Ask, pt_order_type = Limit, pt_tif = Gtc,
     pt_price = 100, pt_quantity = 5, pt_client_id = 9, pt_reduce_only = False\<rparr>"

definition engine0 :: cond_engine where
  "engine0 = snd (cond_apply (AddStop place0 (Below 90)) (cond_new 4))"

definition place0_intent :: order_intent where
  "place0_intent = into_intent place0 7 9 5"

lemma engine0_reachable: "cond_reachable 4 engine0"
  unfolding engine0_def by (rule cond_step [OF cond_init]) simp

lemma engine0_entries:
  "entries (cg_entries engine0) =
     [(0, \<lparr>ce_owner = 3, ce_status = StPending, ce_kind = Simple (Below 90) place0, ce_pending_batch = None\<rparr>)]"
  by (simp add: engine0_def add_stop_def place0_def cond_insert_cases cond_new_def u64_max_def)

lemma engine0_entry:
  "omap_get (cg_entries engine0) 0 =
     Some \<lparr>ce_owner = 3, ce_status = StPending, ce_kind = Simple (Below 90) place0, ce_pending_batch = None\<rparr>"
  by (simp add: omap_get_def engine0_entries)

lemma engine0_scan: "pending_scan 85 engine0 = [(0, place0_intent)]"
  by (simp add: pending_scan_def engine0_entries List.map_filter_simps tick_fire_def try_fire_cases
      place0_intent_def) (simp add: place0_def)

section \<open>Evaluation\<close>

text \<open>The reference: the evaluation of the code, \<open>Entry::try_fire\<close>, applied to every entry in id order.\<close>

definition full_scan :: "price \<Rightarrow> cond_engine \<Rightarrow> (cond_id \<times> order_intent) list" where
  "full_scan px g =
     List.map_filter (\<lambda>(cid, e). map_option (Pair cid) (fst (try_fire px e))) (entries (cg_entries g))"

definition retryable :: "cond_engine \<Rightarrow> cond_id \<Rightarrow> bool" where
  "retryable g cid =
     (case omap_get (cg_entries g) cid of None \<Rightarrow> False | Some e \<Rightarrow> ce_status e = StRetryable)"

lemma filter_map_filter:
  assumes "\<And>x. x \<in> set xs \<Longrightarrow> f x = (case h x of None \<Rightarrow> None | Some y \<Rightarrow> if P y then Some y else None)"
  shows "List.map_filter f xs = filter P (List.map_filter h xs)"
  using assms by (induction xs) (auto simp: List.map_filter_simps split: option.splits)

lemma pending_scan_full: "pending_scan px g = filter (\<lambda>(cid, _). \<not> retryable g cid) (full_scan px g)"
  unfolding pending_scan_def full_scan_def
proof (rule filter_map_filter)
  fix x assume "x \<in> set (entries (cg_entries g))"
  then obtain cid e where "x = (cid, e)" "omap_get (cg_entries g) cid = Some e"
    by (metis om.in_iter_iff surj_pair)
  then show "(case x of (cid, e) \<Rightarrow> map_option (Pair cid) (tick_fire px e)) =
      (case case x of (cid, e) \<Rightarrow> map_option (Pair cid) (fst (try_fire px e)) of
         None \<Rightarrow> None
       | Some y \<Rightarrow> if case y of (cid, _) \<Rightarrow> \<not> retryable g cid then Some y else None)"
    by (auto simp: tick_fire_def retryable_def try_fire_cases split: option.splits)
qed

lemma tick_entry_full: "tick_entry px e = (if ce_status e = StRetryable then e else snd (try_fire px e))"
  by (auto simp: tick_entry_def try_fire_cases)

text \<open>C29 (equivalence). A mark-price tick looks only at the entries its four indexes offer, yet on
  every reachable engine it emits exactly what applying the evaluation of the code to every entry in id
  order would emit, and leaves every entry as that would, except that it passes over the entries that
  were acknowledged as retryable: those wait for an explicit retry.\<close>

theorem tick_is_full_scan:
  assumes "cond_reachable cap g" and "on_mark_price px g = (out, g')"
  shows "out = filter (\<lambda>(cid, _). \<not> retryable g cid) (full_scan px g)
    \<and> (\<forall>cid. omap_get (cg_entries g') cid =
          map_option (\<lambda>e. if ce_status e = StRetryable then e else snd (try_fire px e)) (omap_get (cg_entries g) cid))"
  using tick_output [OF cond_reachable_inv [OF assms(1)], of px] tick_entries [OF cond_reachable_inv [OF assms(1)], of px]
    assms(2) by (simp add: pending_scan_full tick_entry_full [abs_def])

theorem tick_is_full_scan_witness: "fst (on_mark_price 85 engine0) = [(0, place0_intent)]"
proof -
  have "full_scan 85 engine0 = [(0, place0_intent)]"
    by (simp add: full_scan_def engine0_entries List.map_filter_simps try_fire_cases place0_intent_def)
      (simp add: place0_def)
  moreover have "\<not> retryable engine0 0" by (simp add: retryable_def engine0_entry)
  ultimately show ?thesis
    using tick_is_full_scan [OF engine0_reachable prod.collapse [symmetric], of 85] by simp
qed

text \<open>The intents an entry may emit on behalf of its owner.\<close>

fun intent_for :: "account_id \<Rightarrow> order_intent \<Rightarrow> bool" where
  "intent_for own (IntentPlace ord) \<longleftrightarrow> no_account ord = own \<and> 0 < no_quantity ord"
| "intent_for own (IntentCancel _) \<longleftrightarrow> True"
| "intent_for own (IntentAtomic legs) \<longleftrightarrow> (\<forall>leg\<in>set legs. intent_for own leg)"

lemma into_intent_for: "template_ok own pl \<Longrightarrow> 0 < q \<Longrightarrow> intent_for own (into_intent pl oid client q)"
  by (simp add: into_intent_def template_ok_def)

lemma oco_atomic_for: "leg_ok own leg \<Longrightarrow> intent_for own (oco_atomic leg)"
  by (auto simp: oco_atomic_def leg_ok_def template_ok_def intro!: into_intent_for split: option.splits)

lemma twap_slice_ok:
  assumes "twap_ok st"
  shows "\<exists>q. twap_slice_qty (tw_parent st) (tw_total_slices st) (tw_emitted st) = Ok q \<and> 0 < q"
proof -
  have "0 < tw_total_slices st" "int (tw_total_slices st) \<le> tw_parent st"
    using assms by (auto simp: twap_ok_def)
  moreover from this have "1 \<le> tw_parent st div int (tw_total_slices st)"
    using zdiv_mono1 [of "int (tw_total_slices st)" "tw_parent st" "int (tw_total_slices st)"] by simp
  ultimately show ?thesis by (simp add: twap_slice_qty_eq)
qed

lemma fire_kind_for:
  assumes "kind_ok own k" and "fst (fire_kind px k) = Some intent"
  shows "intent_for own intent"
proof (cases k)
  case (Twap st)
  then show ?thesis
    using assms twap_slice_ok [of st]
    by (auto intro: into_intent_for split: sum.splits)
qed (use assms in \<open>auto simp: Let_def template_ok_def intro!: into_intent_for oco_atomic_for split: if_splits\<close>)

lemma pending_scan_mem:
  "(cid, intent) \<in> set (pending_scan px g) \<longleftrightarrow>
     (\<exists>e. omap_get (cg_entries g) cid = Some e \<and> tick_fire px e = Some intent)"
proof -
  have "(cid, intent) \<in> set (pending_scan px g) \<longleftrightarrow>
      (\<exists>(cid', e) \<in> set (entries (cg_entries g)). map_option (Pair cid') (tick_fire px e) = Some (cid, intent))"
    by (simp add: pending_scan_def in_map_filter split_def)
  then show ?thesis by (auto simp: om.in_iter_iff Bex_def)
qed

text \<open>C30 (safety). Every order a tick emits belongs to the account that registered the conditional
  and has a positive quantity, in every leg of a batch.\<close>

theorem tick_intents_owned:
  assumes "cond_reachable cap g" and "(cid, intent) \<in> set (fst (on_mark_price px g))"
  shows "\<exists>own. cond_owner g cid = Some own \<and> intent_for own intent"
proof -
  have inv: "cond_inv g" using assms(1) by (rule cond_reachable_inv)
  obtain e where e: "omap_get (cg_entries g) cid = Some e" "tick_fire px e = Some intent"
    using assms(2) by (auto simp: tick_output [OF inv] pending_scan_mem)
  then have "kind_ok (ce_owner e) (ce_kind e)" "fst (fire_kind px (ce_kind e)) = Some intent"
    using cond_invD(1) [OF inv e(1)]
    by (auto simp: entry_ok_def tick_fire_def try_fire_cases split: if_splits)
  with e(1) show ?thesis by (auto simp: cond_owner_def dest: fire_kind_for)
qed

theorem tick_intents_owned_witness:
  "(0, place0_intent) \<in> set (fst (on_mark_price 85 engine0))
   \<and> (\<exists>own. cond_owner engine0 0 = Some own \<and> intent_for own place0_intent)"
proof -
  have "(0, place0_intent) \<in> set (fst (on_mark_price 85 engine0))"
    using tick_output [OF cond_reachable_inv [OF engine0_reachable], of 85] by (simp add: engine0_scan)
  with tick_intents_owned [OF engine0_reachable this] show ?thesis by blast
qed

section \<open>A fired conditional waits for its acknowledgement\<close>

definition in_flight :: "cond_id \<Rightarrow> order_intent \<Rightarrow> cond_engine \<Rightarrow> bool" where
  "in_flight cid intent g \<longleftrightarrow> (\<exists>e. omap_get (cg_entries g) cid = Some e
     \<and> ce_status e \<noteq> StPending \<and> ce_pending_batch e = Some intent)"

text \<open>The operations on other conditionals leave an entry alone.\<close>

lemma cond_insert_other:
  assumes "cond_inv g" and "omap_get (cg_entries g) cid = Some e"
  shows "omap_get (cg_entries (snd (cond_insert k own g))) cid = Some e"
  using assms cond_invD(2) [OF assms(1), of cid] by (auto simp: cond_insert_cases)

lemma cond_ack_other:
  "cid' \<noteq> cid \<Longrightarrow> omap_get (cg_entries (snd (cond_ack cid' own outcome g))) cid = omap_get (cg_entries g) cid"
  by (auto simp: cond_ack_def ack_executed_def Let_def simp del: unindex.simps
      split: option.splits execution_ack.splits entry_kind.splits)

lemma cond_retry_other:
  "cid' \<noteq> cid \<Longrightarrow> omap_get (cg_entries (snd (cond_retry cid' own g))) cid = omap_get (cg_entries g) cid"
  by (auto simp: cond_retry_def split: option.splits)

lemma tick_in_flight:
  assumes inv: "cond_inv g" and fl: "in_flight cid intent g"
  shows "omap_get (cg_entries (snd (on_mark_price px g))) cid = omap_get (cg_entries g) cid"
    and "cid \<notin> fst ` set (fst (on_mark_price px g))"
proof -
  obtain e where e: "omap_get (cg_entries g) cid = Some e" "ce_status e \<noteq> StPending"
    using fl by (auto simp: in_flight_def)
  then have "tick_entry px e = e" "tick_fire px e = None"
    using tick_idle by blast+
  with e show "omap_get (cg_entries (snd (on_mark_price px g))) cid = omap_get (cg_entries g) cid"
    and "cid \<notin> fst ` set (fst (on_mark_price px g))"
    by (auto simp: tick_entries [OF inv] tick_output [OF inv] pending_scan_mem)
qed

text \<open>How often an output names a conditional, and how often commands acknowledge it as retryable.\<close>

definition emissions :: "cond_id \<Rightarrow> (cond_id \<times> order_intent) list \<Rightarrow> order_intent list" where
  "emissions cid out = map snd (filter (\<lambda>(c, _). c = cid) out)"

fun retry_ack :: "cond_id \<Rightarrow> cond_command \<Rightarrow> bool" where
  "retry_ack cid (Ack cid' own AckRetryable) \<longleftrightarrow> cid' = cid"
| "retry_ack cid _ \<longleftrightarrow> False"

text \<open>One command: at most one emission, of the stored batch, paid for by a retryable acknowledgement.\<close>

definition rearmed :: "cond_id \<Rightarrow> cond_engine \<Rightarrow> nat" where
  "rearmed cid g = of_bool (retryable g cid)"

definition stays_in_flight ::
    "cond_id \<Rightarrow> order_intent \<Rightarrow> nat \<Rightarrow> (cond_id \<times> order_intent) list \<Rightarrow> cond_engine \<Rightarrow> bool" where
  "stays_in_flight cid intent budget out g' \<longleftrightarrow>
     in_flight cid intent g' \<and> set (emissions cid out) \<subseteq> {intent} \<and>
     length (emissions cid out) + rearmed cid g' \<le> budget"

lemma emissions_simps [simp]:
  "emissions cid [] = []" "emissions cid [(cid, x)] = [x]" "cid' \<noteq> cid \<Longrightarrow> emissions cid [(cid', x)] = []"
  "emissions cid (xs @ ys) = emissions cid xs @ emissions cid ys"
  by (simp_all add: emissions_def)

lemma emissions_none: "cid \<notin> fst ` set out \<Longrightarrow> emissions cid out = []"
  by (force simp: emissions_def filter_empty_conv)

lemma stays_same:
  assumes "in_flight cid intent g" and "omap_get (cg_entries g') cid = omap_get (cg_entries g) cid"
    and "emissions cid out = []"
  shows "stays_in_flight cid intent (rearmed cid g + n) out g'"
  using assms by (simp add: stays_in_flight_def in_flight_def rearmed_def retryable_def)

lemma ack_in_flight:
  assumes "in_flight cid intent g"
  shows "stays_in_flight cid intent (rearmed cid g + 1) [] (snd (cond_ack cid own AckRetryable g))"
  using assms
  by (auto simp: stays_in_flight_def in_flight_def rearmed_def retryable_def cond_ack_def)

lemma retry_in_flight:
  assumes "in_flight cid intent g"
  shows "stays_in_flight cid intent (rearmed cid g + n) (fst (cond_apply (Retry cid own) g)) (snd (cond_retry cid own g))"
proof -
  obtain e where e: "omap_get (cg_entries g) cid = Some e" "ce_status e \<noteq> StPending" "ce_pending_batch e = Some intent"
    using assms by (auto simp: in_flight_def)
  show ?thesis
  proof (cases "ce_owner e = own \<and> ce_status e = StRetryable")
    case True
    then show ?thesis
      using e by (simp add: stays_in_flight_def in_flight_def rearmed_def retryable_def cond_retry_def cond_apply.simps(6))
  next
    case False
    then have "snd (cond_retry cid own g) = g" "fst (cond_apply (Retry cid own) g) = []"
      using e by (auto simp: cond_retry_def cond_apply.simps(6))
    then show ?thesis using stays_same [OF assms refl] by simp
  qed
qed

lemma cond_apply_in_flight:
  assumes inv: "cond_inv g" and fl: "in_flight cid intent g"
    and ack: "\<And>own outcome. c = Ack cid own outcome \<Longrightarrow> outcome = AckRetryable"
  shows "stays_in_flight cid intent (rearmed cid g + of_bool (retry_ack cid c)) (fst (cond_apply c g)) (snd (cond_apply c g))
    \<and> ((\<forall>own. c \<noteq> Retry cid own) \<longrightarrow> emissions cid (fst (cond_apply c g)) = [])"
proof -
  have insert: "omap_get (cg_entries (snd (cond_insert k own g))) cid = omap_get (cg_entries g) cid" for k own
    using fl cond_insert_other [OF inv] by (auto simp: in_flight_def)
  show ?thesis
  proof (cases c)
    case (Ack cid' own outcome)
    then show ?thesis
      using stays_same [OF fl cond_ack_other] ack_in_flight [OF fl] ack by (cases "cid' = cid") auto
  next
    case (Retry cid' own)
    have "emissions cid (fst (cond_apply c g)) = []" if "cid' \<noteq> cid"
      using that Retry by (auto simp: cond_apply.simps(6) split: prod.splits sum.splits)
    then show ?thesis
      using Retry stays_same [OF fl cond_retry_other, where n = 0] retry_in_flight [OF fl, of 0]
      by (cases "cid' = cid") auto
  next
    case (Tick px)
    then show ?thesis
      using stays_same [OF fl tick_in_flight(1) [OF inv fl], where n = 0] emissions_none [OF tick_in_flight(2) [OF inv fl]] by simp
  qed (use insert in \<open>auto intro!: stays_same [OF fl, where n = 0, simplified] simp: add_stop_def add_trailing_def add_oco_def add_twap_def
      split: sum.splits\<close>)
qed

lemma cond_run_inv: "cond_inv g \<Longrightarrow> list_all cond_typed cs \<Longrightarrow> cond_inv (snd (cond_run cs g))"
  by (induction cs arbitrary: g) (auto intro: cond_apply_inv)

lemma cond_run_in_flight:
  assumes "cond_inv g" and "in_flight cid intent g" and "list_all cond_typed cs"
    and "\<And>own outcome. Ack cid own outcome \<in> set cs \<Longrightarrow> outcome = AckRetryable"
  shows "stays_in_flight cid intent (rearmed cid g + length (filter (retry_ack cid) cs))
      (fst (cond_run cs g)) (snd (cond_run cs g))
    \<and> ((\<forall>own. Retry cid own \<notin> set cs) \<longrightarrow> emissions cid (fst (cond_run cs g)) = [])"
  using assms
proof (induction cs arbitrary: g)
  case Nil
  then show ?case by (simp add: stays_in_flight_def)
next
  case (Cons c cs)
  let ?g = "snd (cond_apply c g)"
  have step: "stays_in_flight cid intent (rearmed cid g + of_bool (retry_ack cid c)) (fst (cond_apply c g)) ?g
      \<and> ((\<forall>own. c \<noteq> Retry cid own) \<longrightarrow> emissions cid (fst (cond_apply c g)) = [])"
    using Cons.prems by (intro cond_apply_in_flight) auto
  moreover have "cond_inv ?g"
    using Cons.prems by (intro cond_apply_inv) auto
  ultimately have "stays_in_flight cid intent (rearmed cid ?g + length (filter (retry_ack cid) cs))
        (fst (cond_run cs ?g)) (snd (cond_run cs ?g))
      \<and> ((\<forall>own. Retry cid own \<notin> set cs) \<longrightarrow> emissions cid (fst (cond_run cs ?g)) = [])"
    using Cons.prems by (intro Cons.IH) (auto simp: stays_in_flight_def)
  with step show ?case by (auto simp: stays_in_flight_def)
qed

lemma tick_emits_in_flight:
  assumes inv: "cond_inv g" and out: "(cid, intent) \<in> set (fst (on_mark_price px g))"
  shows "in_flight cid intent (snd (on_mark_price px g))" and "\<not> retryable (snd (on_mark_price px g)) cid"
proof -
  obtain e where e: "omap_get (cg_entries g) cid = Some e" "tick_fire px e = Some intent"
    using out by (auto simp: tick_output [OF inv] pending_scan_mem)
  then have "ce_status (tick_entry px e) = StPendingExecution" "ce_pending_batch (tick_entry px e) = Some intent"
    by (auto simp: tick_fire_def tick_entry_def try_fire_cases split: if_splits)
  with e show "in_flight cid intent (snd (on_mark_price px g))" "\<not> retryable (snd (on_mark_price px g)) cid"
    by (auto simp: in_flight_def retryable_def tick_entries [OF inv])
qed

text \<open>C31 (safety). Once a tick has emitted a conditional, and until it is acknowledged as executed or
  rejected, no tick emits it again after whatever operations: only a retry does, every such emission is the
  batch of the first one, and there is at most one for each acknowledgement as retryable. The batch stays
  stored until then.\<close>

theorem fires_once_until_acked:
  assumes "cond_reachable cap g" and "(cid, intent) \<in> set (fst (on_mark_price px g))"
    and "list_all cond_typed cs"
    and "\<forall>own outcome. Ack cid own outcome \<in> set cs \<longrightarrow> outcome = AckRetryable"
    and "cond_run cs (snd (on_mark_price px g)) = (out, g')"
  shows "(\<forall>px'. emissions cid (fst (on_mark_price px' g')) = [])
    \<and> ((\<forall>own. Retry cid own \<notin> set cs) \<longrightarrow> emissions cid out = [])
    \<and> set (emissions cid out) \<subseteq> {intent}
    \<and> length (emissions cid out) \<le> length (filter (retry_ack cid) cs)
    \<and> cond_pending_batch g' cid = Some intent"
proof -
  let ?g = "snd (on_mark_price px g)"
  have inv: "cond_inv g" using assms(1) by (rule cond_reachable_inv)
  have "stays_in_flight cid intent (rearmed cid ?g + length (filter (retry_ack cid) cs))
      (fst (cond_run cs ?g)) (snd (cond_run cs ?g))
    \<and> ((\<forall>own. Retry cid own \<notin> set cs) \<longrightarrow> emissions cid (fst (cond_run cs ?g)) = [])"
    using assms(3,4)
    by (intro cond_run_in_flight tick_inv [OF inv] tick_emits_in_flight(1) [OF inv assms(2)]) auto
  moreover have "cond_inv (snd (cond_run cs ?g))"
    using assms(3) by (intro cond_run_inv tick_inv [OF inv])
  moreover have "rearmed cid ?g = 0"
    using tick_emits_in_flight(2) [OF inv assms(2)] by (simp add: rearmed_def)
  ultimately show ?thesis
    using assms(5) emissions_none [OF tick_in_flight(2)]
    by (auto simp: stays_in_flight_def cond_pending_batch_def) (auto simp: in_flight_def)
qed

theorem fires_once_until_acked_witness:
  "\<exists>out g'. cond_run [Tick 80, Ack 0 3 AckRetryable, Tick 70, Retry 0 3, Tick 60] (snd (on_mark_price 85 engine0)) = (out, g')
   \<and> length (emissions 0 out) \<le> 1 \<and> set (emissions 0 out) \<subseteq> {place0_intent}
   \<and> cond_pending_batch g' 0 = Some place0_intent"
proof -
  let ?cs = "[Tick 80, Ack 0 3 AckRetryable, Tick 70, Retry 0 3, Tick 60]"
  obtain out g' where run: "cond_run ?cs (snd (on_mark_price 85 engine0)) = (out, g')" by fastforce
  have "(0, place0_intent) \<in> set (fst (on_mark_price 85 engine0))"
    using tick_output [OF cond_reachable_inv [OF engine0_reachable], of 85] by (simp add: engine0_scan)
  from fires_once_until_acked [OF engine0_reachable this _ _ run] run show ?thesis by auto
qed

text \<open>The evaluation of the code would fire a retryable entry, but no tick offers it one.\<close>

lemma retryable_not_offered:
  assumes "cond_reachable cap g" and "retryable g cid"
  shows "cid \<notin> fst ` set (fst (on_mark_price px g))"
  using assms tick_output [OF cond_reachable_inv [OF assms(1)], of px] by (auto simp: pending_scan_full)

lemma retryable_would_fire:
  "\<exists>g. cond_reachable 4 g \<and> retryable g 0 \<and> (0, place0_intent) \<in> set (full_scan 80 g) \<and> fst (on_mark_price 80 g) = []"
proof -
  let ?g = "snd (cond_apply (Ack 0 3 AckRetryable) (snd (cond_apply (Tick 85) engine0)))"
  have reach: "cond_reachable 4 ?g"
    by (intro cond_step engine0_reachable) simp_all
  have entry: "omap_get (cg_entries ?g) i = (if i = 0 then
      Some \<lparr>ce_owner = 3, ce_status = StRetryable, ce_kind = Simple (Below 90) place0, ce_pending_batch = Some place0_intent\<rparr>
      else None)" for i
  proof -
    have "omap_get (cg_entries engine0) i = (if i = 0 then
        Some \<lparr>ce_owner = 3, ce_status = StPending, ce_kind = Simple (Below 90) place0, ce_pending_batch = None\<rparr>
        else None)" for i
      by (simp add: omap_get_def engine0_entries)
    moreover have "into_intent place0 (pt_order_id place0) (pt_client_id place0) (pt_quantity place0) = place0_intent"
      by (simp add: place0_intent_def place0_def)
    ultimately show ?thesis
      by (simp add: cond_ack_def tick_entries [OF cond_reachable_inv [OF engine0_reachable]] tick_entry_def
          try_fire_cases)
  qed
  then have "retryable ?g 0" by (simp add: retryable_def)
  moreover have "(0, place0_intent) \<in> set (full_scan 80 ?g)"
    using entry [of 0] om.in_iter_iff [of 0 _ "cg_entries ?g"]
    by (force simp: full_scan_def in_map_filter try_fire_cases place0_intent_def place0_def)
  moreover have "x \<notin> set (fst (on_mark_price 80 ?g))" for x
    unfolding tick_output [OF cond_reachable_inv [OF reach]]
    by (cases x) (simp only: pending_scan_mem entry, simp add: tick_fire_def)
  then have "fst (on_mark_price 80 ?g) = []"
    by (metis ex_in_conv set_empty)
  ultimately show ?thesis using reach by blast
qed

section \<open>Errors\<close>

lemma cond_insert_Err: "fst (cond_insert k own g) = Err e \<Longrightarrow> snd (cond_insert k own g) = g"
  by (auto simp: cond_insert_cases split: if_splits)

text \<open>C32 (error). A registration, acknowledgement or retry that reports an error leaves the engine
  as it was; and an account that does not own a conditional can neither acknowledge nor retry it.\<close>

theorem cond_errors_unchanged:
  "(fst (add_stop pl trig g) = Err e \<longrightarrow> snd (add_stop pl trig g) = g)
   \<and> (fst (add_trailing pl d offset reference g) = Err e \<longrightarrow> snd (add_trailing pl d offset reference g) = g)
   \<and> (fst (add_oco leg_a leg_b g) = Err e \<longrightarrow> snd (add_oco leg_a leg_b g) = g)
   \<and> (fst (add_twap pl slices g) = Err e \<longrightarrow> snd (add_twap pl slices g) = g)
   \<and> (fst (cond_ack cid own outcome g) = Err e \<longrightarrow> snd (cond_ack cid own outcome g) = g)
   \<and> (fst (cond_retry cid own g) = Err e \<longrightarrow> snd (cond_retry cid own g) = g)
   \<and> (cond_owner g cid \<noteq> None \<and> cond_owner g cid \<noteq> Some own \<longrightarrow>
        cond_ack cid own outcome g = (Err CondOwnerMismatch, g)
        \<and> cond_retry cid own g = (Err CondOwnerMismatch, g))"
proof (intro conjI)
  show "fst (add_stop pl trig g) = Err e \<longrightarrow> snd (add_stop pl trig g) = g"
    by (simp add: add_stop_def cond_insert_Err)
  show "fst (add_trailing pl d offset reference g) = Err e \<longrightarrow> snd (add_trailing pl d offset reference g) = g"
    by (simp add: add_trailing_def cond_insert_Err)
  show "fst (add_oco leg_a leg_b g) = Err e \<longrightarrow> snd (add_oco leg_a leg_b g) = g"
    by (simp add: add_oco_def cond_insert_Err split: sum.splits)
  show "fst (add_twap pl slices g) = Err e \<longrightarrow> snd (add_twap pl slices g) = g"
    by (simp add: add_twap_def cond_insert_Err split: sum.splits)
  show "fst (cond_ack cid own outcome g) = Err e \<longrightarrow> snd (cond_ack cid own outcome g) = g"
    by (simp add: cond_ack_def split: option.splits)
  show "fst (cond_retry cid own g) = Err e \<longrightarrow> snd (cond_retry cid own g) = g"
    by (simp add: cond_retry_def split: option.splits)
  show "cond_owner g cid \<noteq> None \<and> cond_owner g cid \<noteq> Some own \<longrightarrow>
        cond_ack cid own outcome g = (Err CondOwnerMismatch, g)
        \<and> cond_retry cid own g = (Err CondOwnerMismatch, g)"
    by (auto simp: cond_owner_def cond_ack_def cond_retry_def)
qed

theorem cond_errors_unchanged_witness:
  "snd (add_stop (place0\<lparr>pt_quantity := 0\<rparr>) (Above 1) engine0) = engine0
   \<and> cond_ack 0 4 AckExecuted engine0 = (Err CondOwnerMismatch, engine0)"
proof
  have "fst (add_stop (place0\<lparr>pt_quantity := 0\<rparr>) (Above 1) engine0) = Err CondNonPositiveQuantity"
    by (simp add: add_stop_def)
  then show "snd (add_stop (place0\<lparr>pt_quantity := 0\<rparr>) (Above 1) engine0) = engine0"
    using cond_errors_unchanged [of "place0\<lparr>pt_quantity := 0\<rparr>" "Above 1" engine0] by blast
  have "cond_owner engine0 0 \<noteq> None \<and> cond_owner engine0 0 \<noteq> Some 4"
    by (simp add: cond_owner_def engine0_entry)
  then show "cond_ack 0 4 AckExecuted engine0 = (Err CondOwnerMismatch, engine0)"
    using cond_errors_unchanged by blast
qed

end
