(* ===== verification/ConditionalOrders.thy ===== *)
theory ConditionalOrders
  imports ConditionalClaims
begin

text \<open>
  What the order kinds of the conditional engine mean to their owner: a TWAP order is worked off
  completely and exactly, and a trailing stop follows the best price it has seen.
\<close>

section \<open>TWAP quantities\<close>

definition twap_slice :: "int \<Rightarrow> nat \<Rightarrow> nat \<Rightarrow> int" where
  "twap_slice parent n k = parent div int n + (if int k < parent mod int n then 1 else 0)"

lemma twap_slice_sum: "0 < n \<Longrightarrow> sum_list (map (twap_slice parent n) [0..<m]) = twap_sum parent n m"
  by (induction m) (simp_all add: twap_sum_0 twap_sum_Suc twap_slice_def)

lemma twap_slice_positive: "0 < n \<Longrightarrow> int n \<le> parent \<Longrightarrow> 0 < twap_slice parent n k"
  using zdiv_mono1 [of "int n" parent "int n"] by (simp add: twap_slice_def)

lemma twap_slice_qty_slice:
  "0 < n \<Longrightarrow> int n \<le> parent \<Longrightarrow> twap_slice_qty parent n k = Ok (twap_slice parent n k)"
  by (simp add: twap_slice_qty_eq twap_slice_def)

text \<open>C33 (bounds). A parent quantity passes the TWAP check exactly when it has at least one base
  unit per slice, and then the slices are all computed, all positive, differ by at most one unit
  with the larger ones first, and sum to the parent; the check itself never overflows.\<close>

theorem twap_split_exact:
  assumes "0 < n" and "fits I64 parent"
  shows "validate_twap parent n = (if int n \<le> parent then Ok () else Err CondNonPositiveQuantity)
    \<and> (int n \<le> parent \<longrightarrow>
        (\<exists>qs. map (twap_slice_qty parent n) [0..<n] = map Ok qs
          \<and> sum_list qs = parent \<and> (\<forall>q\<in>set qs. 0 < q)
          \<and> sorted_wrt (\<ge>) qs \<and> (\<forall>q\<in>set qs. \<forall>r\<in>set qs. q \<le> r + 1)))"
proof (intro conjI impI)
  show "validate_twap parent n = (if int n \<le> parent then Ok () else Err CondNonPositiveQuantity)"
    using assms by (rule validate_twap_iff)
next
  assume le: "int n \<le> parent"
  let ?qs = "map (twap_slice parent n) [0..<n]"
  have "map (twap_slice_qty parent n) [0..<n] = map Ok ?qs"
    by (simp add: twap_slice_qty_slice [OF assms(1) le])
  moreover have "sum_list ?qs = parent"
    using assms(1) by (simp add: twap_slice_sum twap_sum_all)
  moreover have "\<forall>q\<in>set ?qs. 0 < q"
    using twap_slice_positive [OF assms(1) le] by simp
  moreover have "sorted_wrt (\<ge>) ?qs"
    by (auto simp: sorted_wrt_iff_nth_less twap_slice_def)
  moreover have "\<forall>q\<in>set ?qs. \<forall>r\<in>set ?qs. q \<le> r + 1"
    by (auto simp: twap_slice_def)
  ultimately show "\<exists>qs. map (twap_slice_qty parent n) [0..<n] = map Ok qs
      \<and> sum_list qs = parent \<and> (\<forall>q\<in>set qs. 0 < q)
      \<and> sorted_wrt (\<ge>) qs \<and> (\<forall>q\<in>set qs. \<forall>r\<in>set qs. q \<le> r + 1)"
    by blast
qed

theorem twap_split_exact_witness:
  "validate_twap 10 4 = Ok () \<and> map (twap_slice_qty 10 4) [0..<4] = map Ok [3, 3, 2, 2]"
proof
  have "fits I64 10" by (simp add: fits_def)
  then show "validate_twap 10 4 = Ok ()"
    using twap_split_exact [of 4 10] by simp
  show "map (twap_slice_qty 10 4) [0..<4] = map Ok [3, 3, 2, 2]"
    by (simp add: twap_slice_qty_slice twap_slice_def upt_rec)
qed

section \<open>Working off a TWAP order\<close>

text \<open>One round per price: a tick, and the acknowledgement that its slice was executed.\<close>

fun twap_rounds :: "cond_id \<Rightarrow> account_id \<Rightarrow> price list \<Rightarrow> cond_engine \<Rightarrow> order_intent list \<times> cond_engine" where
  "twap_rounds cid own [] g = ([], g)"
| "twap_rounds cid own (px # pxs) g =
     (let (out, g1) = on_mark_price px g;
          (later, g2) = twap_rounds cid own pxs (snd (cond_ack cid own AckExecuted g1))
      in (map snd (filter (\<lambda>(i, _). i = cid) out) @ later, g2))"

definition twap_child :: "twap_state \<Rightarrow> nat \<Rightarrow> order_intent" where
  "twap_child st k = into_intent (tw_place st) (pt_order_id (tw_place st) + k)
     (pt_client_id (tw_place st) + k) (twap_slice (tw_parent st) (tw_total_slices st) k)"

definition twap_waiting :: "cond_id \<Rightarrow> account_id \<Rightarrow> twap_state \<Rightarrow> cond_engine \<Rightarrow> bool" where
  "twap_waiting cid own st g \<longleftrightarrow> (\<exists>e. omap_get (cg_entries g) cid = Some e \<and> ce_owner e = own
     \<and> ce_status e = StPending \<and> ce_kind e = Twap st)"

lemma scan_of_one:
  "distinct (map fst es) \<Longrightarrow>
   map snd (filter (\<lambda>(i, _). i = cid) (List.map_filter (\<lambda>(cid, e). map_option (Pair cid) (f e)) es)) =
     (case map_of es cid of None \<Rightarrow> [] | Some e \<Rightarrow> (case f e of None \<Rightarrow> [] | Some x \<Rightarrow> [x]))"
proof (induction es)
  case Nil
  then show ?case by (simp add: List.map_filter_simps)
next
  case (Cons a es)
  obtain i e where a: "a = (i, e)" by fastforce
  then have "i = cid \<Longrightarrow> map_of es cid = None"
    using Cons.prems by (simp add: map_of_eq_None_iff)
  with Cons a show ?case by (auto simp: List.map_filter_simps split: option.splits)
qed

lemma pending_scan_one:
  "map snd (filter (\<lambda>(i, _). i = cid) (pending_scan px g)) =
     (case omap_get (cg_entries g) cid of
        None \<Rightarrow> [] | Some e \<Rightarrow> (case tick_fire px e of None \<Rightarrow> [] | Some x \<Rightarrow> [x]))"
  unfolding pending_scan_def omap_get_def
  by (rule scan_of_one) (rule ascending_distinct [OF entries_ascending])

lemma twap_fires:
  assumes "twap_ok st"
  shows "fire_kind px (Twap st) = (Some (twap_child st (tw_emitted st)), Twap st)"
proof -
  have "0 < tw_total_slices st" "int (tw_total_slices st) \<le> tw_parent st"
    "pt_order_id (tw_place st) + tw_emitted st \<le> u64_max"
    "pt_client_id (tw_place st) + tw_emitted st \<le> u64_max"
    using assms by (auto simp: twap_ok_def)
  then show ?thesis
    by (simp add: twap_slice_qty_slice checked_child_id_def twap_child_def)
qed

lemma twap_round:
  assumes inv: "cond_inv g" and w: "twap_waiting cid own st g"
  shows "map snd (filter (\<lambda>(i, _). i = cid) (fst (on_mark_price px g))) = [twap_child st (tw_emitted st)]"
    and "if Suc (tw_emitted st) < tw_total_slices st
      then twap_waiting cid own (st\<lparr>tw_emitted := Suc (tw_emitted st)\<rparr>)
        (snd (cond_ack cid own AckExecuted (snd (on_mark_price px g))))
      else omap_get (cg_entries (snd (cond_ack cid own AckExecuted (snd (on_mark_price px g))))) cid = None"
proof -
  obtain e where e: "omap_get (cg_entries g) cid = Some e" "ce_owner e = own"
    "ce_status e = StPending" "ce_kind e = Twap st"
    using w by (auto simp: twap_waiting_def)
  have "twap_ok st" using cond_invD(1) [OF inv e(1)] e by (simp add: entry_ok_def)
  note fire = twap_fires [OF this]
  show "map snd (filter (\<lambda>(i, _). i = cid) (fst (on_mark_price px g))) = [twap_child st (tw_emitted st)]"
    using e fire by (simp add: tick_output [OF inv] pending_scan_one tick_fire_def try_fire_cases)
  let ?e = "tick_entry px e"
  have te: "ce_kind ?e = Twap st" "ce_owner ?e = own" "ce_status ?e = StPendingExecution" "entry_ok ?e"
    using e fire tick_entry_ok [OF cond_invD(1) [OF inv e(1)]]
    by (simp_all add: tick_entry_def try_fire_cases)
  have "omap_get (cg_entries (snd (on_mark_price px g))) cid = Some ?e"
    using e(1) by (simp add: tick_entries [OF inv])
  with te show "if Suc (tw_emitted st) < tw_total_slices st
      then twap_waiting cid own (st\<lparr>tw_emitted := Suc (tw_emitted st)\<rparr>)
        (snd (cond_ack cid own AckExecuted (snd (on_mark_price px g))))
      else omap_get (cg_entries (snd (cond_ack cid own AckExecuted (snd (on_mark_price px g))))) cid = None"
    by (simp add: cond_ack_def ack_executed_eq twap_waiting_def twap_next_def)
qed

lemma twap_child_emitted [simp]: "twap_child (st\<lparr>tw_emitted := j\<rparr>) = twap_child st"
  by (simp add: twap_child_def fun_eq_iff)

lemma twap_rounds_complete:
  assumes "cond_inv g" and "twap_waiting cid own st g"
    and "length pxs = tw_total_slices st - tw_emitted st" and "tw_emitted st < tw_total_slices st"
  shows "fst (twap_rounds cid own pxs g) = map (twap_child st) [tw_emitted st..<tw_total_slices st]
    \<and> omap_get (cg_entries (snd (twap_rounds cid own pxs g))) cid = None"
  using assms
proof (induction pxs arbitrary: g st)
  case Nil
  then show ?case by simp
next
  case (Cons px pxs)
  let ?g = "snd (cond_ack cid own AckExecuted (snd (on_mark_price px g)))"
  let ?st = "st\<lparr>tw_emitted := Suc (tw_emitted st)\<rparr>"
  have inv: "cond_inv ?g"
    by (intro cond_ack_inv tick_inv Cons.prems(1))
  have out: "fst (twap_rounds cid own (px # pxs) g) = twap_child st (tw_emitted st) # fst (twap_rounds cid own pxs ?g)"
    "snd (twap_rounds cid own (px # pxs) g) = snd (twap_rounds cid own pxs ?g)"
    using twap_round(1) [OF Cons.prems(1,2), of px] by (simp_all add: Let_def split_def)
  show ?case
  proof (cases "Suc (tw_emitted st) < tw_total_slices st")
    case True
    then have "twap_waiting cid own ?st ?g"
      using twap_round(2) [OF Cons.prems(1,2), of px] by simp
    then show ?thesis
      using Cons.IH [OF inv, of ?st] Cons.prems(3,4) True out
      by (simp add: upt_rec [of "tw_emitted st"])
  next
    case False
    then have total: "tw_total_slices st = Suc (tw_emitted st)" using Cons.prems(4) by simp
    then have "pxs = []" using Cons.prems(3) by simp
    moreover have "omap_get (cg_entries ?g) cid = None"
      using twap_round(2) [OF Cons.prems(1,2), of px] False by simp
    ultimately show ?thesis using out total by simp
  qed
qed

lemma add_twap_waiting:
  assumes "fits I64 (pt_quantity pl)" and "add_twap pl n g = (Ok cid, g1)"
  shows "twap_waiting cid (pt_account pl)
      \<lparr>tw_place = pl, tw_total_slices = n, tw_emitted = 0, tw_parent = pt_quantity pl\<rparr> g1"
    and "0 < n" and "int n \<le> pt_quantity pl"
proof -
  have "n \<noteq> 0" and "0 < pt_quantity pl"
    using assms(2) by (auto simp: add_twap_def split: if_splits)
  with assms show "twap_waiting cid (pt_account pl)
      \<lparr>tw_place = pl, tw_total_slices = n, tw_emitted = 0, tw_parent = pt_quantity pl\<rparr> g1"
    and "0 < n" and "int n \<le> pt_quantity pl"
    by (auto simp: add_twap_eq cond_insert_cases twap_waiting_def split: if_splits)
qed

text \<open>C34 (liveness). A TWAP order accepted into any reachable engine is worked off: over as many
  rounds of tick and acknowledgement as it has slices, at any prices, it emits one child order per
  round, with consecutive ids and positive quantities that sum to the parent quantity, and then the
  conditional is gone.\<close>

theorem twap_completes:
  assumes "cond_reachable cap g" and "n \<le> u32_max" and "fits I64 (pt_quantity pl)"
    and "add_twap pl n g = (Ok cid, g1)" and "length pxs = n"
  shows "\<exists>qs. length qs = n \<and> (\<forall>q\<in>set qs. 0 < q) \<and> sum_list qs = pt_quantity pl
    \<and> fst (twap_rounds cid (pt_account pl) pxs g1) =
        map (\<lambda>k. into_intent pl (pt_order_id pl + k) (pt_client_id pl + k) (qs ! k)) [0..<n]
    \<and> cond_status (snd (twap_rounds cid (pt_account pl) pxs g1)) cid = None"
proof -
  let ?st = "\<lparr>tw_place = pl, tw_total_slices = n, tw_emitted = 0, tw_parent = pt_quantity pl\<rparr>"
  note add = add_twap_waiting [OF assms(3,4)]
  have "cond_inv g1"
    using add_twap_inv [OF cond_reachable_inv [OF assms(1)] assms(2,3)] assms(4) by simp
  then have run: "fst (twap_rounds cid (pt_account pl) pxs g1) = map (twap_child ?st) [0..<n]
    \<and> omap_get (cg_entries (snd (twap_rounds cid (pt_account pl) pxs g1))) cid = None"
    using twap_rounds_complete [OF _ add(1), of pxs] assms(5) add(2) by simp
  let ?qs = "map (twap_slice (pt_quantity pl) n) [0..<n]"
  have "map (twap_child ?st) [0..<n] =
      map (\<lambda>k. into_intent pl (pt_order_id pl + k) (pt_client_id pl + k) (?qs ! k)) [0..<n]"
    by (simp add: twap_child_def)
  moreover have "sum_list ?qs = pt_quantity pl" "\<forall>q\<in>set ?qs. 0 < q"
    using add(2,3) by (simp_all add: twap_slice_sum twap_sum_all twap_slice_positive)
  ultimately show ?thesis
    using run by (intro exI [of _ ?qs]) (simp add: cond_status_def)
qed

theorem twap_completes_witness:
  "\<exists>qs g1. add_twap place0 3 engine0 = (Ok 1, g1) \<and> length qs = 3 \<and> (\<forall>q\<in>set qs. 0 < q) \<and> sum_list qs = 5
    \<and> fst (twap_rounds 1 3 [100, 95, 101] g1) =
        map (\<lambda>k. into_intent place0 (7 + k) (9 + k) (qs ! k)) [0..<3]
    \<and> cond_status (snd (twap_rounds 1 3 [100, 95, 101] g1)) 1 = None"
proof -
  have fields: "pt_quantity place0 = 5" "pt_account place0 = 3" "pt_order_id place0 = 7" "pt_client_id place0 = 9"
    by (simp_all add: place0_def)
  have eng: "omap_size (cg_entries engine0) = 1" "cg_capacity engine0 = 4" "cg_next_id engine0 = 1"
    by (simp add: omap_size_def engine0_entries)
      (simp_all add: engine0_def add_stop_def place0_def cond_insert_cases cond_new_def u64_max_def)
  have fit: "fits I64 (pt_quantity place0)" by (simp add: fields fits_def)
  have "fst (add_twap place0 3 engine0) = Ok 1"
    using fit by (simp add: add_twap_eq fields cond_insert_cases eng u64_max_def)
  then have add: "add_twap place0 3 engine0 = (Ok 1, snd (add_twap place0 3 engine0))"
    by (metis prod.collapse)
  show ?thesis
    using twap_completes [OF engine0_reachable _ fit add, of "[100, 95, 101]"] add
    by (auto simp: fields u32_max_def)
qed

section \<open>Trailing stops\<close>

definition trail_after :: "trailing \<Rightarrow> price list \<Rightarrow> trailing" where
  "trail_after t pxs = fold (\<lambda>px t. trailing_update t px) pxs t"

definition trail_best :: "trail_direction \<Rightarrow> int \<Rightarrow> price list \<Rightarrow> int" where
  "trail_best d reference pxs =
     (case d of SellStop \<Rightarrow> Max (set (reference # pxs)) | BuyStop \<Rightarrow> Min (set (reference # pxs)))"

definition trail_at :: "trail_direction \<Rightarrow> int \<Rightarrow> int \<Rightarrow> trailing" where
  "trail_at d offset best = recompute \<lparr>tr_direction = d, tr_offset = offset, tr_extremum = best, tr_threshold = 0\<rparr>"

lemma trail_at_update:
  "trailing_update (trail_at d offset best) px =
     trail_at d offset (case d of SellStop \<Rightarrow> max best px | BuyStop \<Rightarrow> min best px)"
  by (simp add: trailing_update_def trail_at_def recompute_def max_def min_def split: trail_direction.splits)

lemma trail_after_eq: "trail_after (trail_at d offset best) pxs = trail_at d offset (trail_best d best pxs)"
proof (induction pxs arbitrary: best)
  case Nil
  then show ?case by (simp add: trail_after_def trail_best_def split: trail_direction.splits)
next
  case (Cons px pxs)
  have "trail_best d best (px # pxs) = trail_best d (case d of SellStop \<Rightarrow> max best px | BuyStop \<Rightarrow> min best px) pxs"
    by (cases pxs) (simp_all add: trail_best_def max.assoc min.assoc split: trail_direction.splits)
  then show ?case
    using Cons.IH by (simp add: trail_after_def trail_at_update)
qed

text \<open>C35 (functional). After any prices, a trailing sell stop fires exactly at or below the highest
  of its reference price and the prices seen, less its offset, and a trailing buy stop at or above
  the lowest plus its offset, the threshold clamped to the range of a price.\<close>

theorem trailing_follows_extremum:
  "(trailing_fires (trail_after (trailing_new SellStop offset reference) pxs) px
     \<longleftrightarrow> px \<le> prim_saturate I64 (Max (set (reference # pxs)) - offset))
   \<and> (trailing_fires (trail_after (trailing_new BuyStop offset reference) pxs) px
     \<longleftrightarrow> prim_saturate I64 (Min (set (reference # pxs)) + offset) \<le> px)"
  unfolding trailing_new_def trail_at_def [symmetric] trail_after_eq
  by (simp_all add: trailing_fires_def trail_at_def recompute_def trail_best_def)

end
