(* ===== verification/ConditionalWire.thy ===== *)
theory ConditionalWire
  imports Conditional
begin

text \<open>
  The wire format of a conditional order. The layout comment above \<open>ENCODED_CONDITIONAL_LEN\<close> is
  written as an encoder, and \<open>decode_conditional\<close> is its exact inverse on every input.
\<close>

fun side_byte :: "side \<Rightarrow> byte" where
  "side_byte Bid = 0"
| "side_byte Ask = 1"

fun order_type_byte :: "order_type \<Rightarrow> byte" where
  "order_type_byte Limit = 0"
| "order_type_byte Market = 1"
| "order_type_byte PostOnly = 2"
| "order_type_byte ReduceOnly = 3"

fun tif_byte :: "time_in_force \<Rightarrow> byte" where
  "tif_byte Gtc = 0"
| "tif_byte Ioc = 1"
| "tif_byte Fok = 2"

fun trigger_byte :: "trigger_kind \<Rightarrow> byte" where
  "trigger_byte (Above _) = 0"
| "trigger_byte (Below _) = 1"

fun trigger_threshold :: "trigger_kind \<Rightarrow> price" where
  "trigger_threshold (Above t) = t"
| "trigger_threshold (Below t) = t"

definition bool_byte :: "bool \<Rightarrow> byte" where
  "bool_byte b = (if b then 1 else 0)"

definition encode_conditional :: "decoded_conditional \<Rightarrow> bytes" where
  "encode_conditional d = (let pl = dc_place d in
     le_bytes 4 (pt_account pl)
     @ [side_byte (pt_side pl), order_type_byte (pt_order_type pl), tif_byte (pt_tif pl), trigger_byte (dc_trigger d)]
     @ le_i64 (pt_price pl) @ le_i64 (pt_quantity pl) @ le_i64 (trigger_threshold (dc_trigger d))
     @ le_bytes 8 (pt_client_id pl) @ [bool_byte (pt_reduce_only pl)])"

definition decoded_ok :: "decoded_conditional \<Rightarrow> bool" where
  "decoded_ok d \<longleftrightarrow> (let pl = dc_place d in
     pt_order_id pl = pt_client_id pl \<and> pt_account pl \<le> u32_max \<and> pt_client_id pl \<le> u64_max
     \<and> fits I64 (pt_price pl) \<and> fits I64 (pt_quantity pl) \<and> 0 < pt_quantity pl
     \<and> fits I64 (trigger_threshold (dc_trigger d)))"

section \<open>Integers\<close>

lemma le_bytes_eq_iff:
  assumes "length w = n" and "x < 256 ^ n"
  shows "w = le_bytes n x \<longleftrightarrow> le_nat w = x"
  using assms le_nat_le_bytes_id le_bytes_le_nat by metis

lemma le_nat_u32: "length w = 4 \<Longrightarrow> le_nat w \<le> u32_max"
  using le_nat_less [of w] by (simp add: u32_max_def)

lemma le_nat_u64: "length w = 8 \<Longrightarrow> le_nat w \<le> u64_max"
  using le_nat_less [of w] by (simp add: u64_max_def)

lemma i64_of_bytes_fits: "length w = 8 \<Longrightarrow> fits I64 (i64_of_bytes w)"
  using le_nat_less [of w] by (simp add: i64_of_bytes_def fits_def Let_def)

lemma le_i64_of_bytes:
  assumes "length w = 8"
  shows "le_i64 (i64_of_bytes w) = w"
proof -
  have "int (le_nat w) < 2 ^ 64"
    using le_nat_less [of w] assms by simp
  then have "i64_of_bytes w mod 2 ^ 64 = int (le_nat w)"
    by (auto simp: i64_of_bytes_def Let_def mod_pos_pos_trivial minus_mod_self2)
  then show ?thesis
    using le_bytes_le_nat [of w] assms by (simp add: le_i64_def)
qed

lemma le_i64_eq_iff: "length w = 8 \<Longrightarrow> fits I64 x \<Longrightarrow> w = le_i64 x \<longleftrightarrow> i64_of_bytes w = x"
  using i64_round_trip le_i64_of_bytes by metis

section \<open>Single bytes\<close>

lemma side_of_byte_iff: "side_of_byte (unat b) = Ok s \<longleftrightarrow> b = side_byte s"
  by (cases s) (auto simp: side_of_byte_def word_unat_eq_iff)

lemma order_type_of_byte_iff: "order_type_of_byte (unat b) = Ok t \<longleftrightarrow> b = order_type_byte t"
  by (cases t) (auto simp: order_type_of_byte_def word_unat_eq_iff)

lemma tif_of_byte_iff: "tif_of_byte (unat b) = Ok t \<longleftrightarrow> b = tif_byte t"
  by (cases t) (auto simp: tif_of_byte_def word_unat_eq_iff)

lemma bool_of_byte_iff: "bool_of_byte (unat b) = Ok r \<longleftrightarrow> b = bool_byte r"
  by (cases r) (auto simp: bool_of_byte_def bool_byte_def word_unat_eq_iff)

lemma trigger_of_byte_iff:
  "trigger_of_byte t (unat b) = Ok trig \<longleftrightarrow> b = trigger_byte trig \<and> trigger_threshold trig = t"
  by (cases trig) (auto simp: trigger_of_byte_def word_unat_eq_iff)

section \<open>The fields of a buffer\<close>

definition field_at :: "bytes \<Rightarrow> nat \<Rightarrow> nat \<Rightarrow> bytes" where
  "field_at bs at n = take n (drop at bs)"

lemma length_field_at: "at + n \<le> length bs \<Longrightarrow> length (field_at bs at n) = n"
  by (simp add: field_at_def)

lemma take_field: "take (i + n) bs = take i bs @ field_at bs i n"
  by (simp add: field_at_def take_add)

lemma take_byte: "i < length bs \<Longrightarrow> take (Suc i) bs = take i bs @ [bs ! i]"
  by (rule take_Suc_conv_app_nth)

lemma buffer_fields:
  assumes "41 \<le> length bs"
  shows "take 41 bs = field_at bs 0 4 @ [bs ! 4, bs ! 5, bs ! 6, bs ! 7]
    @ field_at bs 8 8 @ field_at bs 16 8 @ field_at bs 24 8 @ field_at bs 32 8 @ [bs ! 40]"
proof -
  have "take 8 bs = take 0 bs @ field_at bs 0 4 @ [bs ! 4, bs ! 5, bs ! 6, bs ! 7]"
    using assms take_byte [of 4 bs] take_byte [of 5 bs] take_byte [of 6 bs] take_byte [of 7 bs]
      take_field [of 0 4 bs] by simp
  then show ?thesis
    using assms take_byte [of 40 bs] take_field [of 32 8 bs] take_field [of 24 8 bs]
      take_field [of 16 8 bs] take_field [of 8 8 bs] by simp
qed

lemma read_fields:
  assumes "41 \<le> length bs"
  shows "read_u32 bs 0 = Ok (le_nat (field_at bs 0 4))"
    and "at \<le> 33 \<Longrightarrow> read_i64 bs at = Ok (i64_of_bytes (field_at bs at 8))"
    and "at \<le> 33 \<Longrightarrow> read_u64 bs at = Ok (le_nat (field_at bs at 8))"
  using assms by (simp_all add: read_u32_def read_i64_def read_u64_def slice_get_def field_at_def u64_max_def)

lemma decode_never_panics: "decode_conditional bs \<noteq> None"
proof
  assume "decode_conditional bs = None"
  then show False
    by (simp add: decode_conditional_def try_then_None_iff byte_at_def ENCODED_CONDITIONAL_LEN_def
        split: if_splits)
qed

lemma decode_fields:
  assumes "41 \<le> length bs"
  shows "decode_conditional bs = Some (Ok d) \<longleftrightarrow>
    (let pl = dc_place d in
     pt_order_id pl = pt_client_id pl \<and> le_nat (field_at bs 0 4) = pt_account pl
     \<and> bs ! 4 = side_byte (pt_side pl) \<and> bs ! 5 = order_type_byte (pt_order_type pl)
     \<and> bs ! 6 = tif_byte (pt_tif pl) \<and> bs ! 7 = trigger_byte (dc_trigger d)
     \<and> i64_of_bytes (field_at bs 8 8) = pt_price pl \<and> i64_of_bytes (field_at bs 16 8) = pt_quantity pl
     \<and> 0 < pt_quantity pl \<and> i64_of_bytes (field_at bs 24 8) = trigger_threshold (dc_trigger d)
     \<and> le_nat (field_at bs 32 8) = pt_client_id pl \<and> bs ! 40 = bool_byte (pt_reduce_only pl))"
proof -
  obtain oid acct sd otype tif px q client reduce trig where d:
    "d = \<lparr>dc_place = \<lparr>pt_order_id = oid, pt_account = acct, pt_side = sd, pt_order_type = otype,
        pt_tif = tif, pt_price = px, pt_quantity = q, pt_client_id = client,
        pt_reduce_only = reduce\<rparr>, dc_trigger = trig\<rparr>"
    by (metis decoded_conditional.cases place_template.cases)
  show ?thesis
    using assms
    by (auto simp: d decode_conditional_def ENCODED_CONDITIONAL_LEN_def read_fields byte_at_def
        try_then_Ok_iff side_of_byte_iff order_type_of_byte_iff tif_of_byte_iff bool_of_byte_iff
        trigger_of_byte_iff Let_def)
qed

lemma length_encode_conditional: "length (encode_conditional d) = 41"
  by (simp add: encode_conditional_def Let_def)

lemma encode_fields:
  assumes "41 \<le> length bs" and "decoded_ok d"
  shows "take 41 bs = encode_conditional d \<longleftrightarrow>
    (let pl = dc_place d in
     le_nat (field_at bs 0 4) = pt_account pl
     \<and> bs ! 4 = side_byte (pt_side pl) \<and> bs ! 5 = order_type_byte (pt_order_type pl)
     \<and> bs ! 6 = tif_byte (pt_tif pl) \<and> bs ! 7 = trigger_byte (dc_trigger d)
     \<and> i64_of_bytes (field_at bs 8 8) = pt_price pl \<and> i64_of_bytes (field_at bs 16 8) = pt_quantity pl
     \<and> i64_of_bytes (field_at bs 24 8) = trigger_threshold (dc_trigger d)
     \<and> le_nat (field_at bs 32 8) = pt_client_id pl \<and> bs ! 40 = bool_byte (pt_reduce_only pl))"
proof -
  have "field_at bs 0 4 = le_bytes 4 (pt_account (dc_place d)) \<longleftrightarrow> le_nat (field_at bs 0 4) = pt_account (dc_place d)"
    using assms by (intro le_bytes_eq_iff) (simp_all add: length_field_at decoded_ok_def Let_def u32_max_def)
  moreover have "field_at bs 32 8 = le_bytes 8 (pt_client_id (dc_place d)) \<longleftrightarrow> le_nat (field_at bs 32 8) = pt_client_id (dc_place d)"
    using assms by (intro le_bytes_eq_iff) (simp_all add: length_field_at decoded_ok_def Let_def u64_max_def)
  ultimately show ?thesis
    using assms
    by (simp add: buffer_fields encode_conditional_def Let_def append_eq_append_conv length_field_at
        le_i64_eq_iff decoded_ok_def)
qed

text \<open>C36 (roundtrip). Decoding never panics, and it yields a conditional exactly when the first 41
  bytes of the input are the encoding of that conditional: every well-formed conditional comes back
  from its encoding, whatever follows it, and nothing else is accepted.\<close>

theorem decode_inverts_encode:
  "decode_conditional bs \<noteq> None
   \<and> (decode_conditional bs = Some (Ok d) \<longleftrightarrow> decoded_ok d \<and> take ENCODED_CONDITIONAL_LEN bs = encode_conditional d)"
proof (cases "41 \<le> length bs")
  case True
  have "decoded_ok d" if "decode_conditional bs = Some (Ok d)"
    using that True
    by (auto simp: decode_fields [OF True] decoded_ok_def Let_def length_field_at
        le_nat_u32 le_nat_u64 i64_of_bytes_fits dest!: sym [of "le_nat _"] sym [of "i64_of_bytes _"])
  then show ?thesis
    using decode_never_panics [of bs] decode_fields [OF True, of d] encode_fields [OF True, of d]
    by (auto simp: ENCODED_CONDITIONAL_LEN_def Let_def decoded_ok_def)
next
  case False
  then have "take 41 bs \<noteq> encode_conditional d"
    using length_encode_conditional [of d] by auto
  with False show ?thesis
    by (simp add: decode_conditional_def ENCODED_CONDITIONAL_LEN_def)
qed

end
