(* ===== verification/BookState.thy ===== *)
theory BookState
  imports Book
begin

text \<open>
  The canonical state image of an order book, version 3: the writer, the shape pre-check and the
  validation of every derived index while the image is written
  (\<open>encode_state_v3_bounded\<close> in \<open>crates/orderbook/src/book.rs\<close>, \<open>validate_reachable\<close> in
  \<open>level.rs\<close>, the recovery walks of \<open>slab.rs\<close> and \<open>dedup.rs\<close>).

  A \<open>TransitionWriter\<close> is the byte string written so far; a \<open>usize\<close> is 64 bits wide. The loops over
  hash maps run in key order here: the order decides only which of several errors is reported.
\<close>

unbundle bit_operations_syntax

section \<open>Loops that may stop with an error\<close>

fun try_fold :: "('a \<Rightarrow> 's \<Rightarrow> ('s, 'e) result) \<Rightarrow> 'a list \<Rightarrow> 's \<Rightarrow> ('s, 'e) result" where
  "try_fold f [] s = Ok s"
| "try_fold f (x # xs) s = and_then (f x s) (try_fold f xs)"

definition guard :: "bool \<Rightarrow> 'e \<Rightarrow> (unit, 'e) result" where
  "guard c e = (if c then Ok () else Err e)"

lemma guard_simps [simp]:
  "guard True e = Ok ()" "guard False e = Err e"
  by (simp_all add: guard_def)

lemma guard_Ok_iff [simp]: "guard c e = Ok u \<longleftrightarrow> c"
  by (simp add: guard_def)

lemma try_fold_append: "try_fold f (xs @ ys) s = and_then (try_fold f xs s) (try_fold f ys)"
  by (induction xs arbitrary: s) (auto simp: and_then_def split: sum.splits)

section \<open>Widths and sizes\<close>

definition BOOK_TRANSITION_ROOT_SCHEMA_VERSION :: nat where
  "BOOK_TRANSITION_ROOT_SCHEMA_VERSION = 3"

definition usize_as_u64 :: "string \<Rightarrow> nat \<Rightarrow> (nat, book_state_error) result" where
  "usize_as_u64 field v = (if v \<le> u64_max then Ok v else Err (NativeWidth field u64_max))"

definition w_len :: "string \<Rightarrow> nat \<Rightarrow> bytes \<Rightarrow> (bytes, book_state_error) result" where
  "w_len field v w = and_then (usize_as_u64 field v) (\<lambda>v. Ok (w @ le_bytes 8 v))"

record state_shape =
  sh_levels :: nat
  sh_orders :: nat
  sh_positions :: nat
  sh_dedup_records :: nat
  sh_fills :: nat

definition usize_checked :: "string \<Rightarrow> nat \<Rightarrow> (nat, book_state_error) result" where
  "usize_checked field v = (if v \<le> u64_max then Ok v else Err (ArithmeticOverflow field))"

definition encoded_len :: "state_shape \<Rightarrow> (nat, book_state_error) result" where
  "encoded_len sh =
     try_fold (\<lambda>(field, count, width) len.
         and_then (usize_checked field (count * width)) (\<lambda>bytes. usize_checked field (len + bytes)))
       [(''price levels'', sh_levels sh, 16), (''resting orders'', sh_orders sh, 37),
        (''positions'', sh_positions sh, 12), (''dedup records'', sh_dedup_records sh, 29),
        (''cached fills'', sh_fills sh, 41)] 59"

section \<open>The replay cache in eviction order\<close>

fun dd_visit ::
    "(dedup_key, match_result) omap \<Rightarrow> (dedup_key \<Rightarrow> match_result \<Rightarrow> 's \<Rightarrow> ('s, book_state_error) result)
     \<Rightarrow> dedup_key set \<Rightarrow> dedup_key list \<Rightarrow> 's \<Rightarrow> ('s, book_state_error) result" where
  "dd_visit m f seen [] s = Ok s"
| "dd_visit m f seen (k # ks) s =
     (if k \<in> seen then Err (NonCanonical ''dedup FIFO must not contain duplicate keys'')
      else case omap_get m k of
        None \<Rightarrow> Err (InvalidValue ''dedup FIFO key must have a cached result'')
      | Some r \<Rightarrow> and_then (f k r s) (dd_visit m f (insert k seen) ks))"

definition dd_for_each ::
    "dedup_cache \<Rightarrow> (dedup_key \<Rightarrow> match_result \<Rightarrow> 's \<Rightarrow> ('s, book_state_error) result) \<Rightarrow> 's
     \<Rightarrow> ('s, book_state_error) result" where
  "dd_for_each c f s =
     (if length (dd_order c) \<noteq> omap_size (dd_map c)
      then Err (InvalidValue ''dedup FIFO and result map must contain the same keys'')
      else if omap_size (dd_map c) > dd_capacity c
      then Err (InvalidValue ''dedup records must not exceed capacity'')
      else dd_visit (dd_map c) f {} (dd_order c) s)"

definition state_shape_v3 :: "order_book \<Rightarrow> (state_shape, book_state_error) result" where
  "state_shape_v3 b =
     and_then (usize_as_u64 ''capacity'' (cfg_capacity (bk_config b))) (\<lambda>cap.
     if cap > u32_max then Err (NativeWidth ''slab capacity'' cap)
     else
     and_then (slab_validate (bk_slab b) (cfg_capacity (bk_config b))) (\<lambda>_.
     and_then (dd_validate (bk_dedup b) (cfg_dedup_capacity (bk_config b))) (\<lambda>_.
     and_then (usize_as_u64 ''dedup capacity'' (cfg_dedup_capacity (bk_config b))) (\<lambda>_.
     and_then (usize_as_u64 ''basket legs'' (cfg_max_basket_legs (bk_config b))) (\<lambda>_.
     and_then (usize_checked ''price levels'' (level_count (bk_bids b) + level_count (bk_asks b))) (\<lambda>levels.
     and_then (dd_for_each (bk_dedup b)
                 (\<lambda>_ r fills. usize_checked ''cached fills'' (fills + length (mr_fills r))) 0) (\<lambda>fills.
     let sh = \<lparr>sh_levels = levels, sh_orders = live (bk_slab b),
               sh_positions = omap_size (bk_positions b),
               sh_dedup_records = dd_record_count (bk_dedup b), sh_fills = fills\<rparr> in
     and_then (try_fold (\<lambda>(field, v) _. and_then (usize_as_u64 field v) (\<lambda>_. Ok ()))
        [(''price levels'', levels), (''resting orders'', live (bk_slab b)),
         (''positions'', omap_size (bk_positions b)),
         (''dedup records'', dd_record_count (bk_dedup b)), (''cached fills'', fills)] ()) (\<lambda>_.
     and_then (encoded_len sh) (\<lambda>_. Ok sh)))))))))"

section \<open>Walking the price levels\<close>

text \<open>One level's FIFO from \<open>current\<close>. The locals \<open>previous\<close> and \<open>last\<close> of the source always hold the
  same slot; \<open>seen\<close> counts the nodes of the level and \<open>nodes\<close> those of the side.\<close>

function validate_chain ::
    "node slab \<Rightarrow> side \<Rightarrow> price \<Rightarrow> (nat \<Rightarrow> node \<Rightarrow> 's \<Rightarrow> ('s, book_state_error) result)
     \<Rightarrow> nat \<Rightarrow> nat \<Rightarrow> nat \<Rightarrow> quantity \<Rightarrow> nat \<Rightarrow> 's
     \<Rightarrow> (nat \<times> nat \<times> quantity \<times> nat \<times> 's, book_state_error) result" where
  "validate_chain sl sd p visit current previous seen qty nodes s =
     (if current = NIL then Ok (previous, seen, qty, nodes, s)
      else if seen \<ge> live sl
      then Err (InvalidValue ''price-level FIFO must be acyclic and bounded by live slab nodes'')
      else case slab_get sl current of
        None \<Rightarrow> Err (InvalidValue ''price-level FIFO must reference a live slab node'')
      | Some nd \<Rightarrow>
          if nd_side nd \<noteq> sd then Err (InvalidValue ''resting node side does not match its side book'')
          else if nd_price nd \<noteq> p then Err (InvalidValue ''resting node price does not match its level'')
          else if nd_remaining nd \<le> 0 then Err (InvalidValue ''resting quantity must be strictly positive'')
          else if nd_prev nd \<noteq> previous then Err (InvalidValue ''price-level FIFO backward link mismatch'')
          else
            and_then (visit current nd s) (\<lambda>s.
            and_then (map_err (\<lambda>_. ArithmeticOverflow ''price-level aggregate quantity'')
                        (scalar_checked_add I64 qty (nd_remaining nd))) (\<lambda>qty.
            and_then (usize_checked ''resting orders'' (nodes + 1)) (\<lambda>nodes.
              validate_chain sl sd p visit (nd_next nd) current (Suc seen) qty nodes s))))"
  by pat_completeness auto

termination
  by (relation "measure (\<lambda>(sl, _, _, _, _, _, seen, _, _, _). live sl - seen)") auto

declare validate_chain.simps [simp del]

definition validate_level ::
    "node slab \<Rightarrow> side \<Rightarrow> (price \<Rightarrow> nat \<Rightarrow> 's \<Rightarrow> ('s, book_state_error) result)
     \<Rightarrow> (nat \<Rightarrow> node \<Rightarrow> 's \<Rightarrow> ('s, book_state_error) result)
     \<Rightarrow> price \<times> level \<Rightarrow> nat \<times> 's \<Rightarrow> (nat \<times> 's, book_state_error) result" where
  "validate_level sl sd visit_level visit = (\<lambda>(p, lv) (nodes, s).
     if p \<le> 0 then Err (InvalidValue ''resting level price must be strictly positive'')
     else if lv_count lv = 0 \<or> lv_head lv = NIL
     then Err (InvalidValue ''price levels must contain at least one resting order'')
     else
       and_then (visit_level p (lv_count lv) s) (\<lambda>s.
       and_then (validate_chain sl sd p visit (lv_head lv) NIL 0 0 nodes s) (\<lambda>(lst, seen, qty, nodes, s).
         if seen \<noteq> lv_count lv then Err (InvalidValue ''price-level count must equal its live FIFO length'')
         else if lst \<noteq> lv_tail lv then Err (InvalidValue ''price-level tail must be the final FIFO node'')
         else if qty \<noteq> lv_total_qty lv
         then Err (InvalidValue ''price-level aggregate must equal its live order quantities'')
         else Ok (nodes, s))))"

definition validate_reachable ::
    "side_book \<Rightarrow> node slab \<Rightarrow> side \<Rightarrow> (price \<Rightarrow> nat \<Rightarrow> 's \<Rightarrow> ('s, book_state_error) result)
     \<Rightarrow> (nat \<Rightarrow> node \<Rightarrow> 's \<Rightarrow> ('s, book_state_error) result) \<Rightarrow> 's
     \<Rightarrow> (nat \<times> 's, book_state_error) result" where
  "validate_reachable sb sl expected visit_level visit s =
     (if sb_side sb \<noteq> expected
      then Err (InvalidValue ''stored side-book role must match its engine field'')
      else try_fold (validate_level sl expected visit_level visit) (entries (sb_levels sb)) (0, s))"

section \<open>The book graph\<close>

record graph_walk =
  gw_writer :: "bytes option"
  gw_slots :: "nat set"
  gw_ids :: "order_id set"
  gw_accounts :: "(account_id, order_id list) omap"
  gw_xor :: hash

definition gw_write :: "bytes \<Rightarrow> graph_walk \<Rightarrow> graph_walk" where
  "gw_write bs s = s\<lparr>gw_writer := map_option (\<lambda>w. w @ bs) (gw_writer s)\<rparr>"

definition visit_level :: "price \<Rightarrow> nat \<Rightarrow> graph_walk \<Rightarrow> (graph_walk, book_state_error) result" where
  "visit_level p count s = Ok (gw_write (le_i64 p @ le_bytes 8 count) s)"

definition node_bytes :: "node \<Rightarrow> bytes" where
  "node_bytes n =
     le_bytes 8 (nd_order_id n) @ le_bytes 4 (nd_account n) @ le_bytes 1 (side_tag (nd_side n)) @
     le_i64 (nd_price n) @ le_i64 (nd_remaining n) @ le_bytes 8 (nd_client_id n)"

definition visit_node ::
    "sha256 \<Rightarrow> order_book \<Rightarrow> nat \<Rightarrow> node \<Rightarrow> graph_walk \<Rightarrow> (graph_walk, book_state_error) result" where
  "visit_node sha b slot nd s =
     (if slot \<in> gw_slots s
      then Err (InvalidValue ''live slab node must be reachable from exactly one price level'')
      else if nd_order_id nd \<in> gw_ids s
      then Err (NonCanonical ''resting order ids must be globally unique'')
      else case omap_get (bk_id_index b) (nd_order_id nd) of
        None \<Rightarrow> Err (InvalidValue ''live node must have an order-id locator'')
      | Some loc \<Rightarrow>
          if loc_slot loc \<noteq> slot then Err (InvalidValue ''order-id locator points to wrong slot'')
          else if loc_side loc \<noteq> nd_side nd then Err (InvalidValue ''order-id locator side mismatch'')
          else if loc_account loc \<noteq> nd_account nd
          then Err (InvalidValue ''order-id locator account mismatch'')
          else
            let ids = (case omap_get (gw_accounts s) (nd_account nd) of None \<Rightarrow> [] | Some l \<Rightarrow> l);
                s = s\<lparr>gw_slots := insert slot (gw_slots s), gw_ids := insert (nd_order_id nd) (gw_ids s),
                       gw_accounts := omap_put (nd_account nd) (ids @ [nd_order_id nd]) (gw_accounts s),
                       gw_xor := gw_xor s XOR order_leaf sha nd\<rparr>
            in Ok (gw_write (node_bytes nd) s))"

definition gw_write_len :: "string \<Rightarrow> nat \<Rightarrow> graph_walk \<Rightarrow> (graph_walk, book_state_error) result" where
  "gw_write_len field v s =
     (case gw_writer s of
        None \<Rightarrow> Ok s
      | Some w \<Rightarrow> and_then (w_len field v w) (\<lambda>w. Ok (s\<lparr>gw_writer := Some w\<rparr>)))"

text \<open>\<open>Slab::try_for_each_occupied\<close>.\<close>

definition slab_for_each ::
    "'a slab \<Rightarrow> (nat \<Rightarrow> 'a \<Rightarrow> (unit, book_state_error) result) \<Rightarrow> (unit, book_state_error) result" where
  "slab_for_each sl f =
     try_fold (\<lambda>(i, e) _. case e of
         Free _ \<Rightarrow> Ok ()
       | Occupied v \<Rightarrow>
           if i \<le> u32_max then f i v else Err (NativeWidth ''occupied slab slot'' i))
       (enumerate 0 (slots sl)) ()"

definition has_descent :: "'a::linorder list \<Rightarrow> bool" where
  "has_descent xs = list_ex (\<lambda>(x, y). y \<le> x) (zip xs (tl xs))"

definition check_locators :: "order_book \<Rightarrow> (unit, book_state_error) result" where
  "check_locators b =
     try_fold (\<lambda>(i, loc) _.
       case slab_get (bk_slab b) (loc_slot loc) of
         None \<Rightarrow> Err (InvalidValue ''order-id locator must reference a live slab node'')
       | Some nd \<Rightarrow>
           if nd_order_id nd \<noteq> i
           then Err (InvalidValue ''order-id locator key does not match its slab node'')
           else if nd_side nd \<noteq> loc_side loc \<or> nd_account nd \<noteq> loc_account loc
           then Err (InvalidValue ''order-id locator metadata does not match its slab node'')
           else Ok ())
     (entries (bk_id_index b)) ()"

definition check_accounts ::
    "order_book \<Rightarrow> (account_id, order_id list) omap \<Rightarrow> (nat, book_state_error) result" where
  "check_accounts b expected =
     and_then (try_fold (\<lambda>(account, orders) mirrored.
         if has_descent orders
         then Err (NonCanonical ''account-order ids must be strictly ascending and unique'')
         else if orders \<noteq> (case omap_get expected account of None \<Rightarrow> [] | Some l \<Rightarrow> l)
         then Err (InvalidValue ''account-order index must exactly mirror live owned orders'')
         else usize_checked ''account-order index'' (mirrored + length orders))
       (entries (bk_account_orders b)) 0) (\<lambda>mirrored.
     and_then (try_fold (\<lambda>(account, l) _.
         if omap_get (bk_account_orders b) account \<noteq> Some l
         then Err (InvalidValue ''live node must appear in its account-order index'') else Ok ())
       (entries expected) ()) (\<lambda>_. Ok mirrored))"

definition omap_map_values :: "('v \<Rightarrow> 'v) \<Rightarrow> ('k::linorder, 'v) omap \<Rightarrow> ('k, 'v) omap" where
  "omap_map_values f m = fold (\<lambda>(k, v). omap_put k (f v)) (entries m) m"

definition validate_book_graph ::
    "sha256 \<Rightarrow> order_book \<Rightarrow> bytes option \<Rightarrow> (bytes option, book_state_error) result" where
  "validate_book_graph sha b w =
     and_then (gw_write_len ''bid price levels'' (level_count (bk_bids b))
       \<lparr>gw_writer = w, gw_slots = {}, gw_ids = {}, gw_accounts = omap_empty, gw_xor = 0\<rparr>) (\<lambda>s.
     and_then (validate_reachable (bk_bids b) (bk_slab b) Bid visit_level (visit_node sha b) s) (\<lambda>(bids, s).
     and_then (gw_write_len ''ask price levels'' (level_count (bk_asks b)) s) (\<lambda>s.
     and_then (validate_reachable (bk_asks b) (bk_slab b) Ask visit_level (visit_node sha b) s) (\<lambda>(asks, s).
     and_then (usize_checked ''resting orders'' (bids + asks)) (\<lambda>reached.
     if reached \<noteq> live (bk_slab b)
     then Err (InvalidValue ''every live slab node must be reachable from exactly one price level'')
     else
     and_then (slab_for_each (bk_slab b) (\<lambda>slot _. guard (slot \<in> gw_slots s)
       (InvalidValue ''occupied slab node is unreachable from the price-level graph''))) (\<lambda>_.
     if (case (best_price (bk_bids b), best_price (bk_asks b)) of (Some bid, Some ask) \<Rightarrow> bid \<ge> ask | _ \<Rightarrow> False)
     then Err (InvalidValue ''resting bid and ask books must not be crossed or locked'')
     else if omap_size (bk_id_index b) \<noteq> live (bk_slab b)
     then Err (InvalidValue ''order-id index must cover every live slab node exactly once'')
     else
     and_then (check_locators b) (\<lambda>_.
     and_then (check_accounts b (omap_map_values sort (gw_accounts s))) (\<lambda>mirrored.
     if mirrored \<noteq> live (bk_slab b)
     then Err (InvalidValue ''account-order index must cover every live slab node exactly once'')
     else if gw_xor s \<noteq> bk_order_leaf_xor b
     then Err (InvalidValue ''incremental order-leaf XOR must match the canonical live-order scan'')
     else Ok (gw_writer s)))))))))"

section \<open>Cached results\<close>

text \<open>What the loops over the fills of a cached result carry: the makers seen, the one taker (its order,
  account and side are always known together), the previous price and the quantity filled.\<close>

record fill_walk =
  fw_makers :: "order_id set"
  fw_taker :: "(order_id \<times> account_id \<times> side) option"
  fw_price :: "price option"
  fw_filled :: quantity

definition fill_walk_start :: fill_walk where
  "fill_walk_start = \<lparr>fw_makers = {}, fw_taker = None, fw_price = None, fw_filled = 0\<rparr>"

definition fill_taker :: "fill \<Rightarrow> order_id \<times> account_id \<times> side" where
  "fill_taker f = (taker_order f, taker_account f, taker_side f)"

definition out_of_order :: "price option \<Rightarrow> fill \<Rightarrow> bool" where
  "out_of_order prev f =
     (case prev of
        None \<Rightarrow> False
      | Some p \<Rightarrow> (case taker_side f of Bid \<Rightarrow> fill_price f < p | Ask \<Rightarrow> fill_price f > p))"

definition check_cached_fill ::
    "account_id \<Rightarrow> fill \<Rightarrow> fill_walk \<Rightarrow> (fill_walk, book_state_error) result" where
  "check_cached_fill account f s =
     (if fill_price f \<le> 0 then Err (InvalidValue ''cached fill price must be strictly positive'')
      else if fill_quantity f \<le> 0 then Err (InvalidValue ''cached fill quantity must be strictly positive'')
      else if maker_order f = taker_order f
      then Err (InvalidValue ''cached fill maker and taker order ids must differ'')
      else if maker_account f = taker_account f
      then Err (InvalidValue ''cached self-trade fill is not reachable'')
      else if taker_account f \<noteq> account
      then Err (InvalidValue ''cached fill taker account must match its dedup key account'')
      else if (case fw_taker s of None \<Rightarrow> False | Some t \<Rightarrow> t \<noteq> fill_taker f)
      then Err (InvalidValue ''cached result fills must share one taker'')
      else if out_of_order (fw_price s) f
      then Err (InvalidValue ''cached fills must retain canonical execution order'')
      else if maker_order f \<in> fw_makers s
      then Err (InvalidValue ''cached result cannot fill one maker order twice'')
      else
        and_then (ok_or (prim_checked I64 (fw_filled s + fill_quantity f))
                    (ArithmeticOverflow ''cached filled quantity'')) (\<lambda>filled.
        Ok \<lparr>fw_makers = insert (maker_order f) (fw_makers s), fw_taker = Some (fill_taker f),
            fw_price = Some (fill_price f), fw_filled = filled\<rparr>))"

definition valid_outcome :: "match_result \<Rightarrow> quantity \<Rightarrow> bool" where
  "valid_outcome r filled =
     (case mr_outcome r of
        Resting remaining \<Rightarrow> mr_fills r = [] \<and> remaining > 0
      | FullyFilled \<Rightarrow> mr_fills r \<noteq> []
      | PartiallyFilledResting remaining \<Rightarrow>
          mr_fills r \<noteq> [] \<and> remaining > 0 \<and> fits I64 (filled + remaining)
      | PartiallyFilledCancelled f \<Rightarrow> mr_fills r \<noteq> [] \<and> f = filled \<and> filled < int_max I64
      | Rejected \<Rightarrow> mr_fills r = [])"

definition validate_cached_match_result :: "account_id \<Rightarrow> match_result \<Rightarrow> (unit, book_state_error) result" where
  "validate_cached_match_result account r =
     and_then (usize_as_u64 ''cached fills'' (length (mr_fills r))) (\<lambda>_.
     and_then (try_fold (check_cached_fill account) (mr_fills r) fill_walk_start) (\<lambda>s.
       guard (valid_outcome r (fw_filled s))
         (InvalidValue ''cached result outcome is inconsistent with its fills or quantity'')))"

definition fill_bytes :: "fill \<Rightarrow> bytes" where
  "fill_bytes f =
     le_bytes 8 (maker_order f) @ le_bytes 8 (taker_order f) @ le_bytes 4 (maker_account f) @
     le_bytes 4 (taker_account f) @ le_i64 (fill_price f) @ le_i64 (fill_quantity f) @
     le_bytes 1 (side_tag (taker_side f))"

fun outcome_code :: "order_outcome \<Rightarrow> nat \<times> quantity" where
  "outcome_code (Resting remaining) = (0, remaining)"
| "outcome_code FullyFilled = (1, 0)"
| "outcome_code (PartiallyFilledResting remaining) = (2, remaining)"
| "outcome_code (PartiallyFilledCancelled filled) = (3, filled)"
| "outcome_code Rejected = (4, 0)"

definition write_match_result :: "match_result \<Rightarrow> bytes \<Rightarrow> (bytes, book_state_error) result" where
  "write_match_result r w =
     and_then (w_len ''cached fills'' (length (mr_fills r)) w) (\<lambda>w.
     let w = fold (\<lambda>f w. w @ fill_bytes f) (mr_fills r) w; (tag, q) = outcome_code (mr_outcome r)
     in Ok (w @ le_bytes 1 tag @ le_i64 q))"

definition validate_dedup_results :: "order_book \<Rightarrow> bytes option \<Rightarrow> (nat \<times> bytes option, book_state_error) result" where
  "validate_dedup_results b w =
     and_then (case w of
         None \<Rightarrow> Ok None
       | Some w \<Rightarrow> and_then (w_len ''dedup records'' (dd_record_count (bk_dedup b)) w) (\<lambda>w. Ok (Some w))) (\<lambda>w.
     dd_for_each (bk_dedup b) (\<lambda>(account, client) r (fills, w).
       and_then (validate_cached_match_result account r) (\<lambda>_.
       and_then (usize_checked ''cached fills'' (fills + length (mr_fills r))) (\<lambda>fills.
       (case w of
          None \<Rightarrow> Ok (fills, None)
        | Some w \<Rightarrow>
            and_then (write_match_result r (w @ le_bytes 4 account @ le_bytes 8 client)) (\<lambda>w.
            Ok (fills, Some w)))))) (0, w))"

section \<open>The encoder\<close>

fun stp_tag :: "stp_policy \<Rightarrow> nat" where
  "stp_tag CancelMaker = 0"
| "stp_tag CancelTaker = 1"
| "stp_tag CancelBoth = 2"

definition position_bytes :: "account_id \<times> quantity \<Rightarrow> bytes" where
  "position_bytes = (\<lambda>(account, q). le_bytes 4 account @ le_i64 q)"

definition write_state_v3 :: "sha256 \<Rightarrow> order_book \<Rightarrow> bytes \<Rightarrow> (bytes, book_state_error) result" where
  "write_state_v3 sha b w =
     (let cfg = bk_config b; w = w @ le_bytes 2 BOOK_TRANSITION_ROOT_SCHEMA_VERSION in
      and_then (w_len ''capacity'' (cfg_capacity cfg) w) (\<lambda>w.
      let w = w @ le_bytes 1 (stp_tag (cfg_stp cfg)) in
      and_then (w_len ''dedup capacity'' (cfg_dedup_capacity cfg) w) (\<lambda>w.
      and_then (w_len ''basket legs'' (cfg_max_basket_legs cfg) w) (\<lambda>w.
      and_then (validate_book_graph sha b (Some w)) (\<lambda>w.
      let w = the w; positions = sort (entries (bk_positions b)) in
      and_then (w_len ''positions'' (length positions) w) (\<lambda>w.
      let w = fold (\<lambda>pq w. w @ position_bytes pq) positions w in
      and_then (validate_dedup_results b (Some w)) (\<lambda>(_, w). Ok (the w))))))))"

definition encode_state_v3_bounded :: "sha256 \<Rightarrow> order_book \<Rightarrow> nat \<Rightarrow> (bytes, book_state_error) result" where
  "encode_state_v3_bounded sha b max_bytes =
     and_then (state_shape_v3 b) (\<lambda>sh.
     and_then (encoded_len sh) (\<lambda>len.
     if len > max_bytes then Err (EncodedBytesLimit len max_bytes)
     else
     and_then (write_state_v3 sha b []) (\<lambda>w.
     if length w \<noteq> len
     then Err (InvalidValue ''v3 state size preflight must equal the emitted fixed-width image'')
     else Ok w)))"

text \<open>The \<open>expect\<close> of the root: \<open>None\<close> is the panic.\<close>

definition transition_root_v3 :: "sha256 \<Rightarrow> order_book \<Rightarrow> hash option" where
  "transition_root_v3 sha b =
     (case encode_state_v3_bounded sha b u64_max of
        Inl _ \<Rightarrow> None
      | Inr bytes \<Rightarrow> Some (hash_domain sha DOMAIN_ORDERBOOK_STATE bytes))"

definition validate_transition_invariants :: "sha256 \<Rightarrow> order_book \<Rightarrow> (unit, book_state_error) result" where
  "validate_transition_invariants sha b =
     and_then (state_shape_v3 b) (\<lambda>sh.
     and_then (validate_book_graph sha b None) (\<lambda>_.
     and_then (validate_dedup_results b None) (\<lambda>(fills, _).
     if fills \<noteq> sh_fills sh
     then Err (InvalidValue ''validated cached-fill count must match the v3 shape preflight'')
     else Ok ())))"

end
