(* ===== verification/BookRestore.thy ===== *)
theory BookRestore
  imports BookState
begin

text \<open>
  Reading a version-3 state image: the bounded scan (\<open>scan_state_v3\<close>), the resource inspection, and
  the restoration of a live book (\<open>decode_state_v3_bounded\<close>), all of \<open>crates/orderbook/src/book.rs\<close>.
  A reader step returns its value and the reader moved on, or an error; restoring can also panic
  inside the price levels, which is \<open>None\<close>.
\<close>

section \<open>The reader\<close>

record state_reader =
  sr_bytes :: bytes
  sr_offset :: nat

type_synonym 'a reader = "state_reader \<Rightarrow> ('a \<times> state_reader, book_state_error) result"

definition reader_new :: "bytes \<Rightarrow> state_reader" where
  "reader_new bs = \<lparr>sr_bytes = bs, sr_offset = 0\<rparr>"

definition rd_return :: "'a \<Rightarrow> 'a reader" where
  "rd_return a r = Ok (a, r)"

definition rd_bind :: "'a reader \<Rightarrow> ('a \<Rightarrow> 'b reader) \<Rightarrow> 'b reader" where
  "rd_bind m f r = and_then (m r) (\<lambda>(a, r). f a r)"

definition rd_lift :: "('a, book_state_error) result \<Rightarrow> 'a reader" where
  "rd_lift x r = and_then x (\<lambda>a. Ok (a, r))"

definition rd_take :: "nat \<Rightarrow> bytes reader" where
  "rd_take n r =
     (let remaining = length (sr_bytes r) - sr_offset r in
      if n > remaining then Err (Truncated (sr_offset r) n remaining)
      else Ok (take n (drop (sr_offset r) (sr_bytes r)), r\<lparr>sr_offset := sr_offset r + n\<rparr>))"

definition rd_u8 :: "nat reader" where
  "rd_u8 = rd_bind (rd_take 1) (\<lambda>raw. rd_return (le_nat raw))"

definition rd_u16 :: "nat reader" where
  "rd_u16 = rd_bind (rd_take 2) (\<lambda>raw. rd_return (le_nat raw))"

definition rd_u32 :: "nat reader" where
  "rd_u32 = rd_bind (rd_take 4) (\<lambda>raw. rd_return (le_nat raw))"

definition rd_u64 :: "nat reader" where
  "rd_u64 = rd_bind (rd_take 8) (\<lambda>raw. rd_return (le_nat raw))"

definition rd_i64 :: "int reader" where
  "rd_i64 = rd_bind (rd_take 8) (\<lambda>raw. rd_return (i64_of_bytes raw))"

definition rd_finish :: "state_reader \<Rightarrow> (unit, book_state_error) result" where
  "rd_finish r =
     (let remaining = length (sr_bytes r) - sr_offset r in
      if remaining = 0 then Ok () else Err (TrailingBytes remaining))"

section \<open>Limits\<close>

record book_state_limits =
  max_encoded_bytes :: nat
  max_capacity :: nat
  max_dedup_capacity :: nat
  max_basket_legs :: nat
  max_price_levels :: nat
  max_resting_orders :: nat
  max_positions :: nat
  max_dedup_records :: nat
  max_fills_per_result :: nat
  max_total_fills :: nat

definition default_limits :: book_state_limits where
  "default_limits =
     \<lparr>max_encoded_bytes = 64 * 1024 * 1024, max_capacity = 2 ^ 16, max_dedup_capacity = 2 ^ 12,
      max_basket_legs = 64, max_price_levels = 2 ^ 16, max_resting_orders = 2 ^ 16,
      max_positions = 2 ^ 16, max_dedup_records = 2 ^ 12, max_fills_per_result = 2 ^ 16,
      max_total_fills = 2 ^ 20\<rparr>"

definition u64_as_usize :: "string \<Rightarrow> nat \<Rightarrow> (nat, book_state_error) result" where
  "u64_as_usize field v = (if v \<le> u64_max then Ok v else Err (NativeWidth field v))"

definition limit_as_u64 :: "nat \<Rightarrow> nat" where
  "limit_as_u64 limit = (if limit \<le> u64_max then limit else u64_max)"

definition check_limit :: "string \<Rightarrow> nat \<Rightarrow> nat \<Rightarrow> (unit, book_state_error) result" where
  "check_limit resource actual limit =
     (let max = limit_as_u64 limit in
      if actual > max then Err (ResourceLimit resource actual max) else Ok ())"

text \<open>Returns the amount and the new count.\<close>

definition add_count :: "nat \<Rightarrow> nat \<Rightarrow> string \<Rightarrow> nat \<Rightarrow> (nat \<times> nat, book_state_error) result" where
  "add_count current amount resource limit =
     and_then (u64_as_usize resource amount) (\<lambda>amount.
     and_then (usize_checked resource (current + amount)) (\<lambda>current.
     and_then (usize_as_u64 resource current) (\<lambda>v.
     and_then (check_limit resource v limit) (\<lambda>_. Ok (amount, current)))))"

section \<open>The scan\<close>

definition decode_side_tag :: "nat \<Rightarrow> (side, book_state_error) result" where
  "decode_side_tag v = (if v = 0 then Ok Bid else if v = 1 then Ok Ask else Err (InvalidTag ''side'' v))"

definition decode_stp_tag :: "nat \<Rightarrow> (stp_policy, book_state_error) result" where
  "decode_stp_tag v =
     (if v = 0 then Ok CancelMaker else if v = 1 then Ok CancelTaker else if v = 2 then Ok CancelBoth
      else Err (InvalidTag ''self-trade prevention policy'' v))"

fun scan_orders :: "nat \<Rightarrow> side \<Rightarrow> price \<Rightarrow> quantity \<Rightarrow> unit reader" where
  "scan_orders 0 sd p lq = rd_return ()"
| "scan_orders (Suc n) sd p lq =
     rd_bind rd_u64 (\<lambda>_. rd_bind rd_u32 (\<lambda>_. rd_bind rd_u8 (\<lambda>tag.
     rd_bind (rd_lift (decode_side_tag tag)) (\<lambda>nsd.
     rd_bind (rd_lift (guard (nsd = sd) (InvalidValue ''resting node side does not match its side book''))) (\<lambda>_.
     rd_bind rd_i64 (\<lambda>node_price.
     rd_bind (rd_lift (guard (node_price = p) (InvalidValue ''resting node price does not match its level''))) (\<lambda>_.
     rd_bind rd_i64 (\<lambda>remaining.
     rd_bind (rd_lift (guard (0 < remaining) (InvalidValue ''resting quantity must be strictly positive''))) (\<lambda>_.
     rd_bind (rd_lift (ok_or (prim_checked I64 (lq + remaining))
        (ArithmeticOverflow ''price-level aggregate quantity''))) (\<lambda>lq.
     rd_bind rd_u64 (\<lambda>_. scan_orders n sd p lq)))))))))))"

text \<open>The level loop: the orders counted so far, the first and the previous price.\<close>

fun scan_levels_v3 ::
    "nat \<Rightarrow> side \<Rightarrow> nat \<Rightarrow> book_state_limits \<Rightarrow> nat \<Rightarrow> price option \<Rightarrow> price option
     \<Rightarrow> (nat \<times> price option \<times> price option) reader" where
  "scan_levels_v3 0 sd cap limits orders first prev = rd_return (orders, first, prev)"
| "scan_levels_v3 (Suc n) sd cap limits orders first prev =
     rd_bind rd_i64 (\<lambda>p.
     rd_bind (rd_lift (guard (0 < p) (InvalidValue ''resting level price must be strictly positive''))) (\<lambda>_.
     rd_bind (rd_lift (guard (case prev of None \<Rightarrow> True | Some q \<Rightarrow> q < p)
        (NonCanonical ''price levels must be strictly ascending''))) (\<lambda>_.
     rd_bind rd_u64 (\<lambda>declared.
     rd_bind (rd_lift (guard (declared \<noteq> 0)
        (InvalidValue ''price levels must contain at least one resting order''))) (\<lambda>_.
     rd_bind (rd_lift (add_count orders declared ''resting orders'' (max_resting_orders limits))) (\<lambda>(count, orders).
     rd_bind (rd_lift (guard (orders \<le> cap) (InvalidValue ''resting order count exceeds logical capacity''))) (\<lambda>_.
     rd_bind (scan_orders count sd p 0) (\<lambda>_.
       scan_levels_v3 n sd cap limits orders (Some (case first of None \<Rightarrow> p | Some q \<Rightarrow> q)) (Some p)))))))))"

definition scan_state_side ::
    "side \<Rightarrow> nat \<Rightarrow> book_state_limits \<Rightarrow> state_shape \<Rightarrow> (state_shape \<times> price option \<times> price option) reader" where
  "scan_state_side sd cap limits sh =
     rd_bind rd_u64 (\<lambda>declared.
     rd_bind (rd_lift (add_count (sh_levels sh) declared ''price levels'' (max_price_levels limits))) (\<lambda>(count, levels).
     rd_bind (scan_levels_v3 count sd cap limits (sh_orders sh) None None) (\<lambda>(orders, first, prev).
       rd_return (sh\<lparr>sh_levels := levels, sh_orders := orders\<rparr>, first, prev))))"

definition read_fill :: "fill reader" where
  "read_fill =
     rd_bind rd_u64 (\<lambda>mo. rd_bind rd_u64 (\<lambda>to. rd_bind rd_u32 (\<lambda>ma. rd_bind rd_u32 (\<lambda>ta.
     rd_bind rd_i64 (\<lambda>p. rd_bind rd_i64 (\<lambda>q. rd_bind rd_u8 (\<lambda>tag.
     rd_bind (rd_lift (decode_side_tag tag)) (\<lambda>sd.
       rd_return \<lparr>maker_order = mo, taker_order = to, maker_account = ma, taker_account = ta,
                  fill_price = p, fill_quantity = q, taker_side = sd\<rparr>))))))))"

definition scan_fill :: "account_id \<Rightarrow> fill \<Rightarrow> fill_walk \<Rightarrow> (fill_walk, book_state_error) result" where
  "scan_fill account f s =
     (if fill_price f \<le> 0 then Err (InvalidValue ''cached fill price must be strictly positive'')
      else if fill_quantity f \<le> 0 then Err (InvalidValue ''cached fill quantity must be strictly positive'')
      else if maker_order f = taker_order f
      then Err (InvalidValue ''cached fill maker and taker order ids must differ'')
      else if maker_account f = taker_account f
      then Err (InvalidValue ''cached self-trade fill is not reachable'')
      else if taker_account f \<noteq> account
      then Err (InvalidValue ''cached fill taker account must match its dedup key account'')
      else if (case fw_taker s of None \<Rightarrow> False | Some t \<Rightarrow> t \<noteq> fill_taker f)
      then Err (InvalidValue ''cached result fills must share one taker'')
      else if out_of_order (fw_price s) f
      then Err (InvalidValue ''cached fills must retain canonical execution order'')
      else
        and_then (ok_or (prim_checked I64 (fw_filled s + fill_quantity f))
                    (ArithmeticOverflow ''cached filled quantity'')) (\<lambda>filled.
        Ok (s\<lparr>fw_taker := Some (fill_taker f), fw_price := Some (fill_price f), fw_filled := filled\<rparr>)))"

fun scan_fills :: "nat \<Rightarrow> account_id \<Rightarrow> fill_walk \<Rightarrow> fill_walk reader" where
  "scan_fills 0 account s = rd_return s"
| "scan_fills (Suc n) account s =
     rd_bind read_fill (\<lambda>f. rd_bind (rd_lift (scan_fill account f s)) (scan_fills n account))"

definition scan_outcome :: "nat \<Rightarrow> quantity \<Rightarrow> nat \<Rightarrow> quantity \<Rightarrow> (unit, book_state_error) result" where
  "scan_outcome count filled tag q =
     (if tag = 0 \<and> count = 0 \<and> q > 0 then Ok ()
      else if tag = 1 \<and> count > 0 \<and> q = 0 then Ok ()
      else if tag = 2 \<and> count > 0 \<and> q > 0 then
        and_then (ok_or (prim_checked I64 (filled + q)) (ArithmeticOverflow ''cached original quantity'')) (\<lambda>_. Ok ())
      else if tag = 3 \<and> count > 0 \<and> q = filled \<and> filled < int_max I64 then Ok ()
      else if tag = 4 \<and> count = 0 \<and> q = 0 then Ok ()
      else if tag \<le> 4
      then Err (InvalidValue ''cached result outcome is inconsistent with its fills or quantity'')
      else Err (InvalidTag ''order outcome'' tag))"

definition scan_match_result :: "account_id \<Rightarrow> book_state_limits \<Rightarrow> nat \<Rightarrow> nat reader" where
  "scan_match_result account limits tot =
     rd_bind rd_u64 (\<lambda>declared.
     rd_bind (rd_lift (check_limit ''fills per dedup result'' declared (max_fills_per_result limits))) (\<lambda>_.
     rd_bind (rd_lift (add_count tot declared ''total cached fills'' (max_total_fills limits))) (\<lambda>(count, tot).
     rd_bind (scan_fills count account fill_walk_start) (\<lambda>s.
     rd_bind rd_u8 (\<lambda>tag. rd_bind rd_i64 (\<lambda>q.
     rd_bind (rd_lift (scan_outcome count (fw_filled s) tag q)) (\<lambda>_. rd_return tot)))))))"

fun scan_positions :: "nat \<Rightarrow> account_id option \<Rightarrow> unit reader" where
  "scan_positions 0 prev = rd_return ()"
| "scan_positions (Suc n) prev =
     rd_bind rd_u32 (\<lambda>account.
     rd_bind (rd_lift (guard (case prev of None \<Rightarrow> True | Some a \<Rightarrow> a < account)
        (NonCanonical ''positions must be strictly ordered by account''))) (\<lambda>_.
     rd_bind rd_i64 (\<lambda>_. scan_positions n (Some account))))"

fun scan_records :: "nat \<Rightarrow> book_state_limits \<Rightarrow> nat \<Rightarrow> nat reader" where
  "scan_records 0 limits fills = rd_return fills"
| "scan_records (Suc n) limits fills =
     rd_bind rd_u32 (\<lambda>account. rd_bind rd_u64 (\<lambda>_.
     rd_bind (scan_match_result account limits fills) (scan_records n limits)))"

record decoded_header =
  dh_capacity :: nat
  dh_stp :: stp_policy
  dh_dedup_capacity :: nat
  dh_max_basket_legs :: nat

definition scan_header :: "book_state_limits \<Rightarrow> decoded_header reader" where
  "scan_header limits =
     rd_bind rd_u16 (\<lambda>version.
     rd_bind (rd_lift (guard (version = BOOK_TRANSITION_ROOT_SCHEMA_VERSION)
        (UnsupportedVersion version BOOK_TRANSITION_ROOT_SCHEMA_VERSION))) (\<lambda>_.
     rd_bind rd_u64 (\<lambda>cap.
     rd_bind (rd_lift (check_limit ''capacity'' cap (max_capacity limits))) (\<lambda>_.
     rd_bind (rd_lift (guard (cap \<le> u32_max) (NativeWidth ''slab capacity'' cap))) (\<lambda>_.
     rd_bind (rd_lift (u64_as_usize ''capacity'' cap)) (\<lambda>cap.
     rd_bind rd_u8 (\<lambda>tag. rd_bind (rd_lift (decode_stp_tag tag)) (\<lambda>stp.
     rd_bind rd_u64 (\<lambda>dcap.
     rd_bind (rd_lift (check_limit ''dedup capacity'' dcap (max_dedup_capacity limits))) (\<lambda>_.
     rd_bind (rd_lift (u64_as_usize ''dedup capacity'' dcap)) (\<lambda>dcap.
     rd_bind rd_u64 (\<lambda>legs.
     rd_bind (rd_lift (check_limit ''basket legs'' legs (max_basket_legs limits))) (\<lambda>_.
     rd_bind (rd_lift (u64_as_usize ''basket legs'' legs)) (\<lambda>legs.
       rd_return \<lparr>dh_capacity = cap, dh_stp = stp, dh_dedup_capacity = dcap, dh_max_basket_legs = legs\<rparr>))))))))))))))"

definition scan_body :: "book_state_limits \<Rightarrow> decoded_header \<Rightarrow> state_shape reader" where
  "scan_body limits hdr =
     rd_bind (scan_state_side Bid (dh_capacity hdr) limits
        \<lparr>sh_levels = 0, sh_orders = 0, sh_positions = 0, sh_dedup_records = 0, sh_fills = 0\<rparr>) (\<lambda>(sh, _, bid).
     rd_bind (scan_state_side Ask (dh_capacity hdr) limits sh) (\<lambda>(sh, ask, _).
     rd_bind (rd_lift (guard (case (bid, ask) of (Some d, Some a) \<Rightarrow> d < a | _ \<Rightarrow> True)
        (InvalidValue ''resting bid and ask books must not be crossed or locked''))) (\<lambda>_.
     rd_bind rd_u64 (\<lambda>position_count.
     rd_bind (rd_lift (add_count 0 position_count ''positions'' (max_positions limits))) (\<lambda>(_, positions).
     rd_bind (scan_positions positions None) (\<lambda>_.
     rd_bind rd_u64 (\<lambda>dedup_count.
     rd_bind (rd_lift (add_count 0 dedup_count ''dedup records'' (max_dedup_records limits))) (\<lambda>(_, records).
     rd_bind (rd_lift (guard (records \<le> dh_dedup_capacity hdr)
        (InvalidValue ''dedup record count exceeds logical dedup capacity''))) (\<lambda>_.
     rd_bind (scan_records records limits 0) (\<lambda>fills.
       rd_return (sh\<lparr>sh_positions := positions, sh_dedup_records := records, sh_fills := fills\<rparr>)))))))))))"

definition scan_state_v3 ::
    "bytes \<Rightarrow> book_state_limits \<Rightarrow> (decoded_header \<times> state_shape, book_state_error) result" where
  "scan_state_v3 bs limits =
     (if length bs > max_encoded_bytes limits
      then Err (EncodedBytesLimit (length bs) (max_encoded_bytes limits))
      else
      and_then (scan_header limits (reader_new bs)) (\<lambda>(hdr, r).
      and_then (scan_body limits hdr r) (\<lambda>(sh, r).
      and_then (rd_finish r) (\<lambda>_.
      and_then (encoded_len sh) (\<lambda>len.
      if len \<noteq> length bs
      then Err (NonCanonical ''fixed-width v3 image length does not match its declared counts'')
      else Ok (hdr, sh))))))"

record book_state_resources =
  rs_encoded_bytes :: nat
  rs_capacity :: nat
  rs_dedup_capacity :: nat
  rs_max_basket_legs :: nat
  rs_price_levels :: nat
  rs_resting_orders :: nat
  rs_positions :: nat
  rs_dedup_records :: nat
  rs_total_cached_fills :: nat

definition inspect_state_v3_bounded ::
    "bytes \<Rightarrow> book_state_limits \<Rightarrow> (book_state_resources, book_state_error) result" where
  "inspect_state_v3_bounded bs limits =
     and_then (scan_state_v3 bs limits) (\<lambda>(hdr, sh).
     Ok \<lparr>rs_encoded_bytes = length bs, rs_capacity = dh_capacity hdr,
         rs_dedup_capacity = dh_dedup_capacity hdr, rs_max_basket_legs = dh_max_basket_legs hdr,
         rs_price_levels = sh_levels sh, rs_resting_orders = sh_orders sh,
         rs_positions = sh_positions sh, rs_dedup_records = sh_dedup_records sh,
         rs_total_cached_fills = sh_fills sh\<rparr>)"

section \<open>Restoring a book\<close>

text \<open>One resting order: the checks, the slab and its level, then the derived indexes.\<close>

definition restore_node ::
    "sha256 \<Rightarrow> side \<Rightarrow> price \<Rightarrow> node \<Rightarrow> order_book \<times> order_id set
     \<Rightarrow> (order_book \<times> order_id set, book_state_error) result option" where
  "restore_node sha expected p nd = (\<lambda>(b, seen).
     if nd_side nd \<noteq> expected
     then Some (Err (InvalidValue ''resting node side does not match its side book''))
     else if nd_price nd \<noteq> p
     then Some (Err (InvalidValue ''resting node price does not match its level''))
     else if nd_remaining nd \<le> 0
     then Some (Err (InvalidValue ''resting quantity must be strictly positive''))
     else if nd_order_id nd \<in> seen
     then Some (Err (NonCanonical ''resting order ids must be globally unique''))
     else case slab_insert (bk_slab b) nd of
       None \<Rightarrow> None
     | Some (Inl _, _) \<Rightarrow> Some (Err (InvalidValue ''resting order count exceeds slab capacity''))
     | Some (Inr slot, sl) \<Rightarrow>
         (case push_back (side_of expected b) sl slot of
            None \<Rightarrow> None
          | Some (sb, sl) \<Rightarrow>
              let b = (set_side expected sb b)\<lparr>bk_slab := sl\<rparr> in
              (case slab_get sl slot of
                 None \<Rightarrow> Some (Err (InvalidValue ''restored slab slot is not live''))
               | Some stored \<Rightarrow>
                   let b = auth_insert sha stored b in
                   if omap_get (bk_id_index b) (nd_order_id nd) \<noteq> None
                   then Some (Err (NonCanonical ''resting order ids must be globally unique''))
                   else
                     let b = b\<lparr>bk_id_index := omap_put (nd_order_id nd)
                           \<lparr>loc_slot = slot, loc_side = nd_side nd, loc_account = nd_account nd\<rparr>
                           (bk_id_index b)\<rparr>;
                         ids = (case omap_get (bk_account_orders b) (nd_account nd) of None \<Rightarrow> [] | Some l \<Rightarrow> l)
                     in Some (Ok (b\<lparr>bk_account_orders := omap_put (nd_account nd) (ids @ [nd_order_id nd])
                                     (bk_account_orders b)\<rparr>, insert (nd_order_id nd) seen)))))"

definition read_node :: "node reader" where
  "read_node =
     rd_bind rd_u64 (\<lambda>oid. rd_bind rd_u32 (\<lambda>account. rd_bind rd_u8 (\<lambda>tag.
     rd_bind (rd_lift (decode_side_tag tag)) (\<lambda>sd.
     rd_bind rd_i64 (\<lambda>p. rd_bind rd_i64 (\<lambda>remaining. rd_bind rd_u64 (\<lambda>client.
       rd_return \<lparr>nd_order_id = oid, nd_account = account, nd_side = sd, nd_price = p,
                  nd_remaining = remaining, nd_client_id = client, nd_prev = NIL, nd_next = NIL\<rparr>)))))))"

type_synonym restoring = "order_book \<times> order_id set"

fun restore_orders ::
    "sha256 \<Rightarrow> nat \<Rightarrow> side \<Rightarrow> price \<Rightarrow> restoring \<Rightarrow> state_reader
     \<Rightarrow> (restoring \<times> state_reader, book_state_error) result option" where
  "restore_orders sha 0 sd p st r = Some (Ok (st, r))"
| "restore_orders sha (Suc n) sd p st r =
     try_then (Some (read_node r)) (\<lambda>(nd, r).
     try_then (restore_node sha sd p nd st) (\<lambda>st. restore_orders sha n sd p st r))"

fun restore_levels ::
    "sha256 \<Rightarrow> nat \<Rightarrow> side \<Rightarrow> restoring \<Rightarrow> state_reader
     \<Rightarrow> (restoring \<times> state_reader, book_state_error) result option" where
  "restore_levels sha 0 sd st r = Some (Ok (st, r))"
| "restore_levels sha (Suc n) sd st r =
     try_then (Some (rd_i64 r)) (\<lambda>(p, r).
     try_then (Some (rd_u64 r)) (\<lambda>(declared, r).
     try_then (Some (u64_as_usize ''resting orders'' declared)) (\<lambda>count.
     try_then (restore_orders sha count sd p st r) (\<lambda>(st, r). restore_levels sha n sd st r))))"

definition restore_state_side ::
    "sha256 \<Rightarrow> side \<Rightarrow> restoring \<Rightarrow> state_reader
     \<Rightarrow> (restoring \<times> state_reader, book_state_error) result option" where
  "restore_state_side sha sd st r =
     try_then (Some (rd_u64 r)) (\<lambda>(declared, r).
     try_then (Some (u64_as_usize ''price levels'' declared)) (\<lambda>count. restore_levels sha count sd st r))"

fun restore_positions :: "nat \<Rightarrow> (account_id, quantity) omap \<Rightarrow> (account_id, quantity) omap reader" where
  "restore_positions 0 m = rd_return m"
| "restore_positions (Suc n) m =
     rd_bind rd_u32 (\<lambda>account. rd_bind rd_i64 (\<lambda>q.
     rd_bind (rd_lift (guard (omap_get m account = None) (NonCanonical ''duplicate position account''))) (\<lambda>_.
       restore_positions n (omap_put account q m))))"

fun read_fills :: "nat \<Rightarrow> order_id set \<Rightarrow> fill list reader" where
  "read_fills 0 makers = rd_return []"
| "read_fills (Suc n) makers =
     rd_bind read_fill (\<lambda>f.
     rd_bind (rd_lift (guard (maker_order f \<notin> makers)
        (InvalidValue ''cached result cannot fill one maker order twice''))) (\<lambda>_.
     rd_bind (read_fills n (insert (maker_order f) makers)) (\<lambda>fs. rd_return (f # fs))))"

definition decode_outcome :: "nat \<Rightarrow> quantity \<Rightarrow> (order_outcome, book_state_error) result" where
  "decode_outcome tag q =
     (if tag = 0 then Ok (Resting q) else if tag = 1 then Ok FullyFilled
      else if tag = 2 then Ok (PartiallyFilledResting q) else if tag = 3 then Ok (PartiallyFilledCancelled q)
      else if tag = 4 then Ok Rejected else Err (InvalidTag ''order outcome'' tag))"

definition decode_match_result :: "match_result reader" where
  "decode_match_result =
     rd_bind rd_u64 (\<lambda>declared. rd_bind (rd_lift (u64_as_usize ''cached fills'' declared)) (\<lambda>count.
     rd_bind (read_fills count {}) (\<lambda>fs.
     rd_bind rd_u8 (\<lambda>tag. rd_bind rd_i64 (\<lambda>q. rd_bind (rd_lift (decode_outcome tag q)) (\<lambda>oc.
       rd_return \<lparr>mr_fills = fs, mr_outcome = oc\<rparr>))))))"

fun restore_records :: "nat \<Rightarrow> dedup_key set \<Rightarrow> dedup_cache \<Rightarrow> dedup_cache reader" where
  "restore_records 0 seen c = rd_return c"
| "restore_records (Suc n) seen c =
     rd_bind rd_u32 (\<lambda>account. rd_bind rd_u64 (\<lambda>client.
     rd_bind (rd_lift (guard ((account, client) \<notin> seen) (NonCanonical ''dedup FIFO contains a duplicate key''))) (\<lambda>_.
     rd_bind decode_match_result (\<lambda>res.
       restore_records n (insert (account, client) seen) (dd_insert c account client res)))))"

definition skip_header :: "unit reader" where
  "skip_header =
     rd_bind rd_u16 (\<lambda>_. rd_bind rd_u64 (\<lambda>_. rd_bind rd_u8 (\<lambda>_. rd_bind rd_u64 (\<lambda>_. rd_bind rd_u64 (\<lambda>_.
       rd_return ())))))"

text \<open>Everything after the two sides: positions, replay cache, end of input.\<close>

definition restore_rest :: "order_book \<Rightarrow> state_reader \<Rightarrow> (order_book, book_state_error) result" where
  "restore_rest b r =
     and_then (rd_u64 r) (\<lambda>(declared, r).
     and_then (u64_as_usize ''positions'' declared) (\<lambda>count.
     and_then (restore_positions count (bk_positions b) r) (\<lambda>(positions, r).
     and_then (rd_u64 r) (\<lambda>(declared, r).
     and_then (u64_as_usize ''dedup records'' declared) (\<lambda>count.
     and_then (restore_records count {} (bk_dedup b) r) (\<lambda>(dedup, r).
     and_then (rd_finish r) (\<lambda>_. Ok (b\<lparr>bk_positions := positions, bk_dedup := dedup\<rparr>))))))))"

definition restore_state_v3 ::
    "sha256 \<Rightarrow> bytes \<Rightarrow> decoded_header \<Rightarrow> backend \<Rightarrow> (order_book, book_state_error) result option" where
  "restore_state_v3 sha bs hdr backend =
     try_then (Some (skip_header (reader_new bs))) (\<lambda>(_, r).
     let b = book_new \<lparr>cfg_capacity = dh_capacity hdr, cfg_stp = dh_stp hdr,
           cfg_dedup_capacity = dh_dedup_capacity hdr, cfg_max_basket_legs = dh_max_basket_legs hdr,
           cfg_matching_backend = backend\<rparr> in
     try_then (restore_state_side sha Bid (b, {}) r) (\<lambda>(st, r).
     try_then (restore_state_side sha Ask st r) (\<lambda>((b, _), r).
       Some (restore_rest (b\<lparr>bk_account_orders := omap_map_values sort (bk_account_orders b)\<rparr>) r))))"

definition decode_state_v3_bounded ::
    "sha256 \<Rightarrow> bytes \<Rightarrow> book_state_limits \<Rightarrow> backend \<Rightarrow> (order_book, book_state_error) result option" where
  "decode_state_v3_bounded sha bs limits backend =
     try_then (Some (scan_state_v3 bs limits)) (\<lambda>(hdr, sh).
     try_then (Some (encoded_len sh)) (\<lambda>expected_len.
     if expected_len \<noteq> length bs then
       Some (Err (if expected_len < length bs then TrailingBytes (length bs - expected_len)
                  else Truncated (length bs) (expected_len - length bs) 0))
     else
     try_then (restore_state_v3 sha bs hdr backend) (\<lambda>rebuilt.
     try_then (Some (encode_state_v3_bounded sha rebuilt (max_encoded_bytes limits))) (\<lambda>canonical.
     if canonical \<noteq> bs then Some (Err CanonicalEncodingMismatch)
     else if hash_domain sha DOMAIN_ORDERBOOK_STATE canonical \<noteq> hash_domain sha DOMAIN_ORDERBOOK_STATE bs
     then Some (Err RootMismatch)
     else Some (Ok rebuilt)))))"

end
