(* ===== verification/StateImage.thy ===== *)
theory StateImage
  imports BookRestore LevelRep
begin

text \<open>
  The version-3 image as a function of what it describes, and what the readers make of its parts.
  \<open>reads m bs a\<close> says that the reader \<open>m\<close>, placed before the bytes \<open>bs\<close>, consumes exactly them and
  returns \<open>a\<close>, whatever follows; the rules compose along the binds of the scan and the restoration.
\<close>

section \<open>The image\<close>

definition level_image :: "price \<times> node list \<Rightarrow> bytes" where
  "level_image = (\<lambda>(p, ns). le_i64 p @ le_bytes 8 (length ns) @ concat (map node_bytes ns))"

definition side_image :: "(price \<times> node list) list \<Rightarrow> bytes" where
  "side_image ls = le_bytes 8 (length ls) @ concat (map level_image ls)"

definition result_image :: "match_result \<Rightarrow> bytes" where
  "result_image r = le_bytes 8 (length (mr_fills r)) @ concat (map fill_bytes (mr_fills r)) @
     le_bytes 1 (fst (outcome_code (mr_outcome r))) @ le_i64 (snd (outcome_code (mr_outcome r)))"

definition record_image :: "dedup_key \<times> match_result \<Rightarrow> bytes" where
  "record_image = (\<lambda>((account, client), r). le_bytes 4 account @ le_bytes 8 client @ result_image r)"

definition header_image :: "book_config \<Rightarrow> bytes" where
  "header_image cfg =
     le_bytes 2 BOOK_TRANSITION_ROOT_SCHEMA_VERSION @ le_bytes 8 (cfg_capacity cfg) @
     le_bytes 1 (stp_tag (cfg_stp cfg)) @ le_bytes 8 (cfg_dedup_capacity cfg) @
     le_bytes 8 (cfg_max_basket_legs cfg)"

record book_parts =
  bp_config :: book_config
  bp_bids :: "(price \<times> node list) list"
  bp_asks :: "(price \<times> node list) list"
  bp_positions :: "(account_id \<times> quantity) list"
  bp_records :: "(dedup_key \<times> match_result) list"

definition tail_image :: "(account_id \<times> quantity) list \<Rightarrow> (dedup_key \<times> match_result) list \<Rightarrow> bytes" where
  "tail_image ps recs =
     le_bytes 8 (length ps) @ concat (map position_bytes ps) @
     le_bytes 8 (length recs) @ concat (map record_image recs)"

definition book_image :: "book_parts \<Rightarrow> bytes" where
  "book_image bp = header_image (bp_config bp) @ side_image (bp_bids bp) @ side_image (bp_asks bp) @
     tail_image (bp_positions bp) (bp_records bp)"

definition level_orders :: "(price \<times> node list) list \<Rightarrow> nat" where
  "level_orders ls = sum_list (map (\<lambda>(_, ns). length ns) ls)"

definition record_fills :: "(dedup_key \<times> match_result) list \<Rightarrow> nat" where
  "record_fills recs = sum_list (map (\<lambda>(_, r). length (mr_fills r)) recs)"

definition image_shape :: "book_parts \<Rightarrow> state_shape" where
  "image_shape bp =
     \<lparr>sh_levels = length (bp_bids bp) + length (bp_asks bp),
      sh_orders = level_orders (bp_bids bp) + level_orders (bp_asks bp),
      sh_positions = length (bp_positions bp), sh_dedup_records = length (bp_records bp),
      sh_fills = record_fills (bp_records bp)\<rparr>"

definition shape_size :: "state_shape \<Rightarrow> nat" where
  "shape_size sh = 59 + 16 * sh_levels sh + 37 * sh_orders sh + 12 * sh_positions sh +
     29 * sh_dedup_records sh + 41 * sh_fills sh"

lemma length_node_bytes [simp]: "length (node_bytes n) = 37"
  by (simp add: node_bytes_def)

lemma length_fill_bytes [simp]: "length (fill_bytes f) = 41"
  by (simp add: fill_bytes_def)

lemma length_concat_const: "(\<And>x. x \<in> set xs \<Longrightarrow> length (f x) = k) \<Longrightarrow> length (concat (map f xs)) = k * length xs"
  by (induction xs) simp_all

lemma length_levels: "length (concat (map level_image ls)) = 16 * length ls + 37 * level_orders ls"
  by (induction ls)
    (auto simp: level_image_def level_orders_def length_concat_const [where k = 37])

lemma length_records: "length (concat (map record_image recs)) = 29 * length recs + 41 * record_fills recs"
  by (induction recs)
    (auto simp: record_image_def result_image_def record_fills_def length_concat_const [where k = 41])

lemma length_positions: "length (concat (map position_bytes ps)) = 12 * length ps"
  by (rule length_concat_const) (auto simp: position_bytes_def)

lemma length_book_image: "length (book_image bp) = shape_size (image_shape bp)"
  by (simp add: book_image_def header_image_def side_image_def tail_image_def shape_size_def
      image_shape_def length_levels length_records length_positions algebra_simps)

lemma encoded_len_eq:
  assumes "shape_size sh \<le> u64_max"
  shows "encoded_len sh = Ok (shape_size sh)"
  using assms by (simp add: encoded_len_def usize_checked_def shape_size_def mult.commute add.assoc)

section \<open>Readers\<close>

definition left :: "state_reader \<Rightarrow> bytes" where
  "left r = drop (sr_offset r) (sr_bytes r)"

definition adv :: "state_reader \<Rightarrow> nat \<Rightarrow> state_reader" where
  "adv r n = r\<lparr>sr_offset := sr_offset r + n\<rparr>"

lemma left_adv [simp]: "left (adv r n) = drop n (left r)"
  by (simp add: left_def adv_def add.commute)

lemma adv_adv [simp]: "adv (adv r n) m = adv r (n + m)"
  by (simp add: adv_def add.assoc)

lemma adv_0 [simp]: "adv r 0 = r"
  by (simp add: adv_def)

lemma left_new [simp]: "left (reader_new bs) = bs"
  by (simp add: left_def reader_new_def)

definition reads :: "'a reader \<Rightarrow> bytes \<Rightarrow> 'a \<Rightarrow> bool" where
  "reads m bs a \<longleftrightarrow> (\<forall>r rest. left r = bs @ rest \<longrightarrow> m r = Ok (a, adv r (length bs)))"

lemma readsD: "reads m bs a \<Longrightarrow> left r = bs @ rest \<Longrightarrow> m r = Ok (a, adv r (length bs))"
  by (simp add: reads_def)

lemma reads_bind: "reads m bs a \<Longrightarrow> reads (f a) bs' b \<Longrightarrow> reads (rd_bind m f) (bs @ bs') b"
  by (auto simp: reads_def rd_bind_def)

lemma reads_return: "reads (rd_return a) [] a"
  by (simp add: reads_def rd_return_def)

lemma reads_lift: "reads (f a) bs b \<Longrightarrow> reads (rd_bind (rd_lift (Ok a)) f) bs b"
  by (simp add: reads_def rd_bind_def rd_lift_def)

lemma reads_last: "reads m bs a \<Longrightarrow> reads (f a) [] b \<Longrightarrow> reads (rd_bind m f) bs b"
  using reads_bind [of m bs a f "[]" b] by simp

lemma rd_take_reads: "reads (rd_take (length bs)) bs bs"
  unfolding reads_def
proof (intro allI impI)
  fix r rest
  assume l: "left r = bs @ rest"
  then have "length (sr_bytes r) - sr_offset r = length bs + length rest"
    by (metis left_def length_append length_drop)
  with l show "rd_take (length bs) r = Ok (bs, adv r (length bs))"
    by (simp add: rd_take_def left_def [symmetric] adv_def)
qed

lemma rd_take_n: "length bs = n \<Longrightarrow> reads (rd_take n) bs bs"
  using rd_take_reads by auto

lemma reads_u8: "x < 256 \<Longrightarrow> reads rd_u8 (le_bytes 1 x) x"
  unfolding rd_u8_def
  by (rule reads_last [OF rd_take_n]) (simp_all add: le_nat_le_bytes reads_return del: le_bytes.simps One_nat_def)

lemma reads_u16: "x < 65536 \<Longrightarrow> reads rd_u16 (le_bytes 2 x) x"
  unfolding rd_u16_def
  by (rule reads_last [OF rd_take_n]) (simp_all add: le_nat_le_bytes reads_return)

lemma reads_u32: "x \<le> u32_max \<Longrightarrow> reads rd_u32 (le_bytes 4 x) x"
  unfolding rd_u32_def
  by (rule reads_last [OF rd_take_n]) (simp_all add: le_nat_le_bytes reads_return u32_max_def)

lemma reads_u64: "x \<le> u64_max \<Longrightarrow> reads rd_u64 (le_bytes 8 x) x"
  unfolding rd_u64_def
  by (rule reads_last [OF rd_take_n]) (simp_all add: le_nat_le_bytes reads_return u64_max_def)

lemma reads_i64: "fits I64 x \<Longrightarrow> reads rd_i64 (le_i64 x) x"
  unfolding rd_i64_def
  by (rule reads_last [OF rd_take_n]) (simp_all add: i64_round_trip reads_return)

lemma decode_side_tag [simp]: "decode_side_tag (side_tag sd) = Ok sd"
  by (cases sd) (simp_all add: decode_side_tag_def)

lemma side_tag_byte [simp]: "side_tag sd < 256"
  by (cases sd) simp_all

lemma decode_stp_tag [simp]: "decode_stp_tag (stp_tag s) = Ok s"
  by (cases s) (simp_all add: decode_stp_tag_def)

lemma stp_tag_byte [simp]: "stp_tag s < 256"
  by (cases s) simp_all

lemmas reads_base = reads_u8 reads_u16 reads_u32 reads_u64 reads_i64 reads_return

end
