(* ===== verification/StateScan.thy ===== *)
theory StateScan
  imports StateImage
begin

text \<open>
  The bounded scan accepts the image of every well-formed book whose parts stay within the limits,
  and reports exactly its header and shape.
\<close>

section \<open>Well-formed parts\<close>

definition fill_typed :: "fill \<Rightarrow> bool" where
  "fill_typed f \<longleftrightarrow> maker_order f \<le> u64_max \<and> taker_order f \<le> u64_max \<and> maker_account f \<le> u32_max
     \<and> taker_account f \<le> u32_max \<and> fits I64 (fill_price f) \<and> fits I64 (fill_quantity f)"

definition record_ok :: "dedup_key \<times> match_result \<Rightarrow> bool" where
  "record_ok = (\<lambda>((account, client), r). account \<le> u32_max \<and> client \<le> u64_max
     \<and> (\<forall>f\<in>set (mr_fills r). fill_typed f) \<and> fits I64 (snd (outcome_code (mr_outcome r)))
     \<and> validate_cached_match_result account r = Ok ())"

definition level_wf :: "side \<Rightarrow> price \<times> node list \<Rightarrow> bool" where
  "level_wf sd = (\<lambda>(p, ns). 0 < p \<and> fits I64 p \<and> ns \<noteq> []
     \<and> (\<forall>n\<in>set ns. nd_side n = sd \<and> nd_price n = p \<and> 0 < nd_remaining n \<and> node_typed n)
     \<and> fits I64 (sum_list (map nd_remaining ns)))"

definition side_wf :: "side \<Rightarrow> (price \<times> node list) list \<Rightarrow> bool" where
  "side_wf sd ls \<longleftrightarrow> (\<forall>l\<in>set ls. level_wf sd l) \<and> sorted_wrt (<) (map fst ls)"

definition positions_wf :: "(account_id \<times> quantity) list \<Rightarrow> bool" where
  "positions_wf ps \<longleftrightarrow> (\<forall>(a, q)\<in>set ps. a \<le> u32_max \<and> fits I64 q) \<and> sorted_wrt (<) (map fst ps)"

definition parts_wf :: "book_parts \<Rightarrow> bool" where
  "parts_wf bp \<longleftrightarrow>
     cfg_capacity (bp_config bp) \<le> u32_max \<and> cfg_dedup_capacity (bp_config bp) \<le> u64_max
     \<and> cfg_max_basket_legs (bp_config bp) \<le> u64_max
     \<and> side_wf Bid (bp_bids bp) \<and> side_wf Ask (bp_asks bp)
     \<and> (\<forall>p\<in>fst ` set (bp_bids bp). \<forall>q\<in>fst ` set (bp_asks bp). p < q)
     \<and> level_orders (bp_bids bp) + level_orders (bp_asks bp) \<le> cfg_capacity (bp_config bp)
     \<and> positions_wf (bp_positions bp)
     \<and> (\<forall>rec\<in>set (bp_records bp). record_ok rec) \<and> distinct (map fst (bp_records bp))
     \<and> length (bp_records bp) \<le> cfg_dedup_capacity (bp_config bp)
     \<and> shape_size (image_shape bp) \<le> u64_max"

definition limits_admit :: "book_state_limits \<Rightarrow> book_parts \<Rightarrow> bool" where
  "limits_admit lim bp \<longleftrightarrow>
     shape_size (image_shape bp) \<le> max_encoded_bytes lim
     \<and> cfg_capacity (bp_config bp) \<le> max_capacity lim
     \<and> cfg_dedup_capacity (bp_config bp) \<le> max_dedup_capacity lim
     \<and> cfg_max_basket_legs (bp_config bp) \<le> max_basket_legs lim
     \<and> sh_levels (image_shape bp) \<le> max_price_levels lim
     \<and> sh_orders (image_shape bp) \<le> max_resting_orders lim
     \<and> sh_positions (image_shape bp) \<le> max_positions lim
     \<and> sh_dedup_records (image_shape bp) \<le> max_dedup_records lim
     \<and> (\<forall>(_, r)\<in>set (bp_records bp). length (mr_fills r) \<le> max_fills_per_result lim)
     \<and> sh_fills (image_shape bp) \<le> max_total_fills lim"

lemma check_limit_ok: "n \<le> limit \<Longrightarrow> n \<le> u64_max \<Longrightarrow> check_limit what n limit = Ok ()"
  by (simp add: check_limit_def limit_as_u64_def)

lemma add_count_ok:
  "c + n \<le> limit \<Longrightarrow> c + n \<le> u64_max \<Longrightarrow> add_count c n what limit = Ok (n, c + n)"
  by (simp add: add_count_def u64_as_usize_def usize_checked_def usize_as_u64_def check_limit_ok)

text \<open>One rule per kind of reader step: the step consumes its field and the rest goes on.\<close>

lemma reads_step:
  "x \<le> u64_max \<Longrightarrow> reads (f x) bs b \<Longrightarrow> reads (rd_bind rd_u64 f) (le_bytes 8 x @ bs) b"
  "x \<le> u32_max \<Longrightarrow> reads (f x) bs b \<Longrightarrow> reads (rd_bind rd_u32 f) (le_bytes 4 x @ bs) b"
  "x < 65536 \<Longrightarrow> reads (f x) bs b \<Longrightarrow> reads (rd_bind rd_u16 f) (le_bytes 2 x @ bs) b"
  "x < 256 \<Longrightarrow> reads (f x) bs b \<Longrightarrow> reads (rd_bind rd_u8 f) (le_bytes 1 x @ bs) b"
  "fits I64 y \<Longrightarrow> reads (f' y) bs b \<Longrightarrow> reads (rd_bind rd_i64 f') (le_i64 y @ bs) b"
  "c \<Longrightarrow> reads (g ()) bs b \<Longrightarrow> reads (rd_bind (rd_lift (guard c e)) g) bs b"
  "reads (h sd) bs b \<Longrightarrow> reads (rd_bind (rd_lift (decode_side_tag (side_tag sd))) h) bs b"
  "reads (k stp) bs b \<Longrightarrow> reads (rd_bind (rd_lift (decode_stp_tag (stp_tag stp))) k) bs b"
  "fits I64 y \<Longrightarrow> reads (f' y) bs b \<Longrightarrow> reads (rd_bind (rd_lift (ok_or (prim_checked I64 y) e)) f') bs b"
  "n \<le> lim \<Longrightarrow> n \<le> u64_max \<Longrightarrow> reads (g ()) bs b \<Longrightarrow> reads (rd_bind (rd_lift (check_limit what n lim)) g) bs b"
  "m + n \<le> lim \<Longrightarrow> m + n \<le> u64_max \<Longrightarrow> reads (j n (m + n)) bs b \<Longrightarrow>
     reads (rd_bind (rd_lift (add_count m n what lim)) (\<lambda>(c, t). j c t)) bs b"
  "x \<le> u64_max \<Longrightarrow> reads (f x) bs b \<Longrightarrow> reads (rd_bind (rd_lift (u64_as_usize what x)) f) bs b"
  by (auto simp: prim_checked_def check_limit_ok add_count_ok u64_as_usize_def
      simp del: le_bytes.simps One_nat_def intro: reads_bind reads_lift reads_base)

section \<open>Orders and levels\<close>

lemma sum_remaining_bounds:
  assumes "\<forall>n\<in>set (n # ns). 0 < nd_remaining n" and "0 \<le> q"
    and "fits I64 (q + sum_list (map nd_remaining (n # ns)))"
  shows "fits I64 (q + nd_remaining n)"
proof -
  have "0 \<le> sum_list (map nd_remaining ns)"
    using assms(1) by (intro sum_list_nonneg) auto
  moreover have "0 < nd_remaining n" using assms(1) by simp
  ultimately show ?thesis
    using fits_nonneg_le [OF assms(3), of "q + nd_remaining n"] assms(2) by simp
qed

lemma reads_scan_orders:
  assumes "\<forall>n\<in>set ns. nd_side n = sd \<and> nd_price n = p \<and> 0 < nd_remaining n \<and> node_typed n"
    and "0 \<le> q" and "fits I64 (q + sum_list (map nd_remaining ns))"
  shows "reads (scan_orders (length ns) sd p q) (concat (map node_bytes ns)) ()"
  using assms
proof (induction ns arbitrary: q)
  case Nil
  then show ?case by (simp add: reads_return)
next
  case (Cons n ns)
  have n: "nd_order_id n \<le> u64_max" "nd_account n \<le> u32_max" "nd_client_id n \<le> u64_max"
    "fits I64 (nd_price n)" "fits I64 (nd_remaining n)" "0 < nd_remaining n" "nd_side n = sd" "nd_price n = p"
    using Cons.prems(1) by (auto simp: node_typed_def)
  have q: "fits I64 (q + nd_remaining n)"
    using sum_remaining_bounds [OF _ Cons.prems(2,3)] Cons.prems(1) by auto
  have "reads (scan_orders (length ns) sd p (q + nd_remaining n)) (concat (map node_bytes ns)) ()"
    using Cons.prems n by (intro Cons.IH) (auto simp: add.assoc)
  then show ?case
    using n q unfolding list.map concat.simps list.size add_Suc_right scan_orders.simps node_bytes_def append_assoc
      n(7,8) [symmetric] by (intro reads_step) simp_all
qed

lemma last_price_step: "(case prev of None \<Rightarrow> True | Some x \<Rightarrow> x < p) \<longleftrightarrow> (\<forall>x. prev = Some x \<longrightarrow> x < p)"
  by (cases prev) auto

lemma reads_scan_levels:
  assumes "side_wf sd ls" and "\<And>x p. prev = Some x \<Longrightarrow> p \<in> fst ` set ls \<Longrightarrow> x < p"
    and "orders + level_orders ls \<le> cap" and "cap \<le> u32_max"
    and "orders + level_orders ls \<le> max_resting_orders lim"
  shows "reads (scan_levels_v3 (length ls) sd cap lim orders first prev) (concat (map level_image ls))
    (orders + level_orders ls,
     (if ls = [] then first else Some (case first of None \<Rightarrow> fst (hd ls) | Some q \<Rightarrow> q)),
     (if ls = [] then prev else Some (fst (last ls))))"
  using assms
proof (induction ls arbitrary: orders first prev)
  case Nil
  then show ?case by (simp add: reads_return level_orders_def)
next
  case (Cons l ls)
  obtain p ns where l: "l = (p, ns)" by fastforce
  have wf: "0 < p" "fits I64 p" "ns \<noteq> []" "fits I64 (sum_list (map nd_remaining ns))"
    "\<forall>n\<in>set ns. nd_side n = sd \<and> nd_price n = p \<and> 0 < nd_remaining n \<and> node_typed n"
    using Cons.prems(1) by (auto simp: side_wf_def level_wf_def l)
  have sz: "level_orders ((p, ns) # ls) = length ns + level_orders ls"
    by (simp add: level_orders_def)
  have u: "u32_max \<le> u64_max" by (simp add: u32_max_def u64_max_def)
  have prev: "\<forall>x. prev = Some x \<longrightarrow> x < p"
    using Cons.prems(2) [of _ p] by (auto simp: l)
  let ?first = "Some (case first of None \<Rightarrow> p | Some q \<Rightarrow> q)"
  let ?out = "(orders + level_orders ((p, ns) # ls), ?first, Some (if ls = [] then p else fst (last ls)))"
  have "reads (scan_levels_v3 (length ls) sd cap lim (orders + length ns) ?first (Some p)) (concat (map level_image ls))
    (orders + length ns + level_orders ls,
     (if ls = [] then ?first else Some (case ?first of None \<Rightarrow> fst (hd ls) | Some q \<Rightarrow> q)),
     (if ls = [] then Some p else Some (fst (last ls))))"
    using Cons.prems by (intro Cons.IH) (auto simp: sz side_wf_def l)
  moreover have "(orders + length ns + level_orders ls,
     (if ls = [] then ?first else Some (case ?first of None \<Rightarrow> fst (hd ls) | Some q \<Rightarrow> q)),
     (if ls = [] then Some p else Some (fst (last ls)))) = ?out"
    by (simp add: sz)
  ultimately have IH: "reads (scan_levels_v3 (length ls) sd cap lim (orders + length ns) ?first (Some p))
      (concat (map level_image ls)) ?out"
    by (simp only:)
  have orders: "reads (scan_orders (length ns) sd p 0) (concat (map node_bytes ns)) ()"
    using wf by (intro reads_scan_orders) simp_all
  have "reads (scan_levels_v3 (Suc (length ls)) sd cap lim orders first prev)
      (le_i64 p @ le_bytes 8 (length ns) @ concat (map node_bytes ns) @ concat (map level_image ls)) ?out"
    unfolding scan_levels_v3.simps last_price_step
    using Cons.prems(3-5) wf prev u
    by (intro reads_step reads_bind [OF orders IH]) (simp_all add: l sz)
  then show ?case
    by (cases "ls = []") (simp_all add: l level_image_def del: scan_levels_v3.simps cong: option.case_cong)
qed

lemma reads_scan_side:
  assumes "side_wf sd ls" and "sh_orders sh + level_orders ls \<le> cap" and "cap \<le> u32_max"
    and "sh_orders sh + level_orders ls \<le> max_resting_orders lim"
    and "sh_levels sh + length ls \<le> max_price_levels lim" and "sh_levels sh + length ls \<le> u64_max"
  shows "reads (scan_state_side sd cap lim sh) (side_image ls)
    (sh\<lparr>sh_levels := sh_levels sh + length ls, sh_orders := sh_orders sh + level_orders ls\<rparr>,
     (if ls = [] then None else Some (fst (hd ls))), (if ls = [] then None else Some (fst (last ls))))"
proof -
  have lv: "reads (scan_levels_v3 (length ls) sd cap lim (sh_orders sh) None None) (concat (map level_image ls))
    (sh_orders sh + level_orders ls,
     (if ls = [] then None else Some (fst (hd ls))), (if ls = [] then None else Some (fst (last ls))))"
    using reads_scan_levels [OF assms(1) _ assms(2,3,4), of None None] by (simp only: option.simps)
  show ?thesis
    unfolding scan_state_side_def side_image_def
    using assms by (intro reads_step reads_last [OF lv]) (simp_all add: reads_return)
qed

section \<open>Cached results\<close>

lemma reads_record:
  "reads (rd_return \<lparr>maker_order = maker_order f, taker_order = taker_order f, maker_account = maker_account f,
     taker_account = taker_account f, fill_price = fill_price f, fill_quantity = fill_quantity f,
     taker_side = taker_side f\<rparr>) [] f"
  by (cases f) (simp add: reads_return)

lemma reads_fill: "fill_typed f \<Longrightarrow> reads read_fill (fill_bytes f) f"
proof -
  assume f: "fill_typed f"
  have "reads read_fill (fill_bytes f @ []) f"
    unfolding read_fill_def fill_bytes_def append_assoc
    using f by (intro reads_step) (simp_all add: fill_typed_def reads_record)
  then show ?thesis by simp
qed

definition forget :: "fill_walk \<Rightarrow> fill_walk" where
  "forget s = s\<lparr>fw_makers := {}\<rparr>"

lemma check_scan_fill: "check_cached_fill a f s = Ok s' \<Longrightarrow> scan_fill a f (forget s) = Ok (forget s')"
  by (auto simp: check_cached_fill_def scan_fill_def forget_def and_then_Inr_iff prim_checked_def
      split: if_splits)

lemma reads_scan_fills:
  assumes "\<forall>f\<in>set fs. fill_typed f" and "try_fold (check_cached_fill a) fs s = Ok s'"
  shows "reads (scan_fills (length fs) a (forget s)) (concat (map fill_bytes fs)) (forget s')"
  using assms
proof (induction fs arbitrary: s)
  case Nil
  then show ?case by (simp add: reads_return)
next
  case (Cons f fs)
  then obtain s1 where s1: "check_cached_fill a f s = Ok s1" "try_fold (check_cached_fill a) fs s1 = Ok s'"
    by (auto simp: and_then_Inr_iff)
  then have "reads (scan_fills (length fs) a (forget s1)) (concat (map fill_bytes fs)) (forget s')"
    using Cons by simp
  then show ?case
    using Cons.prems(1) reads_bind [OF reads_fill] reads_lift check_scan_fill [OF s1(1)]
    by (simp add: reads_bind [OF reads_fill] reads_lift)
qed

lemma forget_start [simp]: "forget fill_walk_start = fill_walk_start"
  by (simp add: forget_def fill_walk_start_def)

lemma scan_outcome_valid:
  assumes "valid_outcome r filled"
  shows "scan_outcome (length (mr_fills r)) filled (fst (outcome_code (mr_outcome r)))
    (snd (outcome_code (mr_outcome r))) = Ok ()"
  using assms by (auto simp: valid_outcome_def scan_outcome_def prim_checked_def split: order_outcome.splits)

lemma outcome_tag_byte: "fst (outcome_code oc) < 256"
  by (cases oc) simp_all

lemma reads_scan_result:
  assumes ok: "record_ok ((account, client), r)" and "length (mr_fills r) \<le> max_fills_per_result lim"
    and "tot + length (mr_fills r) \<le> max_total_fills lim" and "tot + length (mr_fills r) \<le> u64_max"
  shows "reads (scan_match_result account lim tot) (result_image r) (tot + length (mr_fills r))"
proof -
  have typed: "\<forall>f\<in>set (mr_fills r). fill_typed f" "fits I64 (snd (outcome_code (mr_outcome r)))"
    using ok by (simp_all add: record_ok_def)
  obtain s where s: "try_fold (check_cached_fill account) (mr_fills r) fill_walk_start = Ok s"
    "valid_outcome r (fw_filled s)"
    using ok by (auto simp: record_ok_def validate_cached_match_result_def and_then_Inr_iff)
  have fills: "reads (scan_fills (length (mr_fills r)) account fill_walk_start) (concat (map fill_bytes (mr_fills r))) (forget s)"
    using reads_scan_fills [OF typed(1) s(1)] by simp
  have tag: "scan_outcome (length (mr_fills r)) (fw_filled (forget s)) (fst (outcome_code (mr_outcome r)))
      (snd (outcome_code (mr_outcome r))) = Ok ()"
    using scan_outcome_valid [OF s(2)] by (simp add: forget_def)
  have "reads (scan_match_result account lim tot) (result_image r @ []) (tot + length (mr_fills r))"
    unfolding scan_match_result_def result_image_def append_assoc
    using assms typed(2) outcome_tag_byte
    by (intro reads_step reads_bind [OF fills]) (simp_all add: tag reads_lift reads_return)
  then show ?thesis by simp
qed

section \<open>The whole image\<close>

lemma reads_scan_positions:
  assumes "positions_wf ps" and "\<And>a x. prev = Some a \<Longrightarrow> x \<in> fst ` set ps \<Longrightarrow> a < x"
  shows "reads (scan_positions (length ps) prev) (concat (map position_bytes ps)) ()"
  using assms
proof (induction ps arbitrary: prev)
  case Nil
  then show ?case by (simp add: reads_return)
next
  case (Cons pq ps)
  obtain a q where pq: "pq = (a, q)" by fastforce
  have wf: "a \<le> u32_max" "fits I64 q" "positions_wf ps" "\<forall>x\<in>fst ` set ps. a < x"
    using Cons.prems(1) by (auto simp: positions_wf_def pq)
  have prev: "\<forall>x. prev = Some x \<longrightarrow> x < a"
    using Cons.prems(2) by (auto simp: pq)
  have "reads (scan_positions (length ps) (Some a)) (concat (map position_bytes ps)) ()"
    using wf by (intro Cons.IH) auto
  then have "reads (scan_positions (Suc (length ps)) prev) (le_bytes 4 a @ le_i64 q @ concat (map position_bytes ps)) ()"
    unfolding scan_positions.simps last_price_step using wf prev by (intro reads_step) simp_all
  then show ?case
    by (simp add: pq position_bytes_def del: scan_positions.simps)
qed

lemma record_fills_Cons [simp]:
  "record_fills ((k, r) # recs) = length (mr_fills r) + record_fills recs" "record_fills [] = 0"
  by (simp_all add: record_fills_def)

lemma reads_scan_records:
  assumes "\<forall>rec\<in>set recs. record_ok rec" and "\<forall>(_, r)\<in>set recs. length (mr_fills r) \<le> max_fills_per_result lim"
    and "tot + record_fills recs \<le> max_total_fills lim" and "tot + record_fills recs \<le> u64_max"
  shows "reads (scan_records (length recs) lim tot) (concat (map record_image recs)) (tot + record_fills recs)"
  using assms
proof (induction recs arbitrary: tot)
  case Nil
  then show ?case by (simp add: reads_return)
next
  case (Cons rec recs)
  obtain a c r where rec: "rec = ((a, c), r)" by (metis prod.collapse)
  have ok: "record_ok ((a, c), r)" using Cons.prems(1) by (simp add: rec)
  then have ac: "a \<le> u32_max" "c \<le> u64_max" by (simp_all add: record_ok_def)
  have res: "reads (scan_match_result a lim tot) (result_image r) (tot + length (mr_fills r))"
    using Cons.prems ok by (intro reads_scan_result) (auto simp: rec)
  have IH: "reads (scan_records (length recs) lim (tot + length (mr_fills r))) (concat (map record_image recs))
      (tot + length (mr_fills r) + record_fills recs)"
    using Cons.prems by (intro Cons.IH) (auto simp: rec)
  have "reads (scan_records (Suc (length recs)) lim tot)
      (le_bytes 4 a @ le_bytes 8 c @ result_image r @ concat (map record_image recs))
      (tot + length (mr_fills r) + record_fills recs)"
    unfolding scan_records.simps using ac by (intro reads_step reads_bind [OF res] IH)
  then show ?case
    by (simp add: rec record_image_def add.assoc del: scan_records.simps)
qed

definition image_header :: "book_config \<Rightarrow> decoded_header" where
  "image_header cfg = \<lparr>dh_capacity = cfg_capacity cfg, dh_stp = cfg_stp cfg,
     dh_dedup_capacity = cfg_dedup_capacity cfg, dh_max_basket_legs = cfg_max_basket_legs cfg\<rparr>"

lemma u32_u64: "x \<le> u32_max \<Longrightarrow> x \<le> u64_max"
  by (simp add: u32_max_def u64_max_def)

lemma reads_scan_header:
  assumes "parts_wf bp" and "limits_admit lim bp"
  shows "reads (scan_header lim) (header_image (bp_config bp)) (image_header (bp_config bp))"
proof -
  have "reads (scan_header lim) (header_image (bp_config bp) @ []) (image_header (bp_config bp))"
    unfolding scan_header_def header_image_def append_assoc
    using assms
    by (intro reads_step)
      (simp_all add: parts_wf_def limits_admit_def BOOK_TRANSITION_ROOT_SCHEMA_VERSION_def u32_u64
        image_header_def reads_return)
  then show ?thesis by simp
qed

lemma uncrossed_ends:
  assumes "\<forall>p\<in>fst ` set bids. \<forall>q\<in>fst ` set asks. p < (q :: price)"
  shows "case ((if bids = [] then None else Some (fst (last bids))), (if asks = [] then None else Some (fst (hd asks))))
    of (Some d, Some a) \<Rightarrow> d < a | _ \<Rightarrow> True"
  using assms last_in_set [of bids] hd_in_set [of asks] by auto

lemma shape_counts:
  assumes "shape_size sh \<le> u64_max"
  shows "sh_levels sh \<le> u64_max" "sh_orders sh \<le> u64_max" "sh_positions sh \<le> u64_max"
    "sh_dedup_records sh \<le> u64_max" "sh_fills sh \<le> u64_max"
  using assms by (simp_all add: shape_size_def)

lemma reads_bind3:
  "reads m bs (x, y, z) \<Longrightarrow> reads (f x y z) bs' a \<Longrightarrow> reads (rd_bind m (\<lambda>(x, y, z). f x y z)) (bs @ bs') a"
  by (drule reads_bind [of m bs "(x, y, z)" "\<lambda>(x, y, z). f x y z"]) simp_all

lemma reads_scan_body:
  assumes wf: "parts_wf bp" and adm: "limits_admit lim bp"
  shows "reads (scan_body lim (image_header (bp_config bp)))
    (side_image (bp_bids bp) @ side_image (bp_asks bp) @ tail_image (bp_positions bp) (bp_records bp))
    (image_shape bp)"
proof -
  let ?sh0 = "\<lparr>sh_levels = 0, sh_orders = 0, sh_positions = 0, sh_dedup_records = 0, sh_fills = 0\<rparr>"
  let ?sh1 = "?sh0\<lparr>sh_levels := length (bp_bids bp), sh_orders := level_orders (bp_bids bp)\<rparr>"
  note counts = shape_counts [of "image_shape bp"]
  have size: "shape_size (image_shape bp) \<le> u64_max" and cap: "cfg_capacity (bp_config bp) \<le> u32_max"
    using wf by (simp_all add: parts_wf_def)
  have bids: "reads (scan_state_side Bid (cfg_capacity (bp_config bp)) lim ?sh0) (side_image (bp_bids bp))
    (?sh1, (if bp_bids bp = [] then None else Some (fst (hd (bp_bids bp)))),
     (if bp_bids bp = [] then None else Some (fst (last (bp_bids bp)))))"
    using reads_scan_side [of Bid "bp_bids bp" ?sh0 "cfg_capacity (bp_config bp)" lim] wf adm counts [OF size]
    by (simp add: parts_wf_def limits_admit_def image_shape_def)
  have asks: "reads (scan_state_side Ask (cfg_capacity (bp_config bp)) lim ?sh1) (side_image (bp_asks bp))
    (?sh1\<lparr>sh_levels := sh_levels (image_shape bp), sh_orders := sh_orders (image_shape bp)\<rparr>,
     (if bp_asks bp = [] then None else Some (fst (hd (bp_asks bp)))),
     (if bp_asks bp = [] then None else Some (fst (last (bp_asks bp)))))"
    using reads_scan_side [of Ask "bp_asks bp" ?sh1 "cfg_capacity (bp_config bp)" lim] wf adm counts [OF size]
    by (simp add: parts_wf_def limits_admit_def image_shape_def)
  have ps: "reads (scan_positions (0 + length (bp_positions bp)) None) (concat (map position_bytes (bp_positions bp))) ()"
    using wf reads_scan_positions [of "bp_positions bp" None] by (simp add: parts_wf_def)
  have recs: "reads (scan_records (0 + length (bp_records bp)) lim 0) (concat (map record_image (bp_records bp)))
      (0 + record_fills (bp_records bp))"
    unfolding add_0 [of "length (bp_records bp)"] using wf adm counts [OF size]
    by (intro reads_scan_records) (auto simp: parts_wf_def limits_admit_def image_shape_def)
  have cross: "case ((if bp_bids bp = [] then None else Some (fst (last (bp_bids bp)))),
      (if bp_asks bp = [] then None else Some (fst (hd (bp_asks bp))))) of (Some d, Some a) \<Rightarrow> d < a | _ \<Rightarrow> True"
    using wf by (intro uncrossed_ends) (simp add: parts_wf_def)
  have tail: "reads (rd_bind rd_u64 (\<lambda>position_count.
      rd_bind (rd_lift (add_count 0 position_count ''positions'' (max_positions lim))) (\<lambda>(_, positions).
      rd_bind (scan_positions positions None) (\<lambda>_. rd_bind rd_u64 (\<lambda>dedup_count.
      rd_bind (rd_lift (add_count 0 dedup_count ''dedup records'' (max_dedup_records lim))) (\<lambda>(_, records).
      rd_bind (rd_lift (guard (records \<le> cfg_dedup_capacity (bp_config bp)) e)) (\<lambda>_.
      rd_bind (scan_records records lim 0) (\<lambda>fills.
        rd_return (sh\<lparr>sh_positions := positions, sh_dedup_records := records, sh_fills := fills\<rparr>)))))))))
      (tail_image (bp_positions bp) (bp_records bp))
      (sh\<lparr>sh_positions := length (bp_positions bp), sh_dedup_records := length (bp_records bp),
          sh_fills := record_fills (bp_records bp)\<rparr>)" for e and sh :: state_shape
    unfolding tail_image_def using wf adm counts [OF size]
    by (intro reads_step reads_bind [OF ps] reads_last [OF recs])
      (simp_all add: parts_wf_def limits_admit_def image_shape_def reads_return)
  have shape: "?sh1\<lparr>sh_levels := sh_levels (image_shape bp), sh_orders := sh_orders (image_shape bp),
      sh_positions := length (bp_positions bp), sh_dedup_records := length (bp_records bp),
      sh_fills := record_fills (bp_records bp)\<rparr> = image_shape bp"
    by (simp add: image_shape_def)
  note tail' = tail [where sh = "?sh1\<lparr>sh_levels := sh_levels (image_shape bp), sh_orders := sh_orders (image_shape bp)\<rparr>",
      unfolded shape]
  show ?thesis
    unfolding scan_body_def image_header_def decoded_header.simps
    by (rule reads_bind3 [OF bids], rule reads_bind3 [OF asks], rule reads_step(6), rule cross, rule tail')
qed

lemma scan_image:
  assumes "parts_wf bp" and "limits_admit lim bp"
  shows "scan_state_v3 (book_image bp) lim = Ok (image_header (bp_config bp), image_shape bp)"
proof -
  let ?r = "reader_new (book_image bp)" and ?h = "header_image (bp_config bp)"
  let ?rest = "side_image (bp_bids bp) @ side_image (bp_asks bp) @ tail_image (bp_positions bp) (bp_records bp)"
  have total: "length ?h + length ?rest = length (book_image bp)"
    by (simp add: book_image_def)
  have header: "scan_header lim ?r = Ok (image_header (bp_config bp), adv ?r (length ?h))"
    by (rule readsD [OF reads_scan_header [OF assms]]) (simp add: book_image_def)
  have "scan_body lim (image_header (bp_config bp)) (adv ?r (length ?h)) =
      Ok (image_shape bp, adv (adv ?r (length ?h)) (length ?rest))"
    by (rule readsD [OF reads_scan_body [OF assms], of _ "[]"]) (simp add: book_image_def)
  then have body: "scan_body lim (image_header (bp_config bp)) (adv ?r (length ?h)) =
      Ok (image_shape bp, adv ?r (length (book_image bp)))"
    by (simp only: adv_adv total)
  have "rd_finish (adv ?r (length (book_image bp))) = Ok ()"
    by (simp add: rd_finish_def adv_def reader_new_def)
  with header body assms show ?thesis
    by (simp add: scan_state_v3_def encoded_len_eq length_book_image parts_wf_def limits_admit_def)
qed

end
