(* ===== verification/StateEncode.thy ===== *)
theory StateEncode
  imports StateScan BookQueries
begin

text \<open>
  What the encoder writes for a book that satisfies the invariant: every check it makes on the way
  succeeds, and the bytes are the image of the book's configuration, levels, positions and replay
  records.
\<close>

unbundle bit_operations_syntax

section \<open>Walking one level\<close>

lemma validate_chain_linked:
  assumes "linked (slab_get sl) prev ys NIL" and "NIL \<notin> set ys"
    and "\<And>y. y \<in> set ys \<Longrightarrow> \<exists>n. slab_get sl y = Some n \<and> nd_side n = sd \<and> nd_price n = p \<and> 0 < nd_remaining n"
    and "seen + length ys \<le> live sl" and "0 \<le> qty" and "fits I64 (qty + sum_list (map (qty_at sl) ys))"
    and "nodes + length ys \<le> u64_max"
    and "try_fold (\<lambda>y. visit y (the (slab_get sl y))) ys s = Ok s'"
  shows "validate_chain sl sd p visit (first_of ys NIL) prev seen qty nodes s =
    Ok (last_of prev ys, seen + length ys, qty + sum_list (map (qty_at sl) ys), nodes + length ys, s')"
  using assms
proof (induction ys arbitrary: prev seen qty nodes s)
  case Nil
  then show ?case by (simp add: validate_chain.simps)
next
  case (Cons y ys)
  obtain n where n: "slab_get sl y = Some n" "nd_side n = sd" "nd_price n = p" "0 < nd_remaining n"
    "nd_prev n = prev" "nd_next n = first_of ys NIL" "linked (slab_get sl) y ys NIL"
    using Cons.prems(1,3) by fastforce
  have q: "qty_at sl y = nd_remaining n"
    using n(1) by (simp add: qty_at_def contents_def)
  obtain s1 where s1: "visit y n s = Ok s1" "try_fold (\<lambda>y. visit y (the (slab_get sl y))) ys s1 = Ok s'"
    using Cons.prems(8) n(1) by (auto simp: and_then_Inr_iff)
  have "0 \<le> qty_at sl z" if "z \<in> set ys" for z
    using Cons.prems(3) [of z] that by (auto simp: qty_at_def contents_def)
  then have "0 \<le> sum_list (map (qty_at sl) ys)"
    by (intro sum_list_nonneg) auto
  then have "fits I64 (qty + nd_remaining n)"
    using fits_nonneg_le [OF Cons.prems(6), of "qty + nd_remaining n"] Cons.prems(5) n(4) q by simp
  moreover have "validate_chain sl sd p visit (first_of ys NIL) y (Suc seen) (qty + nd_remaining n) (nodes + 1) s1 =
    Ok (last_of y ys, Suc seen + length ys, qty + nd_remaining n + sum_list (map (qty_at sl) ys), nodes + 1 + length ys, s')"
    using Cons.prems n q s1 by (intro Cons.IH) (auto simp: add.assoc)
  ultimately show ?case
    using Cons.prems n q s1
    by (subst validate_chain.simps)
      (simp add: scalar_checked_add_def prim_checked_def usize_checked_def add.assoc)
qed

section \<open>Visiting the nodes of the book\<close>

definition node_at :: "order_book \<Rightarrow> nat \<Rightarrow> node" where
  "node_at b x = the (slab_get (bk_slab b) x)"

definition push_account :: "node \<Rightarrow> (account_id, order_id list) omap \<Rightarrow> (account_id, order_id list) omap" where
  "push_account n m = omap_put (nd_account n) (account_ids m (nd_account n) @ [nd_order_id n]) m"

definition gw_at :: "sha256 \<Rightarrow> order_book \<Rightarrow> bytes option \<Rightarrow> nat list \<Rightarrow> graph_walk" where
  "gw_at sha b w xs =
     \<lparr>gw_writer = w, gw_slots = set xs, gw_ids = nd_order_id ` node_at b ` set xs,
      gw_accounts = fold push_account (map (node_at b) xs) omap_empty,
      gw_xor = xor_all (map (order_leaf sha \<circ> node_at b) xs)\<rparr>"

lemma live_node_at:
  assumes "x \<in> dom (live_orders b)"
  shows "slab_get (bk_slab b) x = Some (node_at b x)" and "live_orders b x = Some (payload (node_at b x))"
  using assms by (auto simp: live_orders_def contents_def node_at_def)

lemma visit_node_at:
  assumes rep: "book_rep sha b Q" and x: "x \<in> dom (live_orders b)" "x \<notin> set xs" and xs: "set xs \<subseteq> dom (live_orders b)"
  shows "visit_node sha b x (node_at b x) (gw_at sha b w xs) =
    Ok (gw_at sha b (map_option (\<lambda>w. w @ node_bytes (node_at b x)) w) (xs @ [x]))"
proof -
  have idx: "index_ok (live_orders b) (bk_id_index b)"
    using rep by (simp add: book_rep_def)
  have "nd_order_id (node_at b x) \<noteq> nd_order_id (node_at b y)" if "y \<in> set xs" for y
  proof
    assume "nd_order_id (node_at b x) = nd_order_id (node_at b y)"
    then have "x = y"
      using index_ok_unique [OF idx live_node_at(2) [OF x(1)] live_node_at(2), of y] that xs by auto
    with x(2) that show False by simp
  qed
  moreover have "omap_get (bk_id_index b) (nd_order_id (node_at b x)) =
      Some \<lparr>loc_slot = x, loc_side = nd_side (node_at b x), loc_account = nd_account (node_at b x)\<rparr>"
    using index_ok_node [OF idx live_node_at(2) [OF x(1)]] by simp
  ultimately show ?thesis
    using x(2)
    by (auto simp: visit_node_def gw_at_def gw_write_def push_account_def account_ids_def xor_all_append Let_def
        split: option.splits)
qed

lemma visit_nodes:
  assumes rep: "book_rep sha b Q" and "distinct (xs @ ys)" and "set (xs @ ys) \<subseteq> dom (live_orders b)"
  shows "try_fold (\<lambda>y. visit_node sha b y (the (slab_get (bk_slab b) y))) ys (gw_at sha b w xs) =
    Ok (gw_at sha b (map_option (\<lambda>w. w @ concat (map (node_bytes \<circ> node_at b) ys)) w) (xs @ ys))"
  using assms(2,3)
proof (induction ys arbitrary: xs w)
  case Nil
  then show ?case by (simp add: option.map_ident)
next
  case (Cons y ys)
  have "visit_node sha b y (node_at b y) (gw_at sha b w xs) =
    Ok (gw_at sha b (map_option (\<lambda>w. w @ node_bytes (node_at b y)) w) (xs @ [y]))"
    using Cons.prems by (intro visit_node_at [OF rep]) auto
  then show ?case
    using Cons.IH [of "xs @ [y]"] Cons.prems by (simp add: node_at_def option.map_comp comp_def)
qed

section \<open>Levels and sides\<close>

definition level_nodes :: "order_book \<Rightarrow> queues \<Rightarrow> side \<Rightarrow> price \<Rightarrow> price \<times> node list" where
  "level_nodes b Q sd p = (p, map (payload \<circ> node_at b) (Q sd p))"

definition side_levels :: "order_book \<Rightarrow> queues \<Rightarrow> side \<Rightarrow> (price \<times> node list) list" where
  "side_levels b Q sd = map (level_nodes b Q sd) (omap_keys (sb_levels (side_of sd b)))"

lemma node_bytes_payload [simp]: "node_bytes (payload n) = node_bytes n"
  by (simp add: node_bytes_def)

lemma queue_live: "book_rep sha b Q \<Longrightarrow> set (Q sd p) \<subseteq> dom (live_orders b)"
  by (auto simp: book_rep_def queued_def)

lemma live_le_capacity: "book_rep sha b Q \<Longrightarrow> live (bk_slab b) \<le> cfg_capacity (bk_config b)"
  by (auto simp: book_rep_def slab_wf_def intro: order_trans [OF length_filter_le])

lemma validate_level_rep:
  assumes rep: "book_rep sha b Q" and lv: "omap_get (sb_levels (side_of sd b)) p = Some lv"
    and fresh: "distinct (xs @ Q sd p)" "set xs \<subseteq> dom (live_orders b)"
    and bound: "nodes + length (Q sd p) \<le> u64_max"
  shows "validate_level (bk_slab b) sd visit_level (visit_node sha b) (p, lv) (nodes, gw_at sha b w xs) =
    Ok (nodes + length (Q sd p),
        gw_at sha b (map_option (\<lambda>w. w @ level_image (level_nodes b Q sd p)) w) (xs @ Q sd p))"
proof -
  have side: "side_rep (bk_slab b) sd (side_of sd b) (Q sd)"
    using rep by (rule book_rep_side)
  have q: "queue_ok (bk_slab b) sd p (Q sd p)"
    using side by (rule side_rep_queue)
  have l: "Q sd p \<noteq> []" "lv_head lv = hd (Q sd p)" "lv_tail lv = last (Q sd p)" "lv_count lv = length (Q sd p)"
    "lv_total_qty lv = sum_list (map (qty_at (bk_slab b)) (Q sd p))" "fits I64 (lv_total_qty lv)"
    using side_rep_level [OF side, of p] lv by (auto simp: level_ok_def)
  have nil: "NIL \<notin> set (Q sd p)"
    using queue_no_NIL [OF book_rep_wf [OF rep] q] .
  let ?w = "map_option (\<lambda>w. w @ (le_i64 p @ le_bytes 8 (length (Q sd p)))) w"
  have visits: "try_fold (\<lambda>y. visit_node sha b y (the (slab_get (bk_slab b) y))) (Q sd p) (gw_at sha b ?w xs) =
    Ok (gw_at sha b (map_option (\<lambda>w. w @ concat (map (node_bytes \<circ> node_at b) (Q sd p))) ?w) (xs @ Q sd p))"
    using fresh queue_live [OF rep, of sd p] by (intro visit_nodes [OF rep]) auto
  have "validate_chain (bk_slab b) sd p (visit_node sha b) (first_of (Q sd p) NIL) NIL 0 0 nodes (gw_at sha b ?w xs) =
    Ok (last_of NIL (Q sd p), 0 + length (Q sd p), 0 + sum_list (map (qty_at (bk_slab b)) (Q sd p)),
      nodes + length (Q sd p), gw_at sha b (map_option (\<lambda>w. w @ concat (map (node_bytes \<circ> node_at b) (Q sd p))) ?w) (xs @ Q sd p))"
    using q nil queue_length_le [OF rep, of sd p] l(5,6) bound queue_slot [OF q]
    by (intro validate_chain_linked visits) (auto simp: queue_ok_def)
  moreover have "visit_level p (lv_count lv) (gw_at sha b w xs) = Ok (gw_at sha b ?w xs)"
    by (simp add: visit_level_def gw_write_def gw_at_def l(4))
  moreover have "hd (Q sd p) \<noteq> NIL" "0 < p"
    using hd_not_NIL [OF nil l(1)] side l(1) by (auto simp: side_rep_def)
  ultimately show ?thesis
    using l by (simp add: validate_level_def first_of_def last_of_def level_image_def level_nodes_def
        option.map_comp comp_def)
qed

lemma validate_levels_rep:
  assumes rep: "book_rep sha b Q" and "set ls \<subseteq> set (entries (sb_levels (side_of sd b)))"
    and "distinct (xs @ concat (map (Q sd) (map fst ls)))" and "set xs \<subseteq> dom (live_orders b)"
    and "nodes + length (concat (map (Q sd) (map fst ls))) \<le> u64_max"
  shows "try_fold (validate_level (bk_slab b) sd visit_level (visit_node sha b)) ls (nodes, gw_at sha b w xs) =
    Ok (nodes + length (concat (map (Q sd) (map fst ls))),
        gw_at sha b (map_option (\<lambda>w. w @ concat (map level_image (map (level_nodes b Q sd) (map fst ls)))) w)
          (xs @ concat (map (Q sd) (map fst ls))))"
  using assms(2-5)
proof (induction ls arbitrary: nodes w xs)
  case Nil
  then show ?case by (simp add: option.map_ident)
next
  case (Cons l ls)
  obtain p lv where l: "l = (p, lv)" by fastforce
  have "omap_get (sb_levels (side_of sd b)) p = Some lv"
    using Cons.prems(1) by (simp add: l om.in_iter_iff)
  then have step: "validate_level (bk_slab b) sd visit_level (visit_node sha b) (p, lv) (nodes, gw_at sha b w xs) =
    Ok (nodes + length (Q sd p),
        gw_at sha b (map_option (\<lambda>w. w @ level_image (level_nodes b Q sd p)) w) (xs @ Q sd p))"
    using Cons.prems by (intro validate_level_rep [OF rep]) (auto simp: l)
  show ?case
    using Cons.IH [of "xs @ Q sd p" "nodes + length (Q sd p)"] Cons.prems queue_live [OF rep, of sd p]
    by (simp add: l step option.map_comp comp_def add.assoc)
qed

lemma validate_reachable_rep:
  assumes rep: "book_rep sha b Q" and "distinct (xs @ canonical_slots (side_of sd b) (Q sd))"
    and "set xs \<subseteq> dom (live_orders b)" and "length (canonical_slots (side_of sd b) (Q sd)) \<le> u64_max"
  shows "validate_reachable (side_of sd b) (bk_slab b) sd visit_level (visit_node sha b) (gw_at sha b w xs) =
    Ok (length (canonical_slots (side_of sd b) (Q sd)),
        gw_at sha b (map_option (\<lambda>w. w @ concat (map level_image (side_levels b Q sd))) w)
          (xs @ canonical_slots (side_of sd b) (Q sd)))"
proof -
  have "sb_side (side_of sd b) = sd"
    using book_rep_side [OF rep, of sd] by (simp add: side_rep_def)
  then show ?thesis
    using validate_levels_rep [OF rep, of "entries (sb_levels (side_of sd b))" sd xs 0 w] assms(2-4)
    by (simp add: validate_reachable_def canonical_slots_def side_levels_def omap_keys_def)
qed

section \<open>The derived indexes\<close>

lemma try_fold_unit: "(\<And>x. x \<in> set xs \<Longrightarrow> f x () = Ok ()) \<Longrightarrow> try_fold f xs () = Ok ()"
  by (induction xs) simp_all

lemma slab_for_each_ok:
  assumes "slab_wf sl" and "\<And>i v. slab_get sl i = Some v \<Longrightarrow> f i v = Ok ()"
  shows "slab_for_each sl f = Ok ()"
proof -
  have "(case e of Free _ \<Rightarrow> Ok () | Occupied v \<Rightarrow> if i \<le> u32_max then f i v else Err (NativeWidth ''occupied slab slot'' i)) = Ok ()"
    if "(i, e) \<in> set (enumerate 0 (slots sl))" for i e
  proof -
    have i: "i < length (slots sl)" "e = slots sl ! i"
      using that by (auto simp: in_set_enumerate_eq)
    with assms show ?thesis
      by (auto simp: slab_wf_def slab_get_def split: entry.splits)
  qed
  then show ?thesis
    unfolding slab_for_each_def by (intro try_fold_unit) auto
qed

lemma live_ids_inj:
  assumes "book_rep sha b Q"
  shows "inj_on (\<lambda>x. nd_order_id (node_at b x)) (dom (live_orders b))"
proof (rule inj_onI)
  fix x y
  assume "x \<in> dom (live_orders b)" "y \<in> dom (live_orders b)" "nd_order_id (node_at b x) = nd_order_id (node_at b y)"
  then show "x = y"
    using index_ok_unique [of "live_orders b" "bk_id_index b" x "payload (node_at b x)" y "payload (node_at b y)"]
      live_node_at(2) [of x b] live_node_at(2) [of y b] assms by (simp add: book_rep_def)
qed

lemma card_live: "book_rep sha b Q \<Longrightarrow> card (dom (live_orders b)) = live (bk_slab b)"
proof -
  assume "book_rep sha b Q"
  moreover have "dom (live_orders b) = dom (slab_get (bk_slab b))"
    by (auto simp: live_orders_def contents_def)
  ultimately show ?thesis
    using sl.len_card [OF book_rep_wf] by simp
qed

lemma id_index_size:
  assumes rep: "book_rep sha b Q"
  shows "omap_size (bk_id_index b) = live (bk_slab b)"
proof -
  have idx: "index_ok (live_orders b) (bk_id_index b)"
    using rep by (simp add: book_rep_def)
  have "dom (omap_get (bk_id_index b)) = (\<lambda>x. nd_order_id (node_at b x)) ` dom (live_orders b)"
  proof (intro set_eqI iffI)
    fix i
    assume "i \<in> dom (omap_get (bk_id_index b))"
    then obtain loc where "omap_get (bk_id_index b) i = Some loc" by auto
    then obtain n where n: "live_orders b (loc_slot loc) = Some n" "nd_order_id n = i"
      by (rule index_ok_lookup [OF idx])
    then have "nd_order_id (node_at b (loc_slot loc)) = i"
      using live_node_at(2) [of "loc_slot loc" b] by (auto simp: dom_def)
    then show "i \<in> (\<lambda>x. nd_order_id (node_at b x)) ` dom (live_orders b)"
      using n(1) by blast
  next
    fix i
    assume "i \<in> (\<lambda>x. nd_order_id (node_at b x)) ` dom (live_orders b)"
    then show "i \<in> dom (omap_get (bk_id_index b))"
      using index_ok_node [OF idx live_node_at(2)] by auto
  qed
  then show ?thesis
    using card_image [OF live_ids_inj [OF rep]] card_live [OF rep] by (simp add: omap_size_card)
qed

lemma check_locators_ok:
  assumes "book_rep sha b Q"
  shows "check_locators b = Ok ()"
proof -
  have idx: "index_ok (live_orders b) (bk_id_index b)"
    using assms by (simp add: book_rep_def)
  have "(case slab_get (bk_slab b) (loc_slot loc) of
         None \<Rightarrow> Err (InvalidValue ''order-id locator must reference a live slab node'')
       | Some nd \<Rightarrow>
           if nd_order_id nd \<noteq> i
           then Err (InvalidValue ''order-id locator key does not match its slab node'')
           else if nd_side nd \<noteq> loc_side loc \<or> nd_account nd \<noteq> loc_account loc
           then Err (InvalidValue ''order-id locator metadata does not match its slab node'')
           else Ok ()) = Ok ()" if "(i, loc) \<in> set (entries (bk_id_index b))" for i loc
  proof -
    have "omap_get (bk_id_index b) i = Some loc" using that by (simp add: om.in_iter_iff)
    then show ?thesis
      by (rule index_ok_lookup [OF idx]) (auto simp: live_orders_Some)
  qed
  then show ?thesis
    unfolding check_locators_def by (intro try_fold_unit) auto
qed

section \<open>The account lists\<close>

lemma fold_put_get:
  "distinct (map fst es) \<Longrightarrow>
   omap_get (fold (\<lambda>(k, v). omap_put k (f v)) es m) k =
     (case map_of es k of None \<Rightarrow> omap_get m k | Some v \<Rightarrow> Some (f v))"
proof (induction es arbitrary: m)
  case (Cons a es)
  obtain i v where a: "a = (i, v)" by fastforce
  have "k = i \<Longrightarrow> map_of es k = None"
    using Cons.prems by (simp add: a map_of_eq_None_iff)
  then show ?case
    using Cons by (auto simp: a split: option.splits)
qed simp

lemma omap_map_values_get: "omap_get (omap_map_values f m) k = map_option f (omap_get m k)"
  unfolding omap_map_values_def
  by (subst fold_put_get) (auto simp: omap_get_def ascending_distinct split: option.splits)

lemma account_ids_map_values: "account_ids (omap_map_values sort m) a = sort (account_ids m a)"
  by (simp add: account_ids_def omap_map_values_get split: option.splits)

lemma account_ids_fold:
  "account_ids (fold push_account ns m) a = account_ids m a @ map nd_order_id (filter (\<lambda>n. nd_account n = a) ns)"
  by (induction ns arbitrary: m) (auto simp: push_account_def)

lemma fold_push_None:
  "omap_get (fold push_account ns m) a = None \<longleftrightarrow> omap_get m a = None \<and> (\<forall>n\<in>set ns. nd_account n \<noteq> a)"
  by (induction ns arbitrary: m) (auto simp: push_account_def)

lemma sorted_no_descent: "sorted_wrt (<) xs \<Longrightarrow> \<not> has_descent xs"
  by (induction xs rule: induct_list012) (auto simp: has_descent_def)

definition all_slots :: "order_book \<Rightarrow> queues \<Rightarrow> nat list" where
  "all_slots b Q = canonical_slots (bk_bids b) (Q Bid) @ canonical_slots (bk_asks b) (Q Ask)"

lemma all_slots_live:
  assumes "book_rep sha b Q"
  shows "distinct (all_slots b Q)" and "set (all_slots b Q) = dom (live_orders b)"
    and "length (all_slots b Q) = live (bk_slab b)"
  using slots_live(2,3) [OF assms] card_live [OF assms] distinct_card [OF slots_live(2) [OF assms]]
  by (simp_all add: all_slots_def)

definition expected_accounts :: "order_book \<Rightarrow> queues \<Rightarrow> (account_id, order_id list) omap" where
  "expected_accounts b Q = omap_map_values sort (fold push_account (map (node_at b) (all_slots b Q)) omap_empty)"

lemma account_list:
  assumes "book_rep sha b Q"
  shows "sorted_wrt (<) (account_ids (bk_account_orders b) a)"
    and "set (account_ids (bk_account_orders b) a) = owned (live_orders b) a"
  using assms by (simp_all add: book_rep_def accounts_ok_def)

lemma owned_nodes:
  "owned (live_orders b) a = {i. \<exists>x\<in>dom (live_orders b). nd_account (node_at b x) = a \<and> nd_order_id (node_at b x) = i}"
proof -
  have "live_orders b x = Some n \<longleftrightarrow> x \<in> dom (live_orders b) \<and> n = payload (node_at b x)" for x n
    using live_node_at(2) [of x b] by (auto simp: dom_def)
  then show ?thesis
    unfolding owned_def by auto
qed

lemma owned_disjoint:
  assumes "index_ok M idx" and "a \<noteq> a'"
  shows "owned M a \<inter> owned M a' = {}"
proof -
  have "nd_account n = nd_account m" if "M x = Some n" "M y = Some m" "nd_order_id n = nd_order_id m" for x y n m
    using index_ok_unique [OF assms(1) that] that by simp
  with assms(2) show ?thesis
    unfolding owned_def by auto
qed

lemma expected_ids:
  assumes rep: "book_rep sha b Q"
  shows "account_ids (expected_accounts b Q) a = account_ids (bk_account_orders b) a"
proof -
  let ?ids = "map nd_order_id (filter (\<lambda>n. nd_account n = a) (map (node_at b) (all_slots b Q)))"
  note acc = account_list [OF rep, of a]
  have "set ?ids = owned (live_orders b) a"
    unfolding owned_nodes by (auto simp: all_slots_live(2) [OF rep])
  moreover have "distinct (map (\<lambda>x. nd_order_id (node_at b x)) (all_slots b Q))"
    using all_slots_live(1,2) [OF rep] live_ids_inj [OF rep] by (simp add: distinct_map)
  then have "distinct ?ids"
    using distinct_map_filter [of nd_order_id "map (node_at b) (all_slots b Q)"] by (simp add: comp_def)
  ultimately have "sort ?ids = account_ids (bk_account_orders b) a"
    using acc by (intro sorted_distinct_set_unique) (auto simp: strict_sorted_iff)
  then show ?thesis
    by (simp add: expected_accounts_def account_ids_map_values account_ids_fold account_ids_def [of omap_empty])
qed

lemma expected_Some:
  assumes rep: "book_rep sha b Q" and "omap_get (expected_accounts b Q) a = Some l"
  shows "omap_get (bk_account_orders b) a = Some l"
proof -
  have l: "account_ids (bk_account_orders b) a = l"
    using expected_ids [OF rep, of a] assms(2) by (simp add: account_ids_def)
  have "omap_get (fold push_account (map (node_at b) (all_slots b Q)) omap_empty) a \<noteq> None"
    using assms(2) by (auto simp: expected_accounts_def omap_map_values_get)
  then obtain x where "x \<in> dom (live_orders b)" "nd_account (node_at b x) = a"
    by (auto simp: fold_push_None all_slots_live(2) [OF rep])
  then have "owned (live_orders b) a \<noteq> {}"
    unfolding owned_nodes by auto
  then have "l \<noteq> []"
    using account_list(2) [OF rep, of a] l by auto
  with l show ?thesis
    by (auto simp: account_ids_def split: option.splits)
qed

lemma mirrored_total:
  assumes rep: "book_rep sha b Q"
  shows "sum_list (map (\<lambda>(a, l). length l) (entries (bk_account_orders b))) = live (bk_slab b)"
proof -
  let ?m = "bk_account_orders b" and ?M = "live_orders b"
  note ids = account_list [OF rep]
  have len: "length (account_ids ?m a) = card (owned ?M a)" for a
    using ids [of a] distinct_card [of "account_ids ?m a"] by (simp add: strict_sorted_iff)
  have "map (\<lambda>(a, l). length l) (entries ?m) = map (\<lambda>a. card (owned ?M a)) (omap_keys ?m)"
    unfolding omap_keys_def map_map comp_def
    by (rule map_cong) (auto simp: om.in_iter_iff len [symmetric] account_ids_def)
  then have "sum_list (map (\<lambda>(a, l). length l) (entries ?m)) = sum_list (map (\<lambda>a. card (owned ?M a)) (omap_keys ?m))"
    by (simp only:)
  also have "\<dots> = (\<Sum>a\<in>set (omap_keys ?m). card (owned ?M a))"
  proof (rule sum.distinct_set_conv_list [symmetric])
    show "distinct (omap_keys ?m)"
      unfolding omap_keys_def by (rule ascending_distinct) simp
  qed
  also have "\<dots> = card (\<Union>a\<in>set (omap_keys ?m). owned ?M a)"
  proof (rule card_UN_disjoint [symmetric])
    show "\<forall>a\<in>set (omap_keys ?m). finite (owned ?M a)"
      using ids(2) by (metis List.finite_set)
    show "\<forall>a\<in>set (omap_keys ?m). \<forall>a'\<in>set (omap_keys ?m). a \<noteq> a' \<longrightarrow> owned ?M a \<inter> owned ?M a' = {}"
      using owned_disjoint [of ?M "bk_id_index b"] rep by (simp add: book_rep_def)
  qed simp
  also have "(\<Union>a\<in>set (omap_keys ?m). owned ?M a) = (\<lambda>x. nd_order_id (node_at b x)) ` dom ?M"
  proof -
    have "owned ?M a = {}" if "a \<notin> set (omap_keys ?m)" for a
    proof -
      have "omap_get ?m a = None"
        using that om.key_iff [of a ?m] by (simp add: omap_keys_def)
      then show ?thesis using ids(2) [of a] by (simp add: account_ids_def)
    qed
    then have "(\<Union>a\<in>set (omap_keys ?m). owned ?M a) = (\<Union>a. owned ?M a)" by auto
    also have "\<dots> = (\<lambda>x. nd_order_id (node_at b x)) ` dom ?M"
      unfolding owned_nodes by auto
    finally show ?thesis .
  qed
  finally show ?thesis
    using card_image [OF live_ids_inj [OF rep]] card_live [OF rep] by simp
qed

lemma mirrored_fold:
  assumes "\<And>a l. (a, l) \<in> set es \<Longrightarrow> good a l"
    and "m + sum_list (map (\<lambda>(a, l). length l) es) \<le> u64_max"
  shows "try_fold (\<lambda>(a, l) m. if good a l then usize_checked what (m + length l) else err a l) es m =
    Ok (m + sum_list (map (\<lambda>(a, l). length l) es))"
  using assms
proof (induction es arbitrary: m)
  case (Cons x es)
  then show ?case
    by (cases x) (auto simp: usize_checked_def add.assoc)
qed simp

lemma check_accounts_ok:
  assumes rep: "book_rep sha b Q"
  shows "check_accounts b (expected_accounts b Q) = Ok (live (bk_slab b))"
proof -
  have bound: "live (bk_slab b) \<le> u64_max"
    using live_le_capacity [OF rep] rep u32_u64 by (fastforce simp: book_rep_def slab_wf_def)
  have ok: "\<not> has_descent l" "(case omap_get (expected_accounts b Q) a of None \<Rightarrow> [] | Some l \<Rightarrow> l) = l"
    if "(a, l) \<in> set (entries (bk_account_orders b))" for a l
  proof -
    have l: "account_ids (bk_account_orders b) a = l"
      using that by (simp add: om.in_iter_iff account_ids_def)
    then show "\<not> has_descent l"
      using sorted_no_descent [OF account_list(1) [OF rep, of a]] by simp
    show "(case omap_get (expected_accounts b Q) a of None \<Rightarrow> [] | Some l \<Rightarrow> l) = l"
      using expected_ids [OF rep, of a] l by (simp add: account_ids_def)
  qed
  have "try_fold (\<lambda>(account, orders) mirrored.
         if has_descent orders
         then Err (NonCanonical ''account-order ids must be strictly ascending and unique'')
         else if orders \<noteq> (case omap_get (expected_accounts b Q) account of None \<Rightarrow> [] | Some l \<Rightarrow> l)
         then Err (InvalidValue ''account-order index must exactly mirror live owned orders'')
         else usize_checked ''account-order index'' (mirrored + length orders))
       (entries (bk_account_orders b)) 0 = Ok (live (bk_slab b))"
    (is "try_fold ?f _ _ = _")
  proof -
    have "?f = (\<lambda>(a, l) m. if \<not> has_descent l \<and> l = (case omap_get (expected_accounts b Q) a of None \<Rightarrow> [] | Some l \<Rightarrow> l)
        then usize_checked ''account-order index'' (m + length l)
        else (if has_descent l then Err (NonCanonical ''account-order ids must be strictly ascending and unique'')
              else Err (InvalidValue ''account-order index must exactly mirror live owned orders'')))"
      by (auto simp: fun_eq_iff)
    then show ?thesis
      using mirrored_fold [of "entries (bk_account_orders b)"
          "\<lambda>a l. \<not> has_descent l \<and> l = (case omap_get (expected_accounts b Q) a of None \<Rightarrow> [] | Some l \<Rightarrow> l)" 0
          "''account-order index''"] ok bound
      by (simp add: mirrored_total [OF rep])
  qed
  moreover have "try_fold (\<lambda>(account, l) _.
         if omap_get (bk_account_orders b) account \<noteq> Some l
         then Err (InvalidValue ''live node must appear in its account-order index'') else Ok ())
       (entries (expected_accounts b Q)) () = Ok ()"
    by (rule try_fold_unit) (auto simp: om.in_iter_iff dest: expected_Some [OF rep])
  ultimately show ?thesis
    by (simp add: check_accounts_def)
qed

section \<open>The whole graph\<close>

lemma level_count_levels: "level_count (side_of sd b) = length (side_levels b Q sd)"
  by (simp add: level_count_def omap_size_def side_levels_def omap_keys_def)

lemma side_slots_le:
  assumes "book_rep sha b Q"
  shows "length (canonical_slots (bk_bids b) (Q Bid)) + length (canonical_slots (bk_asks b) (Q Ask)) = live (bk_slab b)"
  using all_slots_live(3) [OF assms] by (simp add: all_slots_def)

lemma not_crossed:
  assumes rep: "book_rep sha b Q" and "best_price (bk_bids b) = Some bid" and "best_price (bk_asks b) = Some ask"
  shows "bid < ask"
proof -
  have "Q Bid bid \<noteq> []" "Q Ask ask \<noteq> []"
    using best_price_Some(1) [of "bk_slab b" Bid "bk_bids b" "Q Bid" bid]
      best_price_Some(1) [of "bk_slab b" Ask "bk_asks b" "Q Ask" ask]
      book_rep_side [OF rep, of Bid] book_rep_side [OF rep, of Ask] assms(2,3)
    by (simp_all add: side_of_def)
  then show ?thesis
    using rep by (auto simp: book_rep_def uncrossed_def)
qed

lemma gw_write_len_at:
  "v \<le> u64_max \<Longrightarrow> gw_write_len what v (gw_at sha b w xs) = Ok (gw_at sha b (map_option (\<lambda>w. w @ le_bytes 8 v) w) xs)"
  by (cases w) (simp_all add: gw_write_len_def gw_at_def w_len_def usize_as_u64_def)

lemma graph_xor:
  assumes rep: "book_rep sha b Q"
  shows "xor_all (map (order_leaf sha \<circ> node_at b) (all_slots b Q)) = bk_order_leaf_xor b"
proof -
  have "map (order_leaf sha \<circ> node_at b) (all_slots b Q) =
      map (\<lambda>x. order_leaf sha (the (live_orders b x))) (all_slots b Q)"
  proof (rule map_cong [OF refl])
    fix x assume "x \<in> set (all_slots b Q)"
    then show "(order_leaf sha \<circ> node_at b) x = order_leaf sha (the (live_orders b x))"
      using live_node_at(2) [of x b] all_slots_live(2) [OF rep] by simp
  qed
  moreover have "bk_order_leaf_xor b = order_xor (order_leaf sha) (live_orders b)"
    using rep by (simp add: book_rep_def)
  ultimately show ?thesis
    using order_xor_list [OF all_slots_live(1,2) [OF rep], of "order_leaf sha"] by (simp only:)
qed

lemma validate_graph_rep:
  assumes rep: "book_rep sha b Q" and "length (side_levels b Q Bid) \<le> u64_max" and "length (side_levels b Q Ask) \<le> u64_max"
  shows "validate_book_graph sha b w =
    Ok (map_option (\<lambda>w. w @ side_image (side_levels b Q Bid) @ side_image (side_levels b Q Ask)) w)"
proof -
  let ?bs = "canonical_slots (bk_bids b) (Q Bid)" and ?as = "canonical_slots (bk_asks b) (Q Ask)"
  let ?lv = "\<lambda>sd. concat (map level_image (side_levels b Q sd))"
  have bound: "live (bk_slab b) \<le> u64_max"
    using live_le_capacity [OF rep] rep u32_u64 by (fastforce simp: book_rep_def slab_wf_def)
  have slots: "distinct (?bs @ ?as)" "set (?bs @ ?as) = dom (live_orders b)"
    using all_slots_live(1,2) [OF rep] by (simp_all add: all_slots_def)
  have sub: "set ?bs \<subseteq> dom (live_orders b)"
    using slots(2) by (metis Un_upper1 set_append)
  have start: "\<lparr>gw_writer = w, gw_slots = {}, gw_ids = {}, gw_accounts = omap_empty, gw_xor = 0\<rparr> = gw_at sha b w []"
    by (simp add: gw_at_def)
  let ?w1 = "map_option (\<lambda>w. w @ le_bytes 8 (length (side_levels b Q Bid))) w"
  let ?w2 = "map_option (\<lambda>w. w @ ?lv Bid) ?w1"
  let ?w3 = "map_option (\<lambda>w. w @ le_bytes 8 (length (side_levels b Q Ask))) ?w2"
  let ?w4 = "map_option (\<lambda>w. w @ ?lv Ask) ?w3"
  have bids: "validate_reachable (bk_bids b) (bk_slab b) Bid visit_level (visit_node sha b) (gw_at sha b ?w1 []) =
    Ok (length ?bs, gw_at sha b ?w2 ?bs)"
    using validate_reachable_rep [OF rep, of "[]" Bid ?w1] slots side_slots_le [OF rep] bound
    by (simp add: side_of_def)
  have asks: "validate_reachable (bk_asks b) (bk_slab b) Ask visit_level (visit_node sha b) (gw_at sha b ?w3 ?bs) =
    Ok (length ?as, gw_at sha b ?w4 (?bs @ ?as))"
    using validate_reachable_rep [OF rep, of ?bs Ask ?w3] slots(1) sub side_slots_le [OF rep] bound
    by (simp add: side_of_def)
  have counts: "level_count (bk_bids b) = length (side_levels b Q Bid)" "level_count (bk_asks b) = length (side_levels b Q Ask)"
    using level_count_levels [of Bid b Q] level_count_levels [of Ask b Q] by (simp_all add: side_of_def)
  have each: "slab_for_each (bk_slab b) (\<lambda>slot _. guard (slot \<in> gw_slots (gw_at sha b ?w4 (?bs @ ?as))) e) = Ok ()" for e
  proof (rule slab_for_each_ok [OF book_rep_wf [OF rep]])
    fix i v assume "slab_get (bk_slab b) i = Some v"
    then have "i \<in> dom (live_orders b)" by (simp add: live_orders_def contents_def dom_def)
    then show "guard (i \<in> gw_slots (gw_at sha b ?w4 (?bs @ ?as))) e = Ok ()"
      using slots(2) by (simp add: gw_at_def)
  qed
  have accounts: "omap_map_values sort (gw_accounts (gw_at sha b ?w4 (?bs @ ?as))) = expected_accounts b Q"
    by (simp add: gw_at_def expected_accounts_def all_slots_def)
  have xor: "gw_xor (gw_at sha b ?w4 (?bs @ ?as)) = bk_order_leaf_xor b"
    using graph_xor [OF rep] by (simp add: gw_at_def all_slots_def)
  have crossed: "\<not> (case (best_price (bk_bids b), best_price (bk_asks b)) of (Some bid, Some ask) \<Rightarrow> bid \<ge> ask | _ \<Rightarrow> False)"
    using not_crossed [OF rep]
    by (cases "best_price (bk_bids b)"; cases "best_price (bk_asks b)") (simp_all add: not_le)
  have "gw_writer (gw_at sha b ?w4 (?bs @ ?as)) = map_option (\<lambda>w. w @ side_image (side_levels b Q Bid) @ side_image (side_levels b Q Ask)) w"
    by (simp add: gw_at_def side_image_def option.map_comp comp_def)
  then show ?thesis
    unfolding validate_book_graph_def start counts
    using assms(2,3) bound side_slots_le [OF rep] crossed
    by (simp add: gw_write_len_at bids asks each accounts xor usize_checked_def id_index_size [OF rep]
        check_locators_ok [OF rep] check_accounts_ok [OF rep])
qed

section \<open>The replay cache\<close>

definition dd_records :: "dedup_cache \<Rightarrow> (dedup_key \<times> match_result) list" where
  "dd_records c = map (\<lambda>k. (k, the (omap_get (dd_map c) k))) (dd_order c)"

lemma dd_visit_records:
  assumes "distinct ks" and "seen \<inter> set ks = {}" and "set ks \<subseteq> dom (omap_get m)"
  shows "dd_visit m f seen ks s = try_fold (\<lambda>(k, r). f k r) (map (\<lambda>k. (k, the (omap_get m k))) ks) s"
  using assms
proof (induction ks arbitrary: seen s)
  case (Cons k ks)
  obtain r where r: "omap_get m k = Some r"
    using Cons.prems(3) by auto
  have "dd_visit m f (insert k seen) ks = try_fold (\<lambda>(k, r). f k r) (map (\<lambda>k. (k, the (omap_get m k))) ks)"
    using Cons.prems by (intro ext Cons.IH) auto
  then show ?case
    using Cons.prems r by (simp add: and_then_def split: sum.splits)
qed simp

lemma dd_for_each_records:
  assumes "dd_wf c"
  shows "dd_for_each c f s = try_fold (\<lambda>(k, r). f k r) (dd_records c) s"
proof -
  have "length (dd_order c) = omap_size (dd_map c)"
    using assms distinct_card [of "dd_order c"] by (simp add: dd_wf_def omap_size_card)
  then show ?thesis
    using assms dd_visit_records [of "dd_order c" "{}" "dd_map c"]
    by (simp add: dd_for_each_def dd_records_def dd_wf_def)
qed

lemma count_fold:
  assumes "m + record_fills recs \<le> u64_max"
  shows "try_fold (\<lambda>(k, r) m. usize_checked what (m + length (mr_fills r))) recs m = Ok (m + record_fills recs)"
  using assms
proof (induction recs arbitrary: m)
  case (Cons x recs)
  then show ?case
    by (cases x) (auto simp: usize_checked_def add.assoc)
qed simp

lemma fold_bytes: "fold (\<lambda>x w. w @ f x) xs w = w @ concat (map f xs)"
  by (induction xs arbitrary: w) simp_all

lemma write_match_result_image:
  "length (mr_fills r) \<le> u64_max \<Longrightarrow> write_match_result r w = Ok (w @ result_image r)"
  by (simp add: write_match_result_def w_len_def usize_as_u64_def result_image_def fold_bytes split_def Let_def)

lemma dedup_fold:
  assumes "\<forall>rec\<in>set recs. record_ok rec" and "m + record_fills recs \<le> u64_max"
  shows "try_fold (\<lambda>(k, r). (case k of (account, client) \<Rightarrow> \<lambda>r (fills, w).
       and_then (validate_cached_match_result account r) (\<lambda>_.
       and_then (usize_checked ''cached fills'' (fills + length (mr_fills r))) (\<lambda>fills.
       (case w of
          None \<Rightarrow> Ok (fills, None)
        | Some w \<Rightarrow>
            and_then (write_match_result r (w @ le_bytes 4 account @ le_bytes 8 client)) (\<lambda>w.
            Ok (fills, Some w)))))) r) recs (m, w) =
    Ok (m + record_fills recs, map_option (\<lambda>w. w @ concat (map record_image recs)) w)"
  using assms
proof (induction recs arbitrary: m w)
  case Nil
  then show ?case by (simp add: option.map_ident)
next
  case (Cons rec recs)
  obtain a c r where rec: "rec = ((a, c), r)" by (metis prod.collapse)
  have "validate_cached_match_result a r = Ok ()"
    using Cons.prems(1) by (simp add: rec record_ok_def)
  moreover have "m + length (mr_fills r) + record_fills recs \<le> u64_max"
    using Cons.prems(2) by (simp add: rec)
  ultimately show ?case
    using Cons.IH [of "m + length (mr_fills r)"] Cons.prems(1)
    by (cases w) (simp_all add: rec usize_checked_def write_match_result_image record_image_def add.assoc)
qed

lemma validate_dedup_rep:
  assumes "dd_wf (bk_dedup b)" and "\<forall>rec\<in>set (dd_records (bk_dedup b)). record_ok rec"
    and "record_fills (dd_records (bk_dedup b)) \<le> u64_max" and "length (dd_records (bk_dedup b)) \<le> u64_max"
  shows "validate_dedup_results b w = Ok (record_fills (dd_records (bk_dedup b)),
    map_option (\<lambda>w. w @ le_bytes 8 (length (dd_records (bk_dedup b))) @ concat (map record_image (dd_records (bk_dedup b)))) w)"
proof -
  have "dd_record_count (bk_dedup b) = length (dd_records (bk_dedup b))"
    by (simp add: dd_record_count_def dd_records_def)
  then show ?thesis
    using assms dedup_fold [of "dd_records (bk_dedup b)" 0] assms(1)
    by (cases w) (simp_all add: validate_dedup_results_def dd_for_each_records w_len_def usize_as_u64_def
        dedup_fold [of _ 0, simplified])
qed

section \<open>The encoder\<close>

definition parts_of :: "order_book \<Rightarrow> queues \<Rightarrow> book_parts" where
  "parts_of b Q = \<lparr>bp_config = bk_config b, bp_bids = side_levels b Q Bid, bp_asks = side_levels b Q Ask,
     bp_positions = entries (bk_positions b), bp_records = dd_records (bk_dedup b)\<rparr>"

definition cache_ok :: "order_book \<Rightarrow> bool" where
  "cache_ok b \<longleftrightarrow> (\<forall>rec\<in>set (dd_records (bk_dedup b)). record_ok rec)
     \<and> (\<forall>a q. omap_get (bk_positions b) a = Some q \<longrightarrow> a \<le> u32_max)"

lemma level_orders_slots: "level_orders (side_levels b Q sd) = length (canonical_slots (side_of sd b) (Q sd))"
  by (simp add: level_orders_def side_levels_def canonical_slots_def level_nodes_def length_concat comp_def)

lemma parts_shape:
  assumes "book_rep sha b Q"
  shows "image_shape (parts_of b Q) =
    \<lparr>sh_levels = level_count (bk_bids b) + level_count (bk_asks b), sh_orders = live (bk_slab b),
     sh_positions = omap_size (bk_positions b), sh_dedup_records = dd_record_count (bk_dedup b),
     sh_fills = record_fills (dd_records (bk_dedup b))\<rparr>"
  using side_slots_le [OF assms] level_count_levels [of Bid b Q] level_count_levels [of Ask b Q]
  by (simp add: image_shape_def parts_of_def level_orders_slots side_of_def omap_size_def
      dd_record_count_def dd_records_def)

lemma state_shape_rep:
  assumes rep: "book_rep sha b Q" and cfg: "config_addressable (bk_config b)"
    and size: "shape_size (image_shape (parts_of b Q)) \<le> u64_max"
  shows "state_shape_v3 b = Ok (image_shape (parts_of b Q))"
proof -
  note sh = parts_shape [OF rep]
  have cap: "cfg_capacity (bk_config b) \<le> u32_max" "cfg_capacity (bk_config b) \<le> u64_max"
    using cfg u32_u64 by (auto simp: config_addressable_def)
  have "slab_validate (bk_slab b) (cfg_capacity (bk_config b)) = Ok ()"
    using rep by (intro iffD2 [OF slab_validate_iff [OF cap(1)]]) (simp add: book_rep_def)
  moreover have "dd_validate (bk_dedup b) (cfg_dedup_capacity (bk_config b)) = Ok ()"
    using rep by (intro iffD2 [OF dd_validate_iff]) (simp add: book_rep_def)
  moreover have "dd_wf (bk_dedup b)"
    using rep by (simp add: book_rep_def)
  moreover have "record_fills (dd_records (bk_dedup b)) \<le> u64_max"
    using shape_counts(5) [OF size] by (simp add: sh)
  ultimately show ?thesis
    using cfg cap shape_counts [OF size] size
    by (simp add: state_shape_v3_def usize_as_u64_def usize_checked_def dd_for_each_records
        count_fold [of 0, simplified, unfolded usize_checked_def] sh config_addressable_def Let_def encoded_len_eq)
qed

lemma ascending_sorted: "ascending es \<Longrightarrow> sorted (es :: ('a::linorder \<times> 'b::linorder) list)"
  by (induction es) (auto simp: less_eq_prod_def)

lemma sort_entries: "sort (entries m) = entries (m :: ('a::linorder, 'b::linorder) omap)"
  by (rule sorted_sort_id, rule ascending_sorted) simp

lemma encode_rep:
  assumes rep: "book_rep sha b Q" and cfg: "config_addressable (bk_config b)" and cache: "cache_ok b"
    and size: "shape_size (image_shape (parts_of b Q)) \<le> max_bytes" and max: "max_bytes \<le> u64_max"
  shows "encode_state_v3_bounded sha b max_bytes = Ok (book_image (parts_of b Q))"
proof -
  let ?sh = "image_shape (parts_of b Q)"
  have size': "shape_size ?sh \<le> u64_max" using size max by simp
  note counts = shape_counts [OF size']
  have sides: "length (side_levels b Q Bid) \<le> u64_max" "length (side_levels b Q Ask) \<le> u64_max"
    using counts(1) by (simp_all add: image_shape_def parts_of_def)
  have recs: "record_fills (dd_records (bk_dedup b)) \<le> u64_max" "length (dd_records (bk_dedup b)) \<le> u64_max"
    using counts(4,5) by (simp_all add: image_shape_def parts_of_def)
  have ps: "length (entries (bk_positions b)) \<le> u64_max"
    using counts(3) by (simp add: image_shape_def parts_of_def)
  have graph: "validate_book_graph sha b (Some w) =
      Ok (Some (w @ side_image (side_levels b Q Bid) @ side_image (side_levels b Q Ask)))" for w
    using validate_graph_rep [OF rep sides, of "Some w"] by simp
  have dedup: "validate_dedup_results b (Some w) = Ok (record_fills (dd_records (bk_dedup b)),
      Some (w @ le_bytes 8 (length (dd_records (bk_dedup b))) @ concat (map record_image (dd_records (bk_dedup b)))))" for w
    using validate_dedup_rep [of b "Some w"] rep cache recs by (simp add: book_rep_def cache_ok_def)
  have written: "write_state_v3 sha b [] = Ok (book_image (parts_of b Q))"
    using cfg u32_u64 ps
    by (simp add: write_state_v3_def w_len_def usize_as_u64_def config_addressable_def Let_def graph dedup sort_entries
        fold_bytes book_image_def header_image_def tail_image_def parts_of_def del: le_bytes.simps One_nat_def)
  show ?thesis
    using written state_shape_rep [OF rep cfg size'] size encoded_len_eq [OF size'] length_book_image [of "parts_of b Q"]
    by (simp add: encode_state_v3_bounded_def)
qed

end
