(* ===== verification/CacheInv.thy ===== *)
theory CacheInv
  imports StateEncode ClobLaws
begin

text \<open>
  Every result the book caches passes the validation of the state codec: the fills of one execution
  share a taker, come in price order, name each maker once and add up without overflow, and the outcome
  agrees with them. So every reachable book has an image.
\<close>

section \<open>Fills of one execution\<close>

lemma check_fills:
  assumes "\<forall>f\<in>set fs. 0 < fill_price f \<and> 0 < fill_quantity f \<and> maker_order f \<noteq> taker_order f \<and>
      maker_account f \<noteq> taker_account f \<and> taker_account f = a \<and> fill_taker f = t"
    and "sorted_wrt (\<lambda>f g. pkey (opposite (snd (snd t))) (fill_price f) \<le> pkey (opposite (snd (snd t))) (fill_price g)) fs"
    and "distinct (map maker_order fs)" and "fw_makers s \<inter> maker_order ` set fs = {}"
    and "fw_taker s = None \<or> fw_taker s = Some t"
    and "\<forall>p. fw_price s = Some p \<longrightarrow> (\<forall>f\<in>set fs. pkey (opposite (snd (snd t))) p \<le> pkey (opposite (snd (snd t))) (fill_price f))"
    and "0 \<le> fw_filled s" and "fits I64 (fw_filled s + traded fs)"
  shows "\<exists>s'. try_fold (check_cached_fill a) fs s = Ok s' \<and> fw_filled s' = fw_filled s + traded fs"
  using assms
proof (induction fs arbitrary: s)
  case (Cons f fs)
  let ?s = "\<lparr>fw_makers = insert (maker_order f) (fw_makers s), fw_taker = Some (fill_taker f),
            fw_price = Some (fill_price f), fw_filled = fw_filled s + fill_quantity f\<rparr>"
  have f: "0 < fill_price f" "0 < fill_quantity f" "maker_order f \<noteq> taker_order f"
    "maker_account f \<noteq> taker_account f" "taker_account f = a" "fill_taker f = t" "taker_side f = snd (snd t)"
    using Cons.prems(1) by (auto simp: fill_taker_def)
  have ordered: "\<not> out_of_order (fw_price s) f"
    using Cons.prems(6) f(7) by (cases "snd (snd t)") (auto simp: out_of_order_def pkey_def split: option.splits)
  have "0 \<le> traded fs"
    using Cons.prems(1) by (intro sum_list_nonneg) auto
  then have "fits I64 (fw_filled s + fill_quantity f)"
    using Cons.prems(7,8) f(2) fits_nonneg_le [OF Cons.prems(8), of "fw_filled s + fill_quantity f"] by simp
  then have "check_cached_fill a f s = Ok ?s"
    using f ordered Cons.prems(4,5) by (auto simp: check_cached_fill_def prim_checked_def)
  moreover have "\<exists>s'. try_fold (check_cached_fill a) fs ?s = Ok s' \<and> fw_filled s' = fw_filled ?s + traded fs"
    using Cons.prems f by (intro Cons.IH) (auto simp: add.assoc)
  ultimately show ?case
    by auto
qed simp

lemma spec_fills_ordered:
  assumes "sorted_wrt (\<lambda>m n. pkey sd (nd_price m) \<le> pkey sd (nd_price n)) ms" and "makers_ok ms"
  shows "sorted_wrt (\<lambda>f g. pkey sd (fill_price f) \<le> pkey sd (fill_price g)) (sp_fills (spec_match stp t mkt rem ms))"
  using assms
proof (induction stp t mkt rem ms rule: spec_match.induct)
  case (2 stp t mkt rem m ms)
  have "pkey sd (nd_price m) \<le> pkey sd (fill_price f)" if "f \<in> set (sp_fills (spec_match stp t mkt r ms))" for f r
    using spec_fill_facts [OF _ that] 2 by auto
  with 2 show ?case
    by (cases stp) (auto simp: Let_def make_fill_def)
qed simp

lemma spec_fill_makers_distinct:
  assumes "distinct (map nd_order_id ms)" and "makers_ok ms"
  shows "distinct (map maker_order (sp_fills (spec_match stp t mkt rem ms)))"
  unfolding spec_fill_makers_subseq using assms(1)
  by (metis distinct_map_filter distinct_take take_map)

text \<open>A matched order's outcome agrees with its fills.\<close>

lemma truthful_valid_outcome:
  assumes "outcome_truthful qty rep" and "0 < qty" and "fits I64 qty"
  shows "valid_outcome (rep_result rep) (traded (mr_fills (rep_result rep)))"
    and "fits I64 (snd (outcome_code (mr_outcome (rep_result rep))))"
proof -
  have q: "qty \<le> int_max I64"
    using assms(3) by (simp add: fits_def)
  show "valid_outcome (rep_result rep) (traded (mr_fills (rep_result rep)))"
    using assms q by (auto simp: outcome_truthful_def valid_outcome_def Let_def split: order_outcome.splits)
  have "0 \<le> snd (outcome_code (mr_outcome (rep_result rep)))" "snd (outcome_code (mr_outcome (rep_result rep))) \<le> qty"
    using assms(1,2) by (auto simp: outcome_truthful_def Let_def split: order_outcome.splits)
  then show "fits I64 (snd (outcome_code (mr_outcome (rep_result rep))))"
    by (rule fits_nonneg_le [OF assms(3)])
qed

section \<open>What an execution caches\<close>

lemma execute_fills_ok:
  assumes rep: "book_rep sha b Q" and run: "clob_execute (clob_of b) ord = (Ok rp, c)"
  shows "sorted_wrt (\<lambda>f g. pkey (opposite (no_side ord)) (fill_price f) \<le> pkey (opposite (no_side ord)) (fill_price g))
      (mr_fills (rep_result rp))"
    and "distinct (map maker_order (mr_fills (rep_result rp)))"
    and "maker_order ` set (mr_fills (rep_result rp)) \<subseteq> nd_order_id ` set (book_orders b (opposite (no_side ord)))"
proof -
  let ?ms = "book_orders b (opposite (no_side ord))" and ?fs = "mr_fills (rep_result rp)"
  have ok: "makers_ok ?ms" using book_makers_ok [OF rep] .
  have ids: "distinct (map nd_order_id ?ms)"
    using order_ids_distinct [OF rep] by (cases "no_side ord") simp_all
  consider "?fs = []"
    | qty where "?fs = sp_fills (spec_match (cfg_stp (bk_config b)) ord (no_order_type ord = Market) qty ?ms)"
    using clob_execute_makers [OF run] ok by auto
  then show "sorted_wrt (\<lambda>f g. pkey (opposite (no_side ord)) (fill_price f) \<le> pkey (opposite (no_side ord)) (fill_price g)) ?fs"
    and "distinct (map maker_order ?fs)"
    by (cases; simp add: spec_fills_ordered [OF book_orders_sorted [OF rep] ok] spec_fill_makers_distinct [OF ids ok])+
  show "maker_order ` set ?fs \<subseteq> nd_order_id ` set ?ms"
    using clob_fill_facts [OF run] ok by fastforce
qed

lemma fills_within_capacity:
  assumes rep: "book_rep sha b Q" and run: "clob_execute (clob_of b) ord = (Ok rp, c)"
  shows "length (mr_fills (rep_result rp)) \<le> cfg_capacity (bk_config b)"
proof -
  let ?ms = "book_orders b (opposite (no_side ord))"
  have "length (mr_fills (rep_result rp)) = card (maker_order ` set (mr_fills (rep_result rp)))"
    using distinct_card [OF execute_fills_ok(2) [OF rep run]] by simp
  also have "\<dots> \<le> card (nd_order_id ` set ?ms)"
    using execute_fills_ok(3) [OF rep run] by (intro card_mono) simp_all
  also have "\<dots> \<le> length ?ms"
    using card_image_le [of "set ?ms" nd_order_id] card_length [of ?ms] by simp
  also have "\<dots> \<le> clob_count (clob_of b)"
    by (cases "no_side ord") (simp_all add: clob_count_def)
  also have "\<dots> \<le> cfg_capacity (bk_config b)"
    using live_le_capacity [OF rep] by (simp add: clob_count_rep [OF rep])
  finally show ?thesis .
qed

lemma resting_order_facts:
  assumes rep: "book_rep sha b Q" and n: "n \<in> set (book_orders b sd)"
  shows "node_typed n" and "0 < nd_price n"
proof -
  obtain x where x: "live_orders b x = Some n" "nd_side n = sd"
    using n in_maker_list [OF rep] by (auto simp: book_orders_rep [OF rep])
  show "node_typed n"
    using rep x(1) by (auto simp: book_rep_def)
  have "x \<in> set (Q sd (nd_price n))"
    using queued_slot [OF rep x(1)] x(2) by auto
  then show "0 < nd_price n"
    using book_rep_side [OF rep, of sd] unfolding side_rep_def by (metis empty_iff empty_set)
qed

lemma execute_result_ok:
  assumes rep: "book_rep sha b Q" and typed: "order_typed ord" and run: "clob_execute (clob_of b) ord = (Ok rp, c)"
  shows "record_ok ((no_account ord, no_client_id ord), rep_result rp)"
proof -
  let ?r = "rep_result rp"
  let ?fs = "mr_fills ?r" and ?ms = "book_orders b (opposite (no_side ord))"
  have ok: "makers_ok ?ms" using book_makers_ok [OF rep] .
  have t: "no_order_id ord \<le> u64_max" "no_account ord \<le> u32_max" "no_client_id ord \<le> u64_max" "fits I64 (no_quantity ord)"
    using typed by (simp_all add: order_typed_def)
  have facts: "taker_order f = no_order_id ord \<and> taker_account f = no_account ord \<and> taker_side f = no_side ord \<and>
      maker_account f \<noteq> no_account ord \<and> 0 < fill_quantity f \<and> 0 < fill_price f \<and> fill_typed f \<and> maker_order f \<noteq> no_order_id ord"
    if f: "f \<in> set ?fs" for f
  proof -
    note c = clob_fill_facts [OF run _ f, simplified, OF ok]
    then obtain m where m: "m \<in> set ?ms" "maker_order f = nd_order_id m" "maker_account f = nd_account m"
      "fill_price f = nd_price m" "fill_quantity f \<le> nd_remaining m"
      by auto
    have "\<not> clob_has (clob_of b) (no_order_id ord)"
      using run f by (cases rule: clob_execute_cases) auto
    then have "maker_order f \<noteq> no_order_id ord"
      using m(1,2) by (auto simp: clob_has_iff)
    moreover have "fits I64 (fill_quantity f)"
      using c m(5) resting_order_facts(1) [OF rep m(1)] fits_nonneg_le [of I64 "nd_remaining m" "fill_quantity f"]
      by (auto simp: node_typed_def)
    ultimately show ?thesis
      using c m t resting_order_facts [OF rep m(1)] by (auto simp: fill_typed_def node_typed_def)
  qed
  have outcome: "valid_outcome ?r (traded ?fs) \<and> fits I64 (snd (outcome_code (mr_outcome ?r))) \<and> fits I64 (traded ?fs)"
    using clob_outcome_truthful [OF run, simplified, OF ok]
  proof (elim disjE exE conjE)
    fix qty
    assume q: "clob_clamp (clob_of b) ord = Some qty" "outcome_truthful qty rp"
    have pos: "0 < no_quantity ord"
      using run by (auto simp: clob_execute_def split: if_splits)
    have qty: "0 < qty" "fits I64 qty"
      using clamp_positive [OF q(1) pos] fits_nonneg_le [OF t(4), of qty] by simp_all
    have "0 \<le> traded ?fs"
      using facts by (intro sum_list_nonneg) (auto dest!: facts)
    moreover have "traded ?fs \<le> qty"
      using q(2) qty(1) by (auto simp: outcome_truthful_def Let_def split: order_outcome.splits)
    ultimately show ?thesis
      using truthful_valid_outcome [OF q(2) qty] fits_nonneg_le [OF qty(2)] by simp
  qed (simp add: valid_outcome_def)
  have "length ?fs \<le> u64_max"
    using fills_within_capacity [OF rep run] rep u32_u64 by (force simp: book_rep_def slab_wf_def)
  moreover have "\<exists>s'. try_fold (check_cached_fill (no_account ord)) ?fs fill_walk_start = Ok s' \<and> fw_filled s' = fw_filled fill_walk_start + traded ?fs"
    using facts execute_fills_ok [OF rep run] outcome
    by (intro check_fills [where t = "(no_order_id ord, no_account ord, no_side ord)"])
      (auto simp: fill_walk_start_def fill_taker_def)
  ultimately have "validate_cached_match_result (no_account ord) ?r = Ok ()"
    using outcome by (auto simp: validate_cached_match_result_def usize_as_u64_def fill_walk_start_def)
  then show ?thesis
    using facts outcome t by (simp add: record_ok_def)
qed

section \<open>The replay cache of a reachable book\<close>

lemma dd_records_mem:
  "dd_wf c \<Longrightarrow> (k, r) \<in> set (dd_records c) \<longleftrightarrow> omap_get (dd_map c) k = Some r"
  using dd_wf_Some [of c k] dd_wf_None [of c k] by (auto simp: dd_records_def image_iff)

lemma dd_insert_records:
  assumes wf: "dd_wf c" and rec: "(k, r') \<in> set (dd_records (dd_insert c a i r))"
  shows "k = (a, i) \<and> r' = r \<or> (k, r') \<in> set (dd_records c)"
proof -
  have get: "omap_get (dd_map (dd_insert c a i r)) k = Some r'"
    using rec dd_records_mem [OF dd_insert_wf [OF wf]] by simp
  have "k = (a, i) \<and> r' = r \<or> omap_get (dd_map c) k = Some r'"
  proof (cases "0 < dd_capacity c")
    case True
    then show ?thesis
      using get dd_insert_known [OF True, of a i] dd_insert_fresh [OF True wf, of a i]
      by (cases "omap_get (dd_map c) (a, i)") (auto simp: omap_get_put_fun omap_get_remove_fun split: if_splits)
  qed (use get in \<open>simp add: dd_insert_def\<close>)
  then show ?thesis
    using dd_records_mem [OF wf] by auto
qed

text \<open>A property of cached results holds throughout a run when every execution's result has it. The
  accounts that hold a position stay within their type alongside.\<close>

definition caches :: "(dedup_key \<times> match_result \<Rightarrow> bool) \<Rightarrow> order_book \<Rightarrow> bool" where
  "caches P b \<longleftrightarrow> (\<forall>rec\<in>set (dd_records (bk_dedup b)). P rec) \<and> dom (omap_get (bk_positions b)) \<subseteq> {..u32_max}"

definition executes_to :: "sha256 \<Rightarrow> book_config \<Rightarrow> (dedup_key \<times> match_result \<Rightarrow> bool) \<Rightarrow> bool" where
  "executes_to sha cfg P \<longleftrightarrow>
     (\<forall>b Q ord rp c. book_rep sha b Q \<longrightarrow> bk_config b = cfg \<longrightarrow> order_typed ord \<longrightarrow>
        clob_execute (clob_of b) ord = (Ok rp, c) \<longrightarrow> P ((no_account ord, no_client_id ord), rep_result rp))"

lemma caches_kept: "kept b b' \<Longrightarrow> caches P b \<Longrightarrow> caches P b'"
  by (simp add: kept_def caches_def)

lemma submit_caches:
  assumes P: "executes_to sha (bk_config b) P" and rep: "book_rep sha b Q" and typed: "order_typed ord" and ok: "caches P b"
    and run: "submit sha b ord = Some (r, b')"
  shows "caches P b'"
proof (cases "dd_get (bk_dedup b) (no_account ord) (no_client_id ord)")
  case (Some cached)
  then show ?thesis
    using run ok by (simp add: submit_def)
next
  case None
  obtain x b1 where b1: "execute_with_report sha b ord = Some (x, b1)" "kept b b1"
    "clob_execute (clob_of b) ord = (x, clob_of b1)"
    using execute_refines [OF rep typed] unfolding refines_def by blast
  have wf: "dd_wf (bk_dedup b)"
    using rep by (simp add: book_rep_def)
  show ?thesis
  proof (cases x)
    case (Inl e)
    then show ?thesis
      using None run b1 caches_kept [OF b1(2) ok] by (auto simp: submit_def execute_def)
  next
    case (Inr rp)
    have new: "P ((no_account ord, no_client_id ord), rep_result rp)"
      using P rep typed b1(3) Inr unfolding executes_to_def by blast
    have "b' = b1\<lparr>bk_dedup := dd_insert (bk_dedup b) (no_account ord) (no_client_id ord) (rep_result rp)\<rparr>"
      using None run b1 Inr by (auto simp: submit_def execute_def kept_def)
    then show ?thesis
      using ok new b1(2) dd_insert_records [OF wf] unfolding caches_def kept_def by fastforce
  qed
qed

lemma basket_caches:
  assumes P: "executes_to sha cfg P" and "caches P snap"
    and "caches P b" and "book_inv sha b" and "bk_config b = cfg" and "\<forall>leg\<in>set legs. order_typed leg"
    and "basket_apply sha snap legs out b = Some (r, b')"
  shows "caches P b'"
  using assms(3-)
proof (induction legs arbitrary: out b)
  case (Cons leg legs)
  obtain Q where Q: "book_rep sha b Q"
    using Cons.prems(2) by (auto simp: book_inv_def)
  obtain x b1 where b1: "submit sha b leg = Some (x, b1)" "book_inv sha b1" "bk_config b1 = cfg"
    using submit_refines [OF Q, of leg] Cons.prems(3,4) by auto
  have "caches P b1"
    using submit_caches [OF _ Q _ Cons.prems(1) b1(1)] Cons.prems(3,4) P by simp
  then show ?case
    using Cons.IH [of b1] Cons.prems b1 assms(2) by (cases x) auto
qed (use assms in simp)

lemma refines_caches: "refines sha b res spec \<Longrightarrow> caches P b \<Longrightarrow> map_option snd res = Some b' \<Longrightarrow> caches P b'"
  by (auto simp: refines_def intro: caches_kept)

lemma command_caches:
  assumes P: "executes_to sha (bk_config b) P" and inv: "book_inv sha b" and typed: "command_typed c"
    and ok: "caches P b" and run: "apply_command sha b c = Some b'"
  shows "caches P b'"
proof -
  obtain Q where rep: "book_rep sha b Q"
    using inv by (auto simp: book_inv_def)
  show ?thesis
  proof (cases c)
    case (Submit ord)
    then show ?thesis
      using submit_caches [OF P rep _ ok] typed run by auto
  next
    case (Place ord)
    then show ?thesis
      using refines_caches [OF execute_refines [OF rep, of ord] ok, of b'] typed run
      by (cases "execute_with_report sha b ord") (auto simp: place_def place_with_report_def)
  next
    case (Cancel i)
    then show ?thesis
      using refines_caches [OF cancel_refines [OF rep, of i] ok] run by simp
  next
    case (CancelAll a)
    then show ?thesis
      using refines_caches [OF cancel_all_refines [OF rep, of a] ok] run by simp
  next
    case (Replace i p q)
    then show ?thesis
      using refines_caches [OF replace_refines [OF rep, of i p q] ok, of b'] typed run
      by (cases "replace_with_report sha b i p q") (auto simp: replace_def)
  next
    case (SubmitBasket legs)
    then show ?thesis
      using basket_caches [OF P ok ok inv, of legs "[]"] typed run ok
      by (auto simp: submit_basket_def split: sum.splits if_splits)
  next
    case (SetPosition a q)
    then show ?thesis
      using ok typed run by (fastforce simp: caches_def set_position_def omap_get_put_fun split: if_splits)
  qed
qed

lemma reachable_caches:
  assumes "reachable sha cfg b" and "cfg_capacity cfg \<le> u32_max" and P: "executes_to sha cfg P"
  shows "caches P b"
  using assms
proof (induction rule: reachable.induct)
  case reach_new
  then show ?case
    by (simp add: caches_def book_new_def dd_with_capacity_def dd_records_def dom_def)
next
  case (reach_step b c b')
  then show ?case
    using command_caches [of sha b P c b'] reachable_inv [OF reach_step.hyps(1)] by simp
qed

section \<open>Every reachable book has an image\<close>

lemma reachable_cache_ok:
  assumes "reachable sha cfg b" and "cfg_capacity cfg \<le> u32_max"
  shows "cache_ok b"
proof -
  have "executes_to sha cfg record_ok"
    unfolding executes_to_def by (blast intro: execute_result_ok)
  then show ?thesis
    using reachable_caches [OF assms] by (auto simp: caches_def cache_ok_def dom_def)
qed

text \<open>How large an image can get: at most one level and 37 bytes for each order, one position for each
  account number, and every cached result no longer than the book is deep.\<close>

definition image_bound :: "book_config \<Rightarrow> nat" where
  "image_bound cfg = 59 + 53 * cfg_capacity cfg + 12 * (u32_max + 1) +
     cfg_dedup_capacity cfg * (29 + 41 * cfg_capacity cfg)"

lemma record_fills_le:
  "\<forall>(k, r)\<in>set recs. length (mr_fills r) \<le> n \<Longrightarrow> record_fills recs \<le> length recs * n"
  by (induction recs) auto

lemma levels_le_orders:
  assumes "book_rep sha b Q"
  shows "level_count (side_of sd b) \<le> level_orders (side_levels b Q sd)"
proof -
  have filled: "0 < length (Q sd p)" if "p \<in> set (omap_keys (sb_levels (side_of sd b)))" for p
    using side_keys [OF book_rep_side [OF assms]] that by blast
  have "length ps \<le> sum_list (map (length \<circ> Q sd) ps)" if "set ps \<subseteq> set (omap_keys (sb_levels (side_of sd b)))" for ps
    using that
  proof (induction ps)
    case (Cons p ps)
    then show ?case using filled [of p] by (simp add: Suc_le_eq flip: length_greater_0_conv)
  qed simp
  then show ?thesis
    unfolding level_orders_slots level_count_levels [of sd b Q]
    by (simp add: side_levels_def canonical_slots_def length_concat comp_def)
qed

lemma reachable_shape_bounds:
  assumes reach: "reachable sha cfg b" and cap: "cfg_capacity cfg \<le> u32_max" and rep: "book_rep sha b Q"
  shows "sh_levels (image_shape (parts_of b Q)) \<le> cfg_capacity cfg" and "sh_orders (image_shape (parts_of b Q)) \<le> cfg_capacity cfg"
    and "sh_positions (image_shape (parts_of b Q)) \<le> u32_max + 1"
    and "sh_dedup_records (image_shape (parts_of b Q)) \<le> cfg_dedup_capacity cfg"
    and "sh_fills (image_shape (parts_of b Q)) \<le> cfg_dedup_capacity cfg * cfg_capacity cfg"
    and "\<forall>(k, r)\<in>set (dd_records (bk_dedup b)). length (mr_fills r) \<le> cfg_capacity cfg"
proof -
  have cfg: "bk_config b = cfg"
    using reachable_inv [OF reach cap] by simp
  note sh = parts_shape [OF rep]
  have "executes_to sha cfg (\<lambda>(k, r). length (mr_fills r) \<le> cfg_capacity cfg)"
    unfolding executes_to_def using fills_within_capacity by fastforce
  then have c: "caches (\<lambda>(k, r). length (mr_fills r) \<le> cfg_capacity cfg) b"
    using reachable_caches [OF reach cap] by blast
  then show fills: "\<forall>(k, r)\<in>set (dd_records (bk_dedup b)). length (mr_fills r) \<le> cfg_capacity cfg"
    by (simp add: caches_def)
  have records: "length (dd_records (bk_dedup b)) \<le> cfg_dedup_capacity cfg"
    using rep cfg by (auto simp: dd_records_def book_rep_def dd_wf_def)
  have "record_fills (dd_records (bk_dedup b)) \<le> length (dd_records (bk_dedup b)) * cfg_capacity cfg"
    using fills by (rule record_fills_le)
  also have "\<dots> \<le> cfg_dedup_capacity cfg * cfg_capacity cfg"
    using records by simp
  finally show "sh_fills (image_shape (parts_of b Q)) \<le> cfg_dedup_capacity cfg * cfg_capacity cfg"
    by (simp add: sh)
  have "omap_size (bk_positions b) \<le> card {..u32_max}"
    using c unfolding omap_size_card caches_def by (intro card_mono) simp_all
  then show "sh_positions (image_shape (parts_of b Q)) \<le> u32_max + 1"
    by (simp add: sh)
  show orders: "sh_orders (image_shape (parts_of b Q)) \<le> cfg_capacity cfg"
    using live_le_capacity [OF rep] cfg by (simp add: sh)
  have "level_count (bk_bids b) + level_count (bk_asks b) \<le> live (bk_slab b)"
    using levels_le_orders [OF rep, of Bid] levels_le_orders [OF rep, of Ask] sh
    by (simp add: side_of_def image_shape_def parts_of_def)
  then show "sh_levels (image_shape (parts_of b Q)) \<le> cfg_capacity cfg"
    using orders by (simp add: sh)
  show "sh_dedup_records (image_shape (parts_of b Q)) \<le> cfg_dedup_capacity cfg"
    using records by (simp add: sh dd_record_count_def dd_records_def)
qed

lemma reachable_image_bound:
  assumes "reachable sha cfg b" and "cfg_capacity cfg \<le> u32_max" and "book_rep sha b Q"
  shows "shape_size (image_shape (parts_of b Q)) \<le> image_bound cfg"
  using reachable_shape_bounds [OF assms] by (simp add: shape_size_def image_bound_def algebra_simps)

end
