(* ===== verification/StateRestore.thy ===== *)
theory StateRestore
  imports CacheInv
begin

text \<open>
  Restoring a book from the image of well-formed parts: the second pass of \<open>decode_state_v3_bounded\<close>
  rebuilds the slab, the levels and every index, so that the rebuilt book satisfies the invariant and
  consists of exactly the parts the image was written from.
\<close>

unbundle bit_operations_syntax

section \<open>Reading the parts\<close>

lemma reads_node:
  assumes "node_typed n"
  shows "reads read_node (node_bytes n) (payload n)"
proof -
  have fields: "payload n = \<lparr>nd_order_id = nd_order_id n, nd_account = nd_account n, nd_side = nd_side n,
      nd_price = nd_price n, nd_remaining = nd_remaining n, nd_client_id = nd_client_id n, nd_prev = NIL, nd_next = NIL\<rparr>"
    by (cases n) (simp add: payload_def)
  have "reads read_node (node_bytes n @ []) (payload n)"
    unfolding read_node_def node_bytes_def append_assoc using assms
    by (intro reads_step) (simp_all add: node_typed_def reads_return fields)
  then show ?thesis by simp
qed

lemma reads_fill_list:
  assumes "\<forall>f\<in>set fs. fill_typed f" and "distinct (map maker_order fs)" and "makers \<inter> maker_order ` set fs = {}"
  shows "reads (read_fills (length fs) makers) (concat (map fill_bytes fs)) fs"
  using assms
proof (induction fs arbitrary: makers)
  case Nil
  then show ?case by (simp add: reads_return)
next
  case (Cons f fs)
  have "reads (read_fills (length fs) (insert (maker_order f) makers)) (concat (map fill_bytes fs)) fs"
    using Cons.prems by (intro Cons.IH) auto
  then have "reads (read_fills (Suc (length fs)) makers) (fill_bytes f @ concat (map fill_bytes fs)) (f # fs)"
    unfolding read_fills.simps using Cons.prems
    by (intro reads_bind [OF reads_fill] reads_step(6) reads_last) (auto intro: reads_return)
  then show ?case by simp
qed

lemma decode_outcome_code [simp]: "decode_outcome (fst (outcome_code oc)) (snd (outcome_code oc)) = Ok oc"
  by (cases oc) (simp_all add: decode_outcome_def)

lemma cached_makers_distinct:
  assumes "try_fold (check_cached_fill a) fs s = Ok s'"
  shows "distinct (map maker_order fs) \<and> fw_makers s \<inter> maker_order ` set fs = {}"
  using assms
proof (induction fs arbitrary: s)
  case (Cons f fs)
  then obtain t where t: "check_cached_fill a f s = Ok t" "try_fold (check_cached_fill a) fs t = Ok s'"
    by (auto simp: and_then_Inr_iff)
  then have "fw_makers t = insert (maker_order f) (fw_makers s)" "maker_order f \<notin> fw_makers s"
    by (auto simp: check_cached_fill_def and_then_Inr_iff split: if_splits)
  then show ?case
    using Cons.IH [OF t(2)] by auto
qed simp

lemma reads_result:
  assumes "record_ok (k, r)"
  shows "reads decode_match_result (result_image r) r"
proof -
  obtain account client where k: "k = (account, client)" by fastforce
  have typed: "\<forall>f\<in>set (mr_fills r). fill_typed f" "fits I64 (snd (outcome_code (mr_outcome r)))"
    "length (mr_fills r) \<le> u64_max" "distinct (map maker_order (mr_fills r))"
    using assms cached_makers_distinct [of account "mr_fills r" fill_walk_start]
    by (auto simp: record_ok_def k validate_cached_match_result_def usize_as_u64_def and_then_Inr_iff split: if_splits)
  have fills: "reads (read_fills (length (mr_fills r)) {}) (concat (map fill_bytes (mr_fills r))) (mr_fills r)"
    using typed by (intro reads_fill_list) simp_all
  have whole: "reads (rd_return \<lparr>mr_fills = mr_fills r, mr_outcome = mr_outcome r\<rparr>) [] r"
    using reads_return by (cases r) simp
  have "reads decode_match_result (result_image r @ []) r"
    unfolding decode_match_result_def result_image_def append_assoc
    using typed outcome_tag_byte
    by (intro reads_step reads_bind [OF fills]) (auto intro!: reads_lift reads_return simp: whole)
  then show ?thesis by simp
qed

lemma reads_positions:
  assumes "\<forall>(a, q)\<in>set ps. a \<le> u32_max \<and> fits I64 q" and "distinct (map fst ps)" and "\<forall>a\<in>fst ` set ps. omap_get m a = None"
  shows "reads (restore_positions (length ps) m) (concat (map position_bytes ps)) (fold (\<lambda>(a, q). omap_put a q) ps m)"
  using assms
proof (induction ps arbitrary: m)
  case Nil
  then show ?case by (simp add: reads_return)
next
  case (Cons pq ps)
  obtain a q where pq: "pq = (a, q)" by fastforce
  have "reads (restore_positions (length ps) (omap_put a q m)) (concat (map position_bytes ps))
      (fold (\<lambda>(a, q). omap_put a q) ps (omap_put a q m))"
    using Cons.prems by (intro Cons.IH) (auto simp: pq)
  then have "reads (restore_positions (Suc (length ps)) m) (le_bytes 4 a @ le_i64 q @ concat (map position_bytes ps))
      (fold (\<lambda>(a, q). omap_put a q) (pq # ps) m)"
    unfolding restore_positions.simps using Cons.prems by (intro reads_step) (simp_all add: pq)
  then show ?case
    by (simp add: pq position_bytes_def del: restore_positions.simps)
qed

lemma reads_records:
  assumes "\<forall>rec\<in>set recs. record_ok rec" and "distinct (map fst recs)" and "seen \<inter> fst ` set recs = {}"
  shows "reads (restore_records (length recs) seen c) (concat (map record_image recs))
    (fold (\<lambda>((a, i), r) c. dd_insert c a i r) recs c)"
  using assms
proof (induction recs arbitrary: seen c)
  case Nil
  then show ?case by (simp add: reads_return)
next
  case (Cons rec recs)
  obtain a i r where rec: "rec = ((a, i), r)" by (metis prod.collapse)
  have r: "a \<le> u32_max" "i \<le> u64_max" "reads decode_match_result (result_image r) r"
    using Cons.prems(1) reads_result [of "(a, i)" r] by (auto simp: rec record_ok_def)
  have "reads (restore_records (length recs) (insert (a, i) seen) (dd_insert c a i r)) (concat (map record_image recs))
      (fold (\<lambda>((a, i), r) c. dd_insert c a i r) recs (dd_insert c a i r))"
    using Cons.prems by (intro Cons.IH) (auto simp: rec)
  then have "reads (restore_records (Suc (length recs)) seen c)
      (le_bytes 4 a @ le_bytes 8 i @ result_image r @ concat (map record_image recs))
      (fold (\<lambda>((a, i), r) c. dd_insert c a i r) (rec # recs) c)"
    unfolding restore_records.simps using Cons.prems r
    by (intro reads_step reads_bind [OF r(3)]) (auto simp: rec)
  then show ?case
    by (simp add: rec record_image_def del: restore_records.simps)
qed

section \<open>Resting orders\<close>

text \<open>What the sides hold, as lists of orders. While orders are restored the account lists are in
  arrival order; they are sorted once at the end.\<close>

type_synonym book_view = "side \<Rightarrow> price \<Rightarrow> node list"

definition view_ids :: "book_view \<Rightarrow> order_id set" where
  "view_ids V = {i. \<exists>sd p. i \<in> nd_order_id ` set (V sd p)}"

definition view_add :: "side \<Rightarrow> price \<Rightarrow> node list \<Rightarrow> book_view \<Rightarrow> book_view" where
  "view_add sd p ns V = V(sd := (V sd)(p := V sd p @ ns))"

definition book_view :: "order_book \<Rightarrow> queues \<Rightarrow> book_view" where
  "book_view b Q = (\<lambda>sd p. map (\<lambda>x. the (live_orders b x)) (Q sd p))"

definition sorted_accounts :: "order_book \<Rightarrow> order_book" where
  "sorted_accounts b = b\<lparr>bk_account_orders := omap_map_values sort (bk_account_orders b)\<rparr>"

definition restored :: "sha256 \<Rightarrow> book_config \<Rightarrow> book_view \<Rightarrow> nat \<Rightarrow> restoring \<Rightarrow> bool" where
  "restored sha cfg V k = (\<lambda>(b, seen).
     (\<exists>Q. book_rep sha (sorted_accounts b) Q \<and> book_view b Q = V) \<and> seen = view_ids V \<and> live (bk_slab b) = k
     \<and> bk_config b = cfg \<and> bk_positions b = omap_empty \<and> bk_dedup b = dd_with_capacity (cfg_dedup_capacity cfg))"

definition apart :: "side \<Rightarrow> price \<Rightarrow> book_view \<Rightarrow> bool" where
  "apart sd p V \<longleftrightarrow> (\<forall>q. V (opposite sd) q \<noteq> [] \<longrightarrow> (case sd of Bid \<Rightarrow> p < q | Ask \<Rightarrow> q < p))"

definition node_ok :: "side \<Rightarrow> price \<Rightarrow> node \<Rightarrow> bool" where
  "node_ok sd p n \<longleftrightarrow> nd_side n = sd \<and> nd_price n = p \<and> 0 < nd_remaining n \<and> node_typed n \<and> payload n = n"

lemma view_ids_add [simp]: "view_ids (view_add sd p ns V) = view_ids V \<union> nd_order_id ` set ns"
proof -
  have "i \<in> nd_order_id ` set (view_add sd p ns V s q) \<longleftrightarrow>
      i \<in> nd_order_id ` set (V s q) \<or> s = sd \<and> q = p \<and> i \<in> nd_order_id ` set ns" for i s q
    by (auto simp: view_add_def)
  then show ?thesis
    unfolding view_ids_def by blast
qed

lemma view_add_add: "view_add sd p ms (view_add sd p ns V) = view_add sd p (ns @ ms) V"
  by (simp add: view_add_def)

lemma view_add_same [simp]: "view_add sd p ns V sd p = V sd p @ ns"
  by (simp add: view_add_def)

lemma view_add_opposite [simp]: "view_add sd p ns V (opposite sd) = V (opposite sd)"
  by (simp add: view_add_def)

lemma apart_add [simp]: "apart sd q (view_add sd p ns V) = apart sd q V"
  by (simp add: apart_def)

lemma sorted_accounts_fields [simp]:
  "bk_config (sorted_accounts b) = bk_config b" "bk_slab (sorted_accounts b) = bk_slab b"
  "bk_id_index (sorted_accounts b) = bk_id_index b" "bk_positions (sorted_accounts b) = bk_positions b"
  "bk_dedup (sorted_accounts b) = bk_dedup b" "bk_order_leaf_xor (sorted_accounts b) = bk_order_leaf_xor b"
  "side_of sd (sorted_accounts b) = side_of sd b" "live_orders (sorted_accounts b) = live_orders b"
  "account_ids (bk_account_orders (sorted_accounts b)) a = sort (account_ids (bk_account_orders b) a)"
  by (simp_all add: sorted_accounts_def account_ids_map_values)

lemma view_live:
  assumes "book_rep sha (sorted_accounts b) Q" and "live_orders b x = Some n"
  shows "nd_order_id n \<in> view_ids (book_view b Q)"
proof -
  have "x \<in> dom (live_orders (sorted_accounts b))"
    using assms(2) by auto
  then have "x \<in> queued Q"
    using assms(1) by (simp add: book_rep_def)
  then show ?thesis
    using assms(2) by (force simp: view_ids_def book_view_def queued_def)
qed

lemma view_absent:
  assumes rep: "book_rep sha (sorted_accounts b) Q" and new: "i \<notin> view_ids (book_view b Q)"
  shows "omap_get (bk_id_index b) i = None" and "i \<notin> owned (live_orders b) a"
proof -
  have none: "live_orders b x = Some n \<Longrightarrow> nd_order_id n \<noteq> i" for x n
    using view_live [OF rep] new by blast
  have "index_ok (live_orders b) (bk_id_index b)"
    using rep by (simp add: book_rep_def)
  then show "omap_get (bk_id_index b) i = None"
    using none by (metis index_ok_lookup not_Some_eq)
  show "i \<notin> owned (live_orders b) a"
    using none by (auto simp: owned_def)
qed

lemma view_level_total:
  assumes "book_rep sha (sorted_accounts b) Q"
  shows "level_total (side_of sd b) p = sum_list (map nd_remaining (book_view b Q sd p))"
proof -
  have "qty_at (bk_slab b) = nd_remaining \<circ> (\<lambda>x. the (live_orders b x))"
    by (simp add: qty_at_def live_orders_def fun_eq_iff)
  then show ?thesis
    using level_total_rep [OF book_rep_side [OF assms], of sd p] by (simp add: book_view_def comp_def)
qed

lemma apart_uncrossed:
  assumes "uncrossed Q" and "apart sd p (book_view b Q)"
  shows "uncrossed (Q(sd := (Q sd)(p := Q sd p @ [slot])))"
  using assms by (cases sd) (auto simp: uncrossed_def apart_def book_view_def split: if_splits)

lemma accounts_push:
  assumes ok: "accounts_ok M (bk_account_orders (sorted_accounts b))" and "M x = None" and new: "nd_order_id n \<notin> owned M (nd_account n)"
    and acc: "\<And>a. account_ids (bk_account_orders b') a =
      account_ids (bk_account_orders b) a @ (if a = nd_account n then [nd_order_id n] else [])"
  shows "accounts_ok (M(x \<mapsto> n)) (bk_account_orders (sorted_accounts b'))"
proof -
  have old: "sorted_wrt (<) (sort (account_ids (bk_account_orders b) a))"
    "set (account_ids (bk_account_orders b) a) = owned M a" for a
    using ok by (simp_all add: accounts_ok_def)
  have "distinct (account_ids (bk_account_orders b) a)" for a
    using old(1) [of a] by (metis distinct_sort strict_sorted_iff)
  then show ?thesis
    using old new
    by (auto simp: accounts_ok_def acc owned_insert [of M, OF assms(2)] strict_sorted_iff)
qed

lemma restore_node_step:
  assumes st: "restored sha cfg V k (b, seen)" and n: "node_ok sd p n" and pos: "0 < p"
    and new: "nd_order_id n \<notin> view_ids V" and apart: "apart sd p V"
    and fit: "fits I64 (sum_list (map nd_remaining (V sd p)) + nd_remaining n)" and room: "k < cfg_capacity cfg"
  shows "\<exists>st'. restore_node sha sd p n (b, seen) = Some (Ok st') \<and> restored sha cfg (view_add sd p [n] V) (Suc k) st'"
proof -
  let ?s = "sorted_accounts b"
  obtain Q where rep: "book_rep sha ?s Q" and V: "book_view b Q = V" and seen: "seen = view_ids V"
    and k: "live (bk_slab b) = k" and rest: "bk_config b = cfg" "bk_positions b = omap_empty"
      "bk_dedup b = dd_with_capacity (cfg_dedup_capacity cfg)"
    using st by (auto simp: restored_def)
  have nd: "nd_side n = sd" "nd_price n = p" "0 < nd_remaining n" "node_typed n" "payload n = n"
    using n by (simp_all add: node_ok_def)
  have cap: "capacity (bk_slab b) = cfg_capacity cfg"
    using rep rest(1) by (simp add: book_rep_def)
  obtain slot sl1 sb sl2 where i: "slab_insert (bk_slab b) n = Some (Ok slot, sl1)"
    "push_back (side_of sd b) sl1 slot = Some (sb, sl2)"
    "live_orders b slot = None" "contents sl2 = (live_orders b)(slot \<mapsto> n)"
    "live sl2 = live (bk_slab b) + 1" "capacity sl2 = capacity (bk_slab b)" "slab_wf sl2"
    "side_rep sl2 sd sb ((Q sd)(p := Q sd p @ [slot]))"
    "\<And>s. s \<noteq> sd \<Longrightarrow> side_rep sl2 s (side_of s b) (Q s)"
    by (rule insert_slot_sides [OF rep nd(1,2,5) pos nd(3)])
      (use fit room cap k in \<open>simp_all add: view_level_total [OF rep] V\<close>)
  obtain m where m: "slab_get sl2 slot = Some m" "payload m = n"
    using fun_cong [OF i(4), of slot] by (auto simp: contents_def)
  have leaf: "order_leaf sha m = order_leaf sha n"
    using m(2) order_leaf_payload by metis
  note absent = view_absent [OF rep, unfolded V, OF new]
  define b' where "b' = (set_side sd sb b)\<lparr>bk_slab := sl2,
      bk_order_leaf_xor := bk_order_leaf_xor b XOR order_leaf sha n,
      bk_id_index := omap_put (nd_order_id n) \<lparr>loc_slot = slot, loc_side = nd_side n, loc_account = nd_account n\<rparr> (bk_id_index b),
      bk_account_orders := omap_put (nd_account n) (account_ids (bk_account_orders b) (nd_account n) @ [nd_order_id n])
        (bk_account_orders b)\<rparr>"
  have run: "restore_node sha sd p n (b, seen) = Some (Ok (b', insert (nd_order_id n) seen))"
    using nd i(1,2) m(1) leaf absent(1) new seen
    by (simp add: restore_node_def Let_def auth_insert_def b'_def account_ids_def)
  let ?Q = "Q(sd := (Q sd)(p := Q sd p @ [slot]))"
  have lo: "live_orders b' = (live_orders b)(slot \<mapsto> n)"
    using i(4) by (simp add: b'_def live_orders_def)
  have "book_rep sha (sorted_accounts b') ?Q"
  proof (rule inserted_rep [OF rep, of slot n "sorted_accounts b'"])
    have "accounts_ok (live_orders b) (bk_account_orders ?s)"
      using rep by (simp add: book_rep_def)
    then show "accounts_ok (live_orders (sorted_accounts b')) (bk_account_orders (sorted_accounts b'))"
      unfolding sorted_accounts_fields lo by (rule accounts_push) (use i(3) absent(2) in \<open>simp_all add: b'_def\<close>)
    show "uncrossed ?Q"
      using rep apart V by (intro apart_uncrossed [where b = b]) (simp_all add: book_rep_def)
    show "side_rep (bk_slab (sorted_accounts b')) s (side_of s (sorted_accounts b')) (?Q s)" for s
      using i(8,9) by (simp add: b'_def)
  qed (use i nd absent lo in \<open>simp_all add: b'_def kept_def\<close>)
  moreover have "slot \<notin> set (Q s q)" for s q
    using queue_live [OF rep, of s q] i(3) by auto
  then have "book_view b' ?Q = view_add sd p [n] V"
    by (auto simp: book_view_def view_add_def lo fun_eq_iff simp flip: V)
  ultimately have "restored sha cfg (view_add sd p [n] V) (Suc k) (b', insert (nd_order_id n) seen)"
    using rest i(5) k by (auto simp: restored_def seen b'_def)
  then show ?thesis
    using run by blast
qed

lemma remaining_nonneg: "makers_ok ms \<Longrightarrow> 0 \<le> sum_list (map nd_remaining ms)"
  by (induction ms) auto

lemma restore_orders_step:
  assumes "restored sha cfg V k st" and "\<forall>n\<in>set ns. node_ok sd p n" and pos: "0 < p"
    and "distinct (map nd_order_id ns)" and "view_ids V \<inter> nd_order_id ` set ns = {}" and "apart sd p V"
    and "fits I64 (sum_list (map nd_remaining (V sd p @ ns)))" and "\<forall>n\<in>set (V sd p). 0 < nd_remaining n"
    and "k + length ns \<le> cfg_capacity cfg" and "left r = concat (map node_bytes ns) @ rest"
  shows "\<exists>st'. restore_orders sha (length ns) sd p st r = Some (Ok (st', adv r (length (concat (map node_bytes ns)))))
    \<and> restored sha cfg (view_add sd p ns V) (k + length ns) st'"
  using assms(1-2,4-)
proof (induction ns arbitrary: V k st r)
  case Nil
  then show ?case by (simp add: view_add_def)
next
  case (Cons n ns)
  obtain b seen where st: "st = (b, seen)" by fastforce
  have n: "node_ok sd p n" "node_typed n" "payload n = n" "0 < nd_remaining n"
    using Cons.prems(2) by (auto simp: node_ok_def)
  have "0 \<le> sum_list (map nd_remaining (V sd p))" "0 \<le> sum_list (map nd_remaining ns)"
    using Cons.prems(2,7) by (auto intro!: remaining_nonneg simp: node_ok_def)
  then have fit: "fits I64 (sum_list (map nd_remaining (V sd p)) + nd_remaining n)"
    using fits_nonneg_le [OF Cons.prems(6), of "sum_list (map nd_remaining (V sd p)) + nd_remaining n"] n(4) by simp
  obtain st1 where st1: "restore_node sha sd p n st = Some (Ok st1)" "restored sha cfg (view_add sd p [n] V) (Suc k) st1"
    using restore_node_step [OF Cons.prems(1) [unfolded st] n(1) pos _ Cons.prems(5) fit] Cons.prems(4,8) st by auto
  have read: "read_node r = Ok (n, adv r (length (node_bytes n)))"
    using readsD [OF reads_node [OF n(2)], of r] Cons.prems(9) n(3) by simp
  have "\<exists>st'. restore_orders sha (length ns) sd p st1 (adv r (length (node_bytes n))) =
      Some (Ok (st', adv (adv r (length (node_bytes n))) (length (concat (map node_bytes ns)))))
    \<and> restored sha cfg (view_add sd p ns (view_add sd p [n] V)) (Suc k + length ns) st'"
  proof (rule Cons.IH [OF st1(2)])
    show "left (adv r (length (node_bytes n))) = concat (map node_bytes ns) @ rest"
      using Cons.prems(9) by simp
  qed (use Cons.prems n in auto)
  then show ?case
    using st1(1) read by (auto simp: view_add_add)
qed

text \<open>Levels in ascending order, each at a price not restored yet.\<close>

definition view_levels :: "side \<Rightarrow> (price \<times> node list) list \<Rightarrow> book_view \<Rightarrow> book_view" where
  "view_levels sd ls V = fold (\<lambda>(p, ns). view_add sd p ns) ls V"

definition level_ids :: "(price \<times> node list) list \<Rightarrow> order_id list" where
  "level_ids ls = concat (map (\<lambda>(_, ns). map nd_order_id ns) ls)"

lemma level_ids_Cons [simp]: "level_ids [] = []" "level_ids ((p, ns) # ls) = map nd_order_id ns @ level_ids ls"
  by (simp_all add: level_ids_def)

lemma level_orders_Cons [simp]: "level_orders [] = 0" "level_orders ((p, ns) # ls) = length ns + level_orders ls"
  by (simp_all add: level_orders_def)

lemma view_add_other: "q \<noteq> p \<Longrightarrow> view_add sd p ns V sd q = V sd q"
  by (simp add: view_add_def)

lemma restore_levels_step:
  assumes "restored sha cfg V k st" and "\<forall>l\<in>set ls. level_wf sd l \<and> (\<forall>n\<in>set (snd l). payload n = n)"
    and "distinct (map fst ls)" and "\<forall>l\<in>set ls. V sd (fst l) = [] \<and> apart sd (fst l) V"
    and "distinct (level_ids ls)" and "view_ids V \<inter> set (level_ids ls) = {}"
    and "k + level_orders ls \<le> cfg_capacity cfg" and "cfg_capacity cfg \<le> u64_max"
    and "left r = concat (map level_image ls) @ rest"
  shows "\<exists>st'. restore_levels sha (length ls) sd st r = Some (Ok (st', adv r (length (concat (map level_image ls)))))
    \<and> restored sha cfg (view_levels sd ls V) (k + level_orders ls) st'"
  using assms
proof (induction ls arbitrary: V k st r)
  case Nil
  then show ?case by (simp add: view_levels_def)
next
  case (Cons l ls)
  obtain p ns where l: "l = (p, ns)" by fastforce
  have wf: "0 < p" "fits I64 p" "\<forall>n\<in>set ns. node_ok sd p n" "fits I64 (sum_list (map nd_remaining ns))"
    using Cons.prems(2) by (auto simp: l level_wf_def node_ok_def)
  have len: "length ns \<le> u64_max"
    using Cons.prems(7,8) by (simp add: l)
  let ?r1 = "adv r (length (le_i64 p))" 
  let ?r2 = "adv ?r1 (length (le_bytes 8 (length ns)))"
  have r1: "rd_i64 r = Ok (p, ?r1)"
    by (rule readsD [OF reads_i64 [OF wf(2)]]) (use Cons.prems(9) in \<open>simp add: l level_image_def\<close>)
  have r2: "rd_u64 ?r1 = Ok (length ns, ?r2)"
    by (rule readsD [OF reads_u64 [OF len]]) (use Cons.prems(9) in \<open>simp add: l level_image_def\<close>)
  have left2: "left ?r2 = concat (map node_bytes ns) @ concat (map level_image ls) @ rest"
    using Cons.prems(9) by (simp add: l level_image_def)
  obtain st1 where st1: "restore_orders sha (length ns) sd p st ?r2 = Some (Ok (st1, adv ?r2 (length (concat (map node_bytes ns)))))"
    "restored sha cfg (view_add sd p ns V) (k + length ns) st1"
    using restore_orders_step [OF Cons.prems(1) wf(3,1) _ _ _ _ _ _ left2] Cons.prems(4-7) wf(4)
    by (auto simp: l)
  let ?r3 = "adv ?r2 (length (concat (map node_bytes ns)))"
  have adv3: "?r3 = adv r (length (level_image l))"
    by (simp add: l level_image_def add.assoc)
  have "\<exists>st'. restore_levels sha (length ls) sd st1 ?r3 = Some (Ok (st', adv ?r3 (length (concat (map level_image ls)))))
    \<and> restored sha cfg (view_levels sd ls (view_add sd p ns V)) (k + length ns + level_orders ls) st'"
  proof (rule Cons.IH [OF st1(2)])
    show "left ?r3 = concat (map level_image ls) @ rest"
      unfolding left_adv [of ?r2] left2 by simp
    show "\<forall>l\<in>set ls. view_add sd p ns V sd (fst l) = [] \<and> apart sd (fst l) (view_add sd p ns V)"
      using Cons.prems(3,4) by (auto simp: l image_iff intro!: trans [OF view_add_other])
  qed (use Cons.prems in \<open>auto simp: l\<close>)
  then obtain st2 where st2: "restore_levels sha (length ls) sd st1 ?r3 = Some (Ok (st2, adv ?r3 (length (concat (map level_image ls)))))"
    "restored sha cfg (view_levels sd ls (view_add sd p ns V)) (k + length ns + level_orders ls) st2"
    by blast
  have "restore_levels sha (length (l # ls)) sd st r = Some (Ok (st2, adv r (length (concat (map level_image (l # ls))))))"
    using r1 r2 st1(1) st2(1) len unfolding adv3 by (simp add: u64_as_usize_def)
  then show ?case
    using st2(2) by (auto simp: l view_levels_def add.assoc)
qed

lemma restore_side_step:
  assumes "restored sha cfg V k st" and "side_wf sd ls" and "\<forall>l\<in>set ls. \<forall>n\<in>set (snd l). payload n = n"
    and "\<forall>l\<in>set ls. V sd (fst l) = [] \<and> apart sd (fst l) V"
    and "distinct (level_ids ls)" and "view_ids V \<inter> set (level_ids ls) = {}"
    and "k + level_orders ls \<le> cfg_capacity cfg" and "cfg_capacity cfg \<le> u64_max" and "length ls \<le> u64_max"
    and r: "left r = side_image ls @ rest"
  shows "\<exists>st'. restore_state_side sha sd st r = Some (Ok (st', adv r (length (side_image ls))))
    \<and> restored sha cfg (view_levels sd ls V) (k + level_orders ls) st'"
proof -
  let ?r1 = "adv r (length (le_bytes 8 (length ls)))"
  have r1: "rd_u64 r = Ok (length ls, ?r1)"
    by (rule readsD [OF reads_u64 [OF assms(9)]]) (use r in \<open>simp add: side_image_def\<close>)
  have "left ?r1 = concat (map level_image ls) @ rest"
    using r by (simp add: side_image_def)
  then obtain st' where "restore_levels sha (length ls) sd st ?r1 = Some (Ok (st', adv ?r1 (length (concat (map level_image ls)))))"
    "restored sha cfg (view_levels sd ls V) (k + level_orders ls) st'"
    using restore_levels_step [OF assms(1), of ls sd ?r1 rest] assms(2-8)
    by (auto simp: side_wf_def strict_sorted_iff)
  then show ?thesis
    using r1 assms(9) by (simp add: restore_state_side_def u64_as_usize_def side_image_def)
qed

section \<open>The view of the restored book\<close>

lemma view_levels_other: "sd' \<noteq> sd \<Longrightarrow> view_levels sd ls V sd' = V sd'"
  by (induction ls arbitrary: V) (auto simp: view_levels_def view_add_def)

lemma view_levels_ids: "view_ids (view_levels sd ls V) = view_ids V \<union> set (level_ids ls)"
  by (induction ls arbitrary: V) (auto simp: view_levels_def)

lemma view_levels_at:
  "distinct (map fst ls) \<Longrightarrow> (\<And>q. q \<in> fst ` set ls \<Longrightarrow> V sd q = []) \<Longrightarrow>
   view_levels sd ls V sd p = (case map_of ls p of None \<Rightarrow> V sd p | Some ns \<Rightarrow> ns)"
proof (induction ls arbitrary: V)
  case (Cons l ls)
  obtain q ns where l: "l = (q, ns)" by fastforce
  have "view_levels sd ls (view_add sd q ns V) sd p =
      (case map_of ls p of None \<Rightarrow> view_add sd q ns V sd p | Some ns \<Rightarrow> ns)"
    using Cons.prems by (intro Cons.IH) (auto simp: l view_add_def image_iff)
  moreover have "map_of ls q = None"
    using Cons.prems(1) by (simp add: l map_of_eq_None_iff)
  ultimately show ?case
    using Cons.prems(2) by (auto simp: l view_levels_def view_add_def split: option.splits)
qed (simp add: view_levels_def)

text \<open>A book whose view is given by a well-formed list of levels writes that list.\<close>

lemma side_levels_view:
  assumes rep: "book_rep sha b Q" and wf: "side_wf sd ls"
    and view: "\<And>p. book_view b Q sd p = (case map_of ls p of None \<Rightarrow> [] | Some ns \<Rightarrow> ns)"
  shows "side_levels b Q sd = ls"
proof -
  have ls: "sorted_wrt (<) (map fst ls)" "\<forall>l\<in>set ls. snd l \<noteq> []"
    using wf by (auto simp: side_wf_def level_wf_def)
  then have dist: "distinct (map fst ls)"
    by (simp add: strict_sorted_iff)
  have empty: "Q sd p = [] \<longleftrightarrow> book_view b Q sd p = []" for p
    by (simp add: book_view_def)
  have "p \<in> set (omap_keys (sb_levels (side_of sd b))) \<longleftrightarrow> p \<in> fst ` set ls" for p
  proof -
    have "p \<in> set (omap_keys (sb_levels (side_of sd b))) \<longleftrightarrow> book_view b Q sd p \<noteq> []"
      using side_keys [OF book_rep_side [OF rep]] empty by blast
    also have "\<dots> \<longleftrightarrow> p \<in> fst ` set ls"
      using ls(2) dist by (auto simp: view map_of_eq_None_iff dest: map_of_SomeD split: option.splits)
        (force dest: map_of_SomeD)+
    finally show ?thesis .
  qed
  then have keys: "omap_keys (sb_levels (side_of sd b)) = map fst ls"
    using ls(1) entries_ascending [of "sb_levels (side_of sd b)"]
    by (intro strict_sorted_equal) (auto simp: omap_keys_def)
  have "level_nodes b Q sd p = (p, ns)" if l: "(p, ns) \<in> set ls" for p ns
  proof -
    have "book_view b Q sd p = ns"
      using view [of p] map_of_is_SomeI [OF dist l] by simp
    moreover have "map (payload \<circ> node_at b) (Q sd p) = book_view b Q sd p"
      unfolding book_view_def using queue_live [OF rep, of sd p]
      by (auto simp: live_node_at(2) subset_iff)
    ultimately show ?thesis
      by (simp add: level_nodes_def)
  qed
  then show ?thesis
    unfolding side_levels_def keys by (auto intro!: map_idI simp: comp_def split_def)
qed

section \<open>Positions and replay cache\<close>

lemma al_put_last: "\<forall>x\<in>fst ` set es. x < k \<Longrightarrow> al_put k v es = es @ [(k, v)]"
  by (induction es) auto

lemma entries_fold_put:
  assumes "sorted_wrt (<) (map fst (entries m @ ps))"
  shows "entries (fold (\<lambda>(a, q). omap_put a q) ps m) = entries m @ ps"
  using assms
proof (induction ps arbitrary: m)
  case (Cons pq ps)
  obtain a q where pq: "pq = (a, q)" by fastforce
  have "entries (omap_put a q m) = entries m @ [(a, q)]"
    using Cons.prems by (auto simp: pq omap_put.rep_eq sorted_wrt_append intro!: al_put_last)
  then show ?case
    using Cons.IH [of "omap_put a q m"] Cons.prems by (simp add: pq)
qed simp

lemma dd_insert_new_records:
  assumes "dd_wf c" and "(a, i) \<notin> fst ` set (dd_records c)" and "length (dd_order c) < dd_capacity c"
  shows "dd_records (dd_insert c a i r) = dd_records c @ [((a, i), r)]" and "length (dd_order (dd_insert c a i r)) = Suc (length (dd_order c))"
proof -
  have new: "(a, i) \<notin> set (dd_order c)"
    using assms(2) by (force simp: dd_records_def)
  then have "dd_insert c a i r = c\<lparr>dd_order := dd_order c @ [(a, i)], dd_map := omap_put (a, i) r (dd_map c)\<rparr>"
    using dd_insert_fresh [OF _ assms(1), of a i r] assms(3) dd_wf_None [OF assms(1)] by simp
  then show "dd_records (dd_insert c a i r) = dd_records c @ [((a, i), r)]"
    and "length (dd_order (dd_insert c a i r)) = Suc (length (dd_order c))"
    using new by (auto simp: dd_records_def)
qed

lemma dd_records_rebuilt:
  assumes "dd_wf c" and "distinct (map fst (dd_records c @ recs))" and "length (dd_order c) + length recs \<le> dd_capacity c"
  shows "dd_records (fold (\<lambda>((a, i), r) c. dd_insert c a i r) recs c) = dd_records c @ recs
    \<and> dd_wf (fold (\<lambda>((a, i), r) c. dd_insert c a i r) recs c)
    \<and> dd_capacity (fold (\<lambda>((a, i), r) c. dd_insert c a i r) recs c) = dd_capacity c"
  using assms
proof (induction recs arbitrary: c)
  case (Cons rec recs)
  obtain a i r where rec: "rec = ((a, i), r)" by (metis prod.collapse)
  have ins: "dd_records (dd_insert c a i r) = dd_records c @ [((a, i), r)]"
    "length (dd_order (dd_insert c a i r)) = Suc (length (dd_order c))"
    using dd_insert_new_records [OF Cons.prems(1), of a i r] Cons.prems(2,3) by (auto simp: rec)
  then show ?case
    using Cons.IH [OF dd_insert_wf [OF Cons.prems(1)], of a i r] Cons.prems(2,3) by (simp add: rec)
qed simp

lemma restore_rest_image:
  assumes ps: "positions_wf ps" "length ps \<le> u64_max" "bk_positions b = omap_empty"
    and recs: "\<forall>rec\<in>set recs. record_ok rec" "distinct (map fst recs)" "length recs \<le> u64_max"
    and r: "left r = tail_image ps recs" "sr_offset r + length (tail_image ps recs) = length (sr_bytes r)"
  shows "restore_rest b r = Ok (b\<lparr>bk_positions := fold (\<lambda>(a, q). omap_put a q) ps omap_empty,
      bk_dedup := fold (\<lambda>((a, i), r) c. dd_insert c a i r) recs (bk_dedup b)\<rparr>)"
proof -
  let ?n = "length (concat (map position_bytes ps))" and ?m = "length (concat (map record_image recs))"
  have pos: "reads (restore_positions (length ps) (bk_positions b)) (concat (map position_bytes ps))
      (fold (\<lambda>(a, q). omap_put a q) ps omap_empty)"
    using ps reads_positions [of ps omap_empty] by (simp add: positions_wf_def strict_sorted_iff)
  have "rd_u64 r = Ok (length ps, adv r 8)"
    using readsD [OF reads_u64 [OF ps(2)], of r] r by (simp add: tail_image_def)
  moreover have "restore_positions (length ps) (bk_positions b) (adv r 8) =
      Ok (fold (\<lambda>(a, q). omap_put a q) ps omap_empty, adv (adv r 8) ?n)"
    by (rule readsD [OF pos]) (use r in \<open>simp add: tail_image_def\<close>)
  moreover have "rd_u64 (adv (adv r 8) ?n) = Ok (length recs, adv (adv (adv r 8) ?n) 8)"
    using readsD [OF reads_u64 [OF recs(3)], of "adv (adv r 8) ?n"] r by (simp add: tail_image_def)
  moreover have "restore_records (length recs) {} (bk_dedup b) (adv (adv (adv r 8) ?n) 8) =
      Ok (fold (\<lambda>((a, i), r) c. dd_insert c a i r) recs (bk_dedup b), adv (adv (adv (adv r 8) ?n) 8) ?m)"
    by (rule readsD [OF reads_records [OF recs(1,2)], of _ _ "[]"]) (use r in \<open>simp_all add: tail_image_def\<close>)
  moreover have "rd_finish (adv (adv (adv (adv r 8) ?n) 8) ?m) = Ok ()"
    using r(2) by (simp add: rd_finish_def adv_def tail_image_def)
  ultimately show ?thesis
    using ps(2) recs(3) by (simp add: restore_rest_def u64_as_usize_def)
qed

end
