(* ===== verification/StateDecode.thy ===== *)
theory StateDecode
  imports StateRestore
begin

text \<open>
  The whole decoder on the image of well-formed parts, and the parts of a book that satisfies the
  invariant: they are well formed, and they determine the book up to the layout of its slab.
\<close>

section \<open>Restoring the image of well-formed parts\<close>

definition parts_nodes :: "book_parts \<Rightarrow> bool" where
  "parts_nodes bp \<longleftrightarrow> distinct (level_ids (bp_bids bp) @ level_ids (bp_asks bp))
     \<and> (\<forall>l\<in>set (bp_bids bp) \<union> set (bp_asks bp). \<forall>n\<in>set (snd l). payload n = n)"

definition with_backend :: "backend \<Rightarrow> book_config \<Rightarrow> book_config" where
  "with_backend be cfg = cfg\<lparr>cfg_matching_backend := be\<rparr>"

lemma with_backend_fields [simp]:
  "cfg_capacity (with_backend be cfg) = cfg_capacity cfg" "cfg_stp (with_backend be cfg) = cfg_stp cfg"
  "cfg_dedup_capacity (with_backend be cfg) = cfg_dedup_capacity cfg"
  "cfg_max_basket_legs (with_backend be cfg) = cfg_max_basket_legs cfg"
  "cfg_matching_backend (with_backend be cfg) = be"
  by (simp_all add: with_backend_def)

lemma header_config:
  "\<lparr>cfg_capacity = cfg_capacity cfg, cfg_stp = cfg_stp cfg, cfg_dedup_capacity = cfg_dedup_capacity cfg,
    cfg_max_basket_legs = cfg_max_basket_legs cfg, cfg_matching_backend = be\<rparr> = with_backend be cfg"
  by (cases cfg) (simp add: with_backend_def)

lemma view_ids_empty: "view_ids (\<lambda>_ _. []) = {}"
  by (simp add: view_ids_def)

lemma restored_new:
  assumes "cfg_capacity cfg \<le> u32_max"
  shows "restored sha cfg (\<lambda>_ _. []) 0 (book_new cfg, {})"
proof -
  have "omap_map_values sort (omap_empty :: (account_id, order_id list) omap) = omap_empty"
    by (simp add: omap_map_values_def omap_empty.rep_eq)
  then have "sorted_accounts (book_new cfg) = book_new cfg"
    by (simp add: sorted_accounts_def book_new_def)
  then show ?thesis
    using book_new_rep [OF assms, of sha]
    by (auto simp: restored_def book_view_def view_ids_def book_new_def with_capacity_def intro!: exI [of _ "\<lambda>_ _. []"])
qed

lemma skip_header_image:
  assumes "parts_wf bp" and "left r = header_image (bp_config bp) @ rest"
  shows "skip_header r = Ok ((), adv r (length (header_image (bp_config bp))))"
proof -
  have "reads skip_header (header_image (bp_config bp) @ []) ()"
    unfolding skip_header_def header_image_def append_assoc
    using assms(1) by (intro reads_step)
      (simp_all add: parts_wf_def BOOK_TRANSITION_ROOT_SCHEMA_VERSION_def u32_u64 reads_return)
  then show ?thesis
    using readsD [of skip_header "header_image (bp_config bp)" "()" r rest] assms(2) by simp
qed

lemma restore_sides:
  assumes wf: "parts_wf bp" and nodes: "parts_nodes bp" and cfg: "cfg = with_backend be (bp_config bp)"
    and r: "left r = side_image (bp_bids bp) @ side_image (bp_asks bp) @ rest"
  shows "\<exists>st1 b seen. restore_state_side sha Bid (book_new cfg, {}) r = Some (Ok (st1, adv r (length (side_image (bp_bids bp))))) \<and>
    restore_state_side sha Ask st1 (adv r (length (side_image (bp_bids bp)))) =
      Some (Ok ((b, seen), adv (adv r (length (side_image (bp_bids bp)))) (length (side_image (bp_asks bp))))) \<and>
    restored sha cfg (view_levels Ask (bp_asks bp) (view_levels Bid (bp_bids bp) (\<lambda>_ _. [])))
      (level_orders (bp_bids bp) + level_orders (bp_asks bp)) (b, seen)"
proof -
  let ?V0 = "(\<lambda>_ _. []) :: book_view" and ?V1 = "view_levels Bid (bp_bids bp) (\<lambda>_ _. [])"
  let ?r1 = "adv r (length (side_image (bp_bids bp)))"
  have caps: "cfg_capacity cfg \<le> u32_max" "cfg_capacity cfg \<le> u64_max"
    "level_orders (bp_bids bp) + level_orders (bp_asks bp) \<le> cfg_capacity cfg"
    using wf u32_u64 by (auto simp: parts_wf_def cfg)
  have counts: "length (bp_bids bp) \<le> u64_max" "length (bp_asks bp) \<le> u64_max"
    using wf shape_counts(1) [of "image_shape bp"] by (auto simp: parts_wf_def image_shape_def)
  have sides: "side_wf Bid (bp_bids bp)" "side_wf Ask (bp_asks bp)"
    using wf by (simp_all add: parts_wf_def)
  have pay: "\<forall>l\<in>set (bp_bids bp). \<forall>n\<in>set (snd l). payload n = n" "\<forall>l\<in>set (bp_asks bp). \<forall>n\<in>set (snd l). payload n = n"
    using nodes unfolding parts_nodes_def by blast+
  obtain st1 where st1: "restore_state_side sha Bid (book_new cfg, {}) r = Some (Ok (st1, ?r1))"
    "restored sha cfg ?V1 (0 + level_orders (bp_bids bp)) st1"
    using restore_side_step [OF restored_new [OF caps(1), of sha] sides(1) pay(1) _ _ _ _ caps(2) counts(1) r] nodes caps(3)
    by (auto simp: parts_nodes_def apart_def view_ids_empty)
  have priced: "q \<in> fst ` set (bp_bids bp)" if "?V1 Bid q \<noteq> []" for q
    using that view_levels_at [of "bp_bids bp" ?V0 Bid q] sides(1)
    by (auto simp: side_wf_def strict_sorted_iff dest: map_of_SomeD split: option.splits) (force dest: map_of_SomeD)
  have apart: "?V1 Ask p = []" "apart Ask p ?V1" if "p \<in> fst ` set (bp_asks bp)" for p
    using that wf priced by (auto simp: view_levels_other apart_def parts_wf_def)
  have "left ?r1 = side_image (bp_asks bp) @ rest"
    using r by simp
  then obtain b seen where "restore_state_side sha Ask st1 ?r1 = Some (Ok ((b, seen), adv ?r1 (length (side_image (bp_asks bp)))))"
    "restored sha cfg (view_levels Ask (bp_asks bp) ?V1) (0 + level_orders (bp_bids bp) + level_orders (bp_asks bp)) (b, seen)"
    using restore_side_step [OF st1(2) sides(2) pay(2) _ _ _ _ caps(2) counts(2), of ?r1 rest] nodes caps(3) apart
    by (auto simp: parts_nodes_def view_levels_ids view_ids_empty)
  with st1 show ?thesis by auto
qed

definition with_parts :: "backend \<Rightarrow> book_parts \<Rightarrow> book_parts" where
  "with_parts be bp = bp\<lparr>bp_config := with_backend be (bp_config bp)\<rparr>"

lemma restored_levels:
  assumes wf: "parts_wf bp" and rep: "book_rep sha b Q"
    and view: "book_view b Q = view_levels Ask (bp_asks bp) (view_levels Bid (bp_bids bp) (\<lambda>_ _. []))"
  shows "side_levels b Q Bid = bp_bids bp" and "side_levels b Q Ask = bp_asks bp"
proof -
  have sides: "side_wf Bid (bp_bids bp)" "side_wf Ask (bp_asks bp)"
    using wf by (simp_all add: parts_wf_def)
  have dist: "distinct (map fst (bp_bids bp))" "distinct (map fst (bp_asks bp))"
    using sides by (simp_all add: side_wf_def strict_sorted_iff)
  show "side_levels b Q Bid = bp_bids bp"
    using sides(1) by (intro side_levels_view [OF rep]) (simp_all add: view view_levels_other view_levels_at [OF dist(1)])
  show "side_levels b Q Ask = bp_asks bp"
    using sides(2) by (intro side_levels_view [OF rep]) (simp_all add: view view_levels_other view_levels_at [OF dist(2)] cong: option.case_cong)
qed

lemma restored_parts:
  fixes b bp be
  defines "cfg \<equiv> with_backend be (bp_config bp)"
  defines "b' \<equiv> (sorted_accounts b)\<lparr>bk_positions := fold (\<lambda>(a, q). omap_put a q) (bp_positions bp) omap_empty,
      bk_dedup := fold (\<lambda>((a, i), r) c. dd_insert c a i r) (bp_records bp) (dd_with_capacity (cfg_dedup_capacity cfg))\<rparr>"
  assumes wf: "parts_wf bp" and Q: "book_rep sha (sorted_accounts b) Q"
      "book_view b Q = view_levels Ask (bp_asks bp) (view_levels Bid (bp_bids bp) (\<lambda>_ _. []))"
    and fields: "bk_config b = cfg" "bk_positions b = omap_empty" "bk_dedup b = dd_with_capacity (cfg_dedup_capacity cfg)"
  shows "book_rep sha b' Q \<and> parts_of b' Q = with_parts be bp"
proof -
  have ps: "positions_wf (bp_positions bp)"
    using wf by (simp add: parts_wf_def)
  have dd: "dd_records (bk_dedup b') = bp_records bp" "dd_wf (bk_dedup b')" "dd_capacity (bk_dedup b') = cfg_dedup_capacity cfg"
    using dd_records_rebuilt [OF dd_wf_with_capacity [of "cfg_dedup_capacity cfg"], of "bp_records bp"] wf
    by (simp_all add: b'_def cfg_def parts_wf_def dd_records_def dd_with_capacity_def)
  have entries: "entries (bk_positions b') = bp_positions bp"
    using entries_fold_put [of omap_empty "bp_positions bp"] ps by (simp add: b'_def positions_wf_def)
  have "fits I64 q" if "omap_get (bk_positions b') a = Some q" for a q
    using that ps map_of_SomeD [of "bp_positions bp" a q] unfolding omap_get_def entries by (auto simp: positions_wf_def)
  then have rep: "book_rep sha b' Q"
    using Q(1) dd fields by (simp add: book_rep_def b'_def)
  have "book_view b' Q = book_view b Q"
    by (simp add: book_view_def b'_def)
  then have "side_levels b' Q Bid = bp_bids bp" "side_levels b' Q Ask = bp_asks bp"
    using restored_levels [OF wf rep] Q(2) by simp_all
  moreover have "bk_config b' = cfg"
    using fields by (simp add: b'_def)
  ultimately show ?thesis
    using rep dd(1) entries by (simp add: parts_of_def with_parts_def cfg_def)
qed

lemma restore_image:
  assumes wf: "parts_wf bp" and nodes: "parts_nodes bp"
  shows "\<exists>b Q. restore_state_v3 sha (book_image bp) (image_header (bp_config bp)) be = Some (Ok b) \<and>
    book_rep sha b Q \<and> parts_of b Q = with_parts be bp"
proof -
  let ?cfg = "with_backend be (bp_config bp)" and ?r = "reader_new (book_image bp)"
  let ?ps = "bp_positions bp" and ?recs = "bp_records bp"
  define r1 where "r1 = adv ?r (length (header_image (bp_config bp)))"
  have left1: "left r1 = side_image (bp_bids bp) @ side_image (bp_asks bp) @ tail_image ?ps ?recs"
    by (simp add: r1_def book_image_def)
  have header: "skip_header ?r = Ok ((), r1)"
    unfolding r1_def by (rule skip_header_image [OF wf]) (simp add: book_image_def)
  obtain st1 b seen where st: "restore_state_side sha Bid (book_new ?cfg, {}) r1 = Some (Ok (st1, adv r1 (length (side_image (bp_bids bp)))))"
    "restore_state_side sha Ask st1 (adv r1 (length (side_image (bp_bids bp)))) =
      Some (Ok ((b, seen), adv (adv r1 (length (side_image (bp_bids bp)))) (length (side_image (bp_asks bp)))))"
    "restored sha ?cfg (view_levels Ask (bp_asks bp) (view_levels Bid (bp_bids bp) (\<lambda>_ _. [])))
      (level_orders (bp_bids bp) + level_orders (bp_asks bp)) (b, seen)"
    using restore_sides [OF wf nodes refl left1] by blast
  define r2 where "r2 = adv (adv r1 (length (side_image (bp_bids bp)))) (length (side_image (bp_asks bp)))"
  obtain Q where Q: "book_rep sha (sorted_accounts b) Q"
    "book_view b Q = view_levels Ask (bp_asks bp) (view_levels Bid (bp_bids bp) (\<lambda>_ _. []))"
    and fields: "bk_config b = ?cfg" "bk_positions b = omap_empty" "bk_dedup b = dd_with_capacity (cfg_dedup_capacity ?cfg)"
    using st(3) by (auto simp: restored_def)
  have recs: "\<forall>rec\<in>set ?recs. record_ok rec" "distinct (map fst ?recs)" "length ?recs \<le> cfg_dedup_capacity ?cfg"
    and ps: "positions_wf ?ps"
    using wf by (simp_all add: parts_wf_def)
  have counts: "length ?ps \<le> u64_max" "length ?recs \<le> u64_max"
    using wf shape_counts(3,4) [of "image_shape bp"] by (auto simp: parts_wf_def image_shape_def)
  let ?b = "(sorted_accounts b)\<lparr>bk_positions := fold (\<lambda>(a, q). omap_put a q) ?ps omap_empty,
      bk_dedup := fold (\<lambda>((a, i), r) c. dd_insert c a i r) ?recs (dd_with_capacity (cfg_dedup_capacity ?cfg))\<rparr>"
  have "restore_rest (sorted_accounts b) r2 = Ok ?b"
  proof -
    have "left r2 = tail_image ?ps ?recs"
      using left1 by (simp add: r2_def)
    moreover have "sr_offset r2 + length (tail_image ?ps ?recs) = length (sr_bytes r2)"
      by (simp add: r2_def r1_def adv_def reader_new_def book_image_def)
    ultimately show ?thesis
      using restore_rest_image [OF ps counts(1) _ recs(1,2) counts(2), of "sorted_accounts b" r2] fields by simp
  qed
  then have run: "restore_state_v3 sha (book_image bp) (image_header (bp_config bp)) be = Some (Ok ?b)"
    using header st(1,2) by (simp add: restore_state_v3_def image_header_def header_config r2_def sorted_accounts_def Let_def)
  show ?thesis
    using run restored_parts [OF wf Q fields] by blast
qed

section \<open>The decoder\<close>

lemma image_with_parts [simp]:
  "book_image (with_parts be bp) = book_image bp" "image_shape (with_parts be bp) = image_shape bp"
  by (simp_all add: with_parts_def book_image_def header_image_def image_shape_def)

lemma parts_cache_ok:
  assumes "parts_wf bp" and "parts_of b Q = with_parts be bp"
  shows "cache_ok b" and "config_addressable (bk_config b)"
proof -
  have eq: "dd_records (bk_dedup b) = bp_records bp" "entries (bk_positions b) = bp_positions bp"
    "bk_config b = with_backend be (bp_config bp)"
    using assms(2) by (cases bp; simp add: parts_of_def with_parts_def)+
  show "config_addressable (bk_config b)"
    using assms(1) by (simp add: eq(3) config_addressable_def parts_wf_def)
  have "a \<le> u32_max" if "omap_get (bk_positions b) a = Some q" for a q
    using that assms(1) map_of_SomeD [of "bp_positions bp" a q] unfolding omap_get_def eq(2)
    by (auto simp: parts_wf_def positions_wf_def)
  then show "cache_ok b"
    using assms(1) by (simp add: cache_ok_def eq(1) parts_wf_def)
qed

lemma decode_image:
  assumes wf: "parts_wf bp" and nodes: "parts_nodes bp" and adm: "limits_admit lim bp" and max: "max_encoded_bytes lim \<le> u64_max"
  shows "\<exists>b Q. decode_state_v3_bounded sha (book_image bp) lim be = Some (Ok b) \<and>
    book_rep sha b Q \<and> parts_of b Q = with_parts be bp"
proof -
  obtain b Q where b: "restore_state_v3 sha (book_image bp) (image_header (bp_config bp)) be = Some (Ok b)"
    "book_rep sha b Q" "parts_of b Q = with_parts be bp"
    using restore_image [OF wf nodes] by blast
  have size: "shape_size (image_shape bp) \<le> max_encoded_bytes lim"
    using adm by (simp add: limits_admit_def)
  have "encode_state_v3_bounded sha b (max_encoded_bytes lim) = Ok (book_image bp)"
    using encode_rep [OF b(2) parts_cache_ok(2,1) [OF wf b(3)] _ max] size by (simp add: b(3))
  moreover have "encoded_len (image_shape bp) = Ok (length (book_image bp))"
    using encoded_len_eq [of "image_shape bp"] size max by (simp add: length_book_image)
  ultimately have "decode_state_v3_bounded sha (book_image bp) lim be = Some (Ok b)"
    using scan_image [OF wf adm] b(1) by (simp add: decode_state_v3_bounded_def)
  with b(2,3) show ?thesis by blast
qed

section \<open>The parts of a book\<close>

lemma level_wf_of:
  assumes rep: "book_rep sha b Q" and p: "p \<in> set (omap_keys (sb_levels (side_of sd b)))"
  shows "level_wf sd (level_nodes b Q sd p)" and "\<forall>n\<in>set (snd (level_nodes b Q sd p)). payload n = n"
proof -
  have q: "Q sd p \<noteq> []" "queue_ok (bk_slab b) sd p (Q sd p)"
    using side_keys [OF book_rep_side [OF rep]] p side_rep_queue [OF book_rep_side [OF rep]] by blast+
  have live: "live_orders b x = Some (payload (node_at b x))" if "x \<in> set (Q sd p)" for x
    using queue_live [OF rep, of sd p] that live_node_at(2) [of x b] by blast
  have node: "nd_side (node_at b x) = sd \<and> nd_price (node_at b x) = p \<and> 0 < nd_remaining (node_at b x) \<and> node_typed (node_at b x)"
    if x: "x \<in> set (Q sd p)" for x
  proof -
    have "node_typed (payload (node_at b x))"
      using rep live [OF x] unfolding book_rep_def by blast
    moreover obtain n where "contents (bk_slab b) x = Some n" "nd_side n = sd" "nd_price n = p" "0 < nd_remaining n"
      using q(2) x by (auto simp: queue_ok_def)
    ultimately show ?thesis
      using live [OF x] by (auto simp: live_orders_def)
  qed
  obtain x where x: "x \<in> set (Q sd p)"
    using q(1) by (meson ex_in_conv set_empty)
  have "0 < p" "fits I64 p"
    using book_rep_side [OF rep, of sd] q(1) node [OF x] by (auto simp: side_rep_def node_typed_def)
  moreover have "sum_list (map (qty_at (bk_slab b)) (Q sd p)) = sum_list (map (nd_remaining \<circ> node_at b) (Q sd p))"
    by (intro arg_cong [where f = sum_list] map_cong) (auto simp: qty_at_def live simp flip: live_orders_def)
  then have "fits I64 (sum_list (map (nd_remaining \<circ> node_at b) (Q sd p)))"
    using level_total_fits [OF book_rep_side [OF rep], of sd p] level_total_rep [OF book_rep_side [OF rep], of sd p] by simp
  ultimately show "level_wf sd (level_nodes b Q sd p)"
    using q(1) node by (auto simp: level_wf_def level_nodes_def comp_def)
  show "\<forall>n\<in>set (snd (level_nodes b Q sd p)). payload n = n"
    by (auto simp: level_nodes_def payload_def)
qed

lemma side_wf_of:
  assumes "book_rep sha b Q"
  shows "side_wf sd (side_levels b Q sd)" and "\<forall>l\<in>set (side_levels b Q sd). \<forall>n\<in>set (snd l). payload n = n"
    and "fst ` set (side_levels b Q sd) = {p. Q sd p \<noteq> []}"
proof -
  have keys: "map fst (side_levels b Q sd) = omap_keys (sb_levels (side_of sd b))"
    by (simp add: side_levels_def level_nodes_def comp_def)
  have "sorted_wrt (<) (omap_keys (sb_levels (side_of sd b)))"
    using entries_ascending [of "sb_levels (side_of sd b)"] by (simp add: omap_keys_def)
  then show "side_wf sd (side_levels b Q sd)"
    using level_wf_of(1) [OF assms] by (auto simp: side_wf_def keys) (auto simp: side_levels_def)
  show "\<forall>l\<in>set (side_levels b Q sd). \<forall>n\<in>set (snd l). payload n = n"
    using level_wf_of(2) [OF assms] by (simp add: side_levels_def)
  show "fst ` set (side_levels b Q sd) = {p. Q sd p \<noteq> []}"
    using side_keys [OF book_rep_side [OF assms], of _ sd] by (simp add: set_eq_iff flip: set_map keys)
qed

lemma level_ids_of:
  assumes "book_rep sha b Q"
  shows "level_ids (side_levels b Q sd) = map (\<lambda>x. nd_order_id (node_at b x)) (canonical_slots (side_of sd b) (Q sd))"
  by (simp add: level_ids_def side_levels_def canonical_slots_def level_nodes_def comp_def map_concat split_def)

lemma parts_wf_of:
  assumes rep: "book_rep sha b Q" and cache: "cache_ok b" and cfg: "config_addressable (bk_config b)"
    and size: "shape_size (image_shape (parts_of b Q)) \<le> u64_max"
  shows "parts_wf (parts_of b Q)" and "parts_nodes (parts_of b Q)"
proof -
  have dd: "dd_wf (bk_dedup b)" "dd_capacity (bk_dedup b) = cfg_dedup_capacity (bk_config b)" "uncrossed Q"
    using rep by (simp_all add: book_rep_def)
  have "positions_wf (entries (bk_positions b))"
    using rep cache by (auto simp: positions_wf_def book_rep_def cache_ok_def om.in_iter_iff)
  moreover have "level_orders (side_levels b Q Bid) + level_orders (side_levels b Q Ask) \<le> cfg_capacity (bk_config b)"
    using parts_shape [OF rep] live_le_capacity [OF rep] by (simp add: image_shape_def parts_of_def)
  moreover have "distinct (map fst (dd_records (bk_dedup b)))" "length (dd_records (bk_dedup b)) \<le> cfg_dedup_capacity (bk_config b)"
    using dd by (simp_all add: dd_records_def comp_def dd_wf_def)
  moreover have "\<forall>p\<in>fst ` set (side_levels b Q Bid). \<forall>q\<in>fst ` set (side_levels b Q Ask). p < q"
    using dd(3) by (simp add: side_wf_of(3) [OF rep] uncrossed_def)
  ultimately show "parts_wf (parts_of b Q)"
    using side_wf_of(1) [OF rep] cache cfg size by (simp add: parts_wf_def parts_of_def config_addressable_def cache_ok_def)
  have "inj_on (\<lambda>x. nd_order_id (node_at b x)) (set (all_slots b Q))"
    using live_ids_inj [OF rep] all_slots_live(2) [OF rep] by (simp add: comp_def)
  then have "distinct (map (\<lambda>x. nd_order_id (node_at b x)) (all_slots b Q))"
    using all_slots_live(1) [OF rep] by (simp add: distinct_map)
  then have "distinct (level_ids (side_levels b Q Bid) @ level_ids (side_levels b Q Ask))"
    by (simp add: level_ids_of [OF rep] all_slots_def side_of_def)
  then show "parts_nodes (parts_of b Q)"
    using side_wf_of(2) [OF rep] by (auto simp: parts_nodes_def parts_of_def)
qed

text \<open>The parts determine the book up to the layout of its slab.\<close>

lemma orders_of_levels:
  assumes rep: "book_rep sha b Q"
  shows "book_orders b sd = concat (map snd ((case sd of Bid \<Rightarrow> rev | Ask \<Rightarrow> id) (side_levels b Q sd)))"
proof -
  have side: "side_rep (bk_slab b) sd (side_of sd b) (Q sd)" "sb_side (side_of sd b) = sd"
    using book_rep_side [OF rep] by (auto simp: side_rep_def)
  then have prices: "price_list sd {p. Q sd p \<noteq> []} = (case sd of Bid \<Rightarrow> rev | Ask \<Rightarrow> id) (omap_keys (sb_levels (side_of sd b)))"
    using levels_best_first_keys [OF side(1)] levels_keys [of "side_of sd b"] by (cases sd) simp_all
  have "map (\<lambda>x. the (live_orders b x)) (Q sd p) = snd (level_nodes b Q sd p)" for p
    using queue_live [OF rep, of sd p] live_node_at(2) [of _ b] by (auto simp: level_nodes_def subset_iff)
  then show ?thesis
    unfolding book_orders_rep [OF rep] maker_list_def flat_def prices
    by (cases sd) (simp_all add: side_levels_def map_concat comp_def rev_map)
qed

lemma dd_records_determine:
  assumes "dd_wf c" and "dd_wf d" and "dd_records c = dd_records d" and "dd_capacity c = dd_capacity d"
  shows "c = d"
proof -
  have "map fst (dd_records c) = dd_order c" "map fst (dd_records d) = dd_order d"
    by (simp_all add: dd_records_def comp_def)
  then have order: "dd_order c = dd_order d"
    using assms(3) by simp
  have "omap_get (dd_map c) k = omap_get (dd_map d) k" for k
    using dd_records_mem [OF assms(1), of k] dd_records_mem [OF assms(2), of k] assms(3)
    by (metis not_Some_eq)
  then have "dd_map c = dd_map d"
    by (rule om.map_ext)
  with order assms(4) show ?thesis by simp
qed

lemma parts_determine:
  assumes rep: "book_rep sha b Q" and rep': "book_rep sha b' Q'" and parts: "parts_of b' Q' = with_parts be (parts_of b Q)"
  shows "clob_of b' = (clob_of b)\<lparr>cl_config := with_backend be (bk_config b)\<rparr>"
    and "bk_positions b' = bk_positions b" and "bk_dedup b' = bk_dedup b"
proof -
  have eq: "bk_config b' = with_backend be (bk_config b)" "side_levels b' Q' Bid = side_levels b Q Bid"
    "side_levels b' Q' Ask = side_levels b Q Ask" "entries (bk_positions b') = entries (bk_positions b)"
    "dd_records (bk_dedup b') = dd_records (bk_dedup b)"
    using parts by (simp_all add: parts_of_def with_parts_def)
  show positions: "bk_positions b' = bk_positions b"
    using eq(4) by (simp add: entries_inject)
  have "book_orders b' sd = book_orders b sd" for sd
    using eq(2,3) orders_of_levels [OF rep] orders_of_levels [OF rep'] by (cases sd) simp_all
  then show "clob_of b' = (clob_of b)\<lparr>cl_config := with_backend be (bk_config b)\<rparr>"
    using eq(1) positions by (simp add: clob_of_def position_def fun_eq_iff)
  show "bk_dedup b' = bk_dedup b"
    using rep rep' eq(1,5) by (intro dd_records_determine) (simp_all add: book_rep_def)
qed

end
