(* ===== verification/StateClaims.thy ===== *)
theory StateClaims
  imports StateDecode BookExample
begin

text \<open>
  What the state image promises: every reachable book has one, it carries everything but the choice of
  vector backend, and what the decoder rebuilds from it is the same book, ready for the next command.
\<close>

section \<open>Every reachable book has an image\<close>

lemma reachable_parts:
  assumes reach: "reachable sha cfg b" and cfg: "config_addressable cfg" and bound: "image_bound cfg \<le> u64_max" and rep: "book_rep sha b Q"
  shows "cache_ok b" and "shape_size (image_shape (parts_of b Q)) \<le> image_bound cfg"
    and "parts_wf (parts_of b Q)" and "parts_nodes (parts_of b Q)"
    and "encode_state_v3_bounded sha b u64_max = Ok (book_image (parts_of b Q))"
proof -
  have cap: "cfg_capacity cfg \<le> u32_max"
    using cfg by (simp add: config_addressable_def)
  show cache: "cache_ok b"
    using reachable_cache_ok [OF reach cap] .
  show size: "shape_size (image_shape (parts_of b Q)) \<le> image_bound cfg"
    using reachable_image_bound [OF reach cap rep] .
  have config: "config_addressable (bk_config b)"
    using reachable_inv [OF reach cap] cfg by simp
  show "parts_wf (parts_of b Q)" "parts_nodes (parts_of b Q)"
    using parts_wf_of [OF rep cache config] size bound by simp_all
  show "encode_state_v3_bounded sha b u64_max = Ok (book_image (parts_of b Q))"
    using size bound by (intro encode_rep [OF rep config cache]) simp_all
qed

lemma validate_invariants_rep:
  assumes rep: "book_rep sha b Q" and cfg: "config_addressable (bk_config b)" and cache: "cache_ok b"
    and size: "shape_size (image_shape (parts_of b Q)) \<le> u64_max"
  shows "validate_transition_invariants sha b = Ok ()"
proof -
  note counts = shape_counts [OF size, unfolded image_shape_def parts_of_def, simplified]
  have "validate_book_graph sha b None = Ok None"
    using validate_graph_rep [OF rep, of None] counts by simp
  moreover have "validate_dedup_results b None = Ok (record_fills (dd_records (bk_dedup b)), None)"
    using validate_dedup_rep [of b None] rep cache counts by (simp add: book_rep_def cache_ok_def)
  ultimately show ?thesis
    using state_shape_rep [OF rep cfg size] by (simp add: validate_transition_invariants_def image_shape_def parts_of_def)
qed

text \<open>C20 (safety). The transition root never panics: when the configured capacities bound the image by the
  address space, every reachable book passes the full validation of its derived state, encodes to an image
  no longer than that bound, and has a transition root, the hash of that image.\<close>

theorem reachable_book_encodes:
  assumes "reachable sha cfg b" and "config_addressable cfg" and "image_bound cfg \<le> u64_max"
  shows "validate_transition_invariants sha b = Ok () \<and>
    (\<exists>bytes. encode_state_v3_bounded sha b u64_max = Ok bytes \<and> length bytes \<le> image_bound cfg \<and>
       transition_root_v3 sha b = Some (hash_domain sha DOMAIN_ORDERBOOK_STATE bytes))"
proof -
  obtain Q where Q: "book_rep sha b Q" "bk_config b = cfg"
    using assms(1,2) by (rule reachable_rep)
  note parts = reachable_parts [OF assms Q(1)]
  have "validate_transition_invariants sha b = Ok ()"
    using validate_invariants_rep [OF Q(1) _ parts(1)] parts(2) assms(2,3) Q(2) by simp
  then show ?thesis
    using parts(2,5) by (auto simp: transition_root_v3_def length_book_image)
qed

theorem reachable_book_encodes_witness:
  "\<exists>b bytes. reachable sha0 cfg0 b \<and> clob_of b = clob0 \<and> encode_state_v3_bounded sha0 b u64_max = Ok bytes \<and>
     length bytes \<le> 59 + 53 * 4 + 12 * 4294967296 + 2 * (29 + 41 * 4) \<and>
     transition_root_v3 sha0 b = Some (hash_domain sha0 DOMAIN_ORDERBOOK_STATE bytes)"
proof -
  obtain b where b: "reachable sha0 cfg0 b" "clob_of b = clob0"
    using example_reachable by blast
  have "image_bound cfg0 \<le> u64_max" "image_bound cfg0 = 59 + 53 * 4 + 12 * 4294967296 + 2 * (29 + 41 * 4)"
    by (simp_all add: image_bound_def u32_max_def u64_max_def)
  then show ?thesis
    using reachable_book_encodes [OF b(1) config_addressable0] b by auto
qed

section \<open>Round trip\<close>

text \<open>The declared sizes of a book are within the limits of the decoder.\<close>

definition shape_within :: "book_state_limits \<Rightarrow> state_shape \<Rightarrow> bool" where
  "shape_within lim sh \<longleftrightarrow> shape_size sh \<le> max_encoded_bytes lim \<and> sh_levels sh \<le> max_price_levels lim \<and>
     sh_orders sh \<le> max_resting_orders lim \<and> sh_positions sh \<le> max_positions lim \<and>
     sh_dedup_records sh \<le> max_dedup_records lim \<and> sh_fills sh \<le> max_total_fills lim"

definition config_within :: "book_state_limits \<Rightarrow> book_config \<Rightarrow> bool" where
  "config_within lim cfg \<longleftrightarrow> cfg_capacity cfg \<le> max_capacity lim \<and> cfg_dedup_capacity cfg \<le> max_dedup_capacity lim \<and>
     cfg_max_basket_legs cfg \<le> max_basket_legs lim \<and> cfg_capacity cfg \<le> max_fills_per_result lim"

text \<open>C19 (roundtrip). A reachable book whose configuration and sizes are within the decoder's limits
  survives encoding and decoding: the decoder accepts the image and rebuilds, for whichever backend it is
  given, a book that satisfies the book invariant and has the same resting orders in the same priority,
  the same positions, the same replay cache with the same eviction order, and the same transition root.\<close>

theorem state_round_trip:
  assumes "reachable sha cfg b" and "config_addressable cfg" and "image_bound cfg \<le> u64_max"
    and "state_shape_v3 b = Ok sh" and "shape_within lim sh" and "config_within lim cfg" and "max_encoded_bytes lim \<le> u64_max"
  shows "\<exists>bytes b'. encode_state_v3_bounded sha b (max_encoded_bytes lim) = Ok bytes \<and>
    decode_state_v3_bounded sha bytes lim be = Some (Ok b') \<and> book_inv sha b' \<and>
    clob_of b' = (clob_of b)\<lparr>cl_config := cfg\<lparr>cfg_matching_backend := be\<rparr>\<rparr> \<and>
    bk_positions b' = bk_positions b \<and> bk_dedup b' = bk_dedup b \<and> transition_root_v3 sha b' = transition_root_v3 sha b"
proof -
  obtain Q where Q: "book_rep sha b Q" "bk_config b = cfg"
    using assms(1,2) by (rule reachable_rep)
  have cap: "cfg_capacity cfg \<le> u32_max"
    using assms(2) by (simp add: config_addressable_def)
  note parts = reachable_parts [OF assms(1-3) Q(1)]
  have size: "shape_size (image_shape (parts_of b Q)) \<le> u64_max"
    using parts(2) assms(3) by simp
  have sh: "sh = image_shape (parts_of b Q)"
    using state_shape_rep [OF Q(1) _ size] assms(2,4) Q(2) by simp
  have "limits_admit lim (parts_of b Q)"
    using reachable_shape_bounds(6) [OF assms(1) cap Q(1)] assms(5,6) Q(2)
    unfolding limits_admit_def shape_within_def config_within_def sh by (force simp: parts_of_def)
  then obtain b' Q' where b': "decode_state_v3_bounded sha (book_image (parts_of b Q)) lim be = Some (Ok b')"
    "book_rep sha b' Q'" "parts_of b' Q' = with_parts be (parts_of b Q)"
    using decode_image [OF parts(3,4) _ assms(7)] by blast
  have "encode_state_v3_bounded sha b' u64_max = Ok (book_image (parts_of b Q))"
    using encode_rep [OF b'(2) parts_cache_ok(2,1) [OF parts(3) b'(3)], of u64_max] size by (simp add: b'(3))
  then have "transition_root_v3 sha b' = transition_root_v3 sha b"
    using parts(5) by (simp add: transition_root_v3_def)
  moreover have "encode_state_v3_bounded sha b (max_encoded_bytes lim) = Ok (book_image (parts_of b Q))"
    using encode_rep [OF Q(1) _ parts(1) _ assms(7)] assms(2,5) Q(2) by (simp add: sh shape_within_def)
  ultimately show ?thesis
    using b' parts_determine [OF Q(1) b'(2,3)] Q(2) by (auto simp: book_inv_def with_backend_def)
qed

theorem state_round_trip_witness:
  "\<exists>b bytes b'. reachable sha0 cfg0 b \<and> book_orders b Ask = [node_new (limit_order 1 1 Ask 100 5) 5] \<and>
     encode_state_v3_bounded sha0 b (max_encoded_bytes default_limits) = Ok bytes \<and>
     decode_state_v3_bounded sha0 bytes default_limits Avx2 = Some (Ok b') \<and>
     book_orders b' Ask = [node_new (limit_order 1 1 Ask 100 5) 5]"
proof -
  let ?o = "limit_order 1 1 Ask 100 5"
  have typed: "order_typed ?o"
    by (simp add: u32_max_def fits_def)
  obtain r b where b: "reachable sha0 cfg0 b" "kept (book_new cfg0) b" "clob_execute (clob_of (book_new cfg0)) ?o = (r, clob_of b)"
    using reachable_place [OF reachable.reach_new config_addressable0 typed] .
  have "cl_orders (snd (clob_execute (clob_of (book_new cfg0)) ?o)) Ask = [node_new ?o 5]"
    by (simp add: clob_of_new clob_eval)
  then have orders: "book_orders b Ask = [node_new ?o 5]"
    by (simp add: b(3) del: One_nat_def)
  obtain Q where Q: "book_rep sha0 b Q" "bk_config b = cfg0"
    using b(1) config_addressable0 by (rule reachable_rep)
  have bound: "image_bound cfg0 \<le> u64_max" "cfg_capacity cfg0 \<le> u32_max"
    by (simp_all add: image_bound_def u32_max_def u64_max_def)
  let ?sh = "image_shape (parts_of b Q)"
  have shape: "state_shape_v3 b = Ok ?sh"
    using reachable_parts(2) [OF b(1) config_addressable0 bound(1) Q(1)] bound Q(2) by (intro state_shape_rep [OF Q(1)]) simp_all
  have "bk_positions b = omap_empty"
    using b(2) by (simp add: kept_def book_new_def)
  then have "sh_positions ?sh = 0"
    by (simp add: image_shape_def parts_of_def)
  then have "shape_within default_limits ?sh"
    using reachable_shape_bounds [OF b(1) bound(2) Q(1)]
    by (simp add: shape_within_def default_limits_def shape_size_def)
  moreover have "config_within default_limits cfg0" "max_encoded_bytes default_limits \<le> u64_max"
    by (simp_all add: config_within_def default_limits_def u64_max_def)
  ultimately obtain bytes b' where "encode_state_v3_bounded sha0 b (max_encoded_bytes default_limits) = Ok bytes"
    "decode_state_v3_bounded sha0 bytes default_limits Avx2 = Some (Ok b')"
    and clob: "clob_of b' = (clob_of b)\<lparr>cl_config := cfg0\<lparr>cfg_matching_backend := Avx2\<rparr>\<rparr>"
    using state_round_trip [OF b(1) config_addressable0 bound(1) shape, of default_limits Avx2] by blast
  moreover have "book_orders b' Ask = book_orders b Ask"
    using arg_cong [OF clob, of cl_orders] by simp
  ultimately show ?thesis
    using b(1) orders by (intro exI [of _ b] exI [of _ bytes] exI [of _ b']) simp
qed

section \<open>Machine types\<close>

text \<open>C21 (type). Every value a reachable book holds stays within its machine type: resting orders have
  64-bit ids, prices and quantities and 32-bit accounts, with positive price and quantity; the total of
  each level and the position of each account fit 64 bits; the order count fits the capacity and 32 bits;
  and every cached fill and outcome, under a 32-bit account and a 64-bit client id, is in range as well.\<close>

theorem reachable_values_typed:
  assumes "reachable sha cfg b" and "config_addressable cfg"
  shows "(\<forall>sd. list_all (\<lambda>n. node_typed n \<and> 0 < nd_price n \<and> 0 < nd_remaining n) (book_orders b sd)) \<and>
    (\<forall>sd p. fits I64 (level_quantity b sd p)) \<and> (\<forall>a. fits I64 (position b a)) \<and>
    resting_len b \<le> cfg_capacity cfg \<and> resting_len b \<le> u32_max \<and>
    list_all (\<lambda>((a, i), r). a \<le> u32_max \<and> i \<le> u64_max \<and> list_all fill_typed (mr_fills r) \<and>
      fits I64 (snd (outcome_code (mr_outcome r)))) (dd_records (bk_dedup b))"
proof -
  obtain Q where Q: "book_rep sha b Q" "bk_config b = cfg"
    using assms by (rule reachable_rep)
  have cap: "cfg_capacity cfg \<le> u32_max"
    using assms(2) by (simp add: config_addressable_def)
  have "list_all (\<lambda>n. node_typed n \<and> 0 < nd_price n \<and> 0 < nd_remaining n) (book_orders b sd)" for sd
    using resting_order_facts [OF Q(1), of _ sd] book_makers_ok [OF Q(1), of sd] by (simp add: list_all_iff)
  moreover have "fits I64 (level_quantity b sd p)" for sd p
    using level_total_fits [OF book_rep_side [OF Q(1)], of sd p] by (simp add: level_quantity_def)
  moreover have "fits I64 (position b a)" for a
    using Q(1) by (auto simp: position_def book_rep_def split: option.splits)
  moreover have "resting_len b \<le> cfg_capacity cfg"
    using live_le_capacity [OF Q(1)] Q(2) by (simp add: resting_len_def)
  moreover have "list_all (\<lambda>((a, i), r). a \<le> u32_max \<and> i \<le> u64_max \<and> list_all fill_typed (mr_fills r) \<and>
      fits I64 (snd (outcome_code (mr_outcome r)))) (dd_records (bk_dedup b))"
    using reachable_cache_ok [OF assms(1) cap] by (fastforce simp: cache_ok_def record_ok_def list_all_iff)
  ultimately show ?thesis
    using cap by simp
qed

theorem reachable_values_typed_witness:
  "\<exists>b. reachable sha0 cfg0 b \<and> clob_of b = clob0 \<and> resting_len b \<le> 4 \<and> fits I64 (level_quantity b Ask 100) \<and>
     node_typed (hd (book_orders b Ask))"
proof -
  obtain b where b: "reachable sha0 cfg0 b" "clob_of b = clob0"
    using example_reachable by blast
  then have "book_orders b Ask \<noteq> []"
    by (metis clob0_def clob.select_convs(2) clob_of_fields(2) list.discI side.simps(4))
  then have "hd (book_orders b Ask) \<in> set (book_orders b Ask)"
    by simp
  then show ?thesis
    using reachable_values_typed [OF b(1) config_addressable0] b by (intro exI [of _ b]) (simp add: list_all_iff)
qed

end
