(* ===== verification/Merkle.thy ===== *)
theory Merkle
  imports Hashing
begin

text \<open>
  The dense Merkle tree of \<open>crates/crypto/src/merkle.rs\<close>: construction, incremental update, inclusion
  proofs, their verification and the representation check. An array access out of bounds and an
  allocation beyond the address space panic, which is \<open>None\<close>.
\<close>

unbundle bit_operations_syntax

section \<open>The tree\<close>

definition DOMAIN_NODE :: bytes where
  "DOMAIN_NODE = ascii ''dexos:node:v1''"

definition DOMAIN_LEAF :: bytes where
  "DOMAIN_LEAF = ascii ''dexos:leaf:v1''"

definition hash_node :: "sha256 \<Rightarrow> hash \<Rightarrow> hash \<Rightarrow> hash" where
  "hash_node sha l r = hash_domain sha DOMAIN_NODE (hash_bytes l @ hash_bytes r)"

definition hash_leaf :: "sha256 \<Rightarrow> bytes \<Rightarrow> hash" where
  "hash_leaf sha data = hash_domain sha DOMAIN_LEAF data"

datatype merkle_error = IndexOutOfRange | InvalidRepresentation | InconsistentInternalNode

record merkle_tree =
  mt_capacity :: nat
  mt_nodes :: "hash list"

text \<open>\<open>usize::next_power_of_two\<close>; a result above \<open>u64_max\<close> is the overflow panic of a checked build.\<close>

function pow2_from :: "nat \<Rightarrow> nat \<Rightarrow> nat" where
  "pow2_from p n = (if n \<le> p \<or> p = 0 then p else pow2_from (2 * p) n)"
  by pat_completeness auto

termination
  by (relation "measure (\<lambda>(p, n). n - p)") auto

declare pow2_from.simps [simp del]

definition next_power_of_two :: "nat \<Rightarrow> nat" where
  "next_power_of_two n = pow2_from 1 n"

text \<open>\<open>vec![Hash::ZERO; capacity * 2]\<close>: more than \<open>isize::MAX\<close> bytes panics.\<close>

definition zero_nodes :: "nat \<Rightarrow> hash list option" where
  "zero_nodes cap = (if cap * 2 * 32 < 2 ^ 63 then Some (replicate (cap * 2) 0) else None)"

definition list_at :: "'a list \<Rightarrow> nat \<Rightarrow> 'a option" where
  "list_at xs i = (if i < length xs then Some (xs ! i) else None)"

definition list_put :: "nat \<Rightarrow> 'a \<Rightarrow> 'a list \<Rightarrow> 'a list option" where
  "list_put i x xs = (if i < length xs then Some (xs[i := x]) else None)"

text \<open>\<open>nodes[i] = hash_node(nodes[2 * i], nodes[2 * i + 1])\<close>.\<close>

definition rehash :: "sha256 \<Rightarrow> nat \<Rightarrow> hash list \<Rightarrow> hash list option" where
  "rehash sha i ns =
     Option.bind (list_at ns (2 * i)) (\<lambda>l. Option.bind (list_at ns (2 * i + 1)) (\<lambda>r.
       list_put i (hash_node sha l r) ns))"

text \<open>The loop \<open>for j in (1..capacity).rev()\<close>, from \<open>j\<close> down to 1.\<close>

fun parents_down :: "sha256 \<Rightarrow> nat \<Rightarrow> hash list \<Rightarrow> hash list option" where
  "parents_down sha 0 ns = Some ns"
| "parents_down sha (Suc j) ns = Option.bind (rehash sha (Suc j) ns) (parents_down sha j)"

definition recompute_all_parents :: "sha256 \<Rightarrow> merkle_tree \<Rightarrow> merkle_tree option" where
  "recompute_all_parents sha t =
     map_option (\<lambda>ns. t\<lparr>mt_nodes := ns\<rparr>) (parents_down sha (mt_capacity t - 1) (mt_nodes t))"

definition merkle_new :: "sha256 \<Rightarrow> nat \<Rightarrow> merkle_tree option" where
  "merkle_new sha min_leaves =
     (let cap = next_power_of_two (max min_leaves 1) in
      Option.bind (zero_nodes cap) (\<lambda>ns.
        recompute_all_parents sha \<lparr>mt_capacity = cap, mt_nodes = ns\<rparr>))"

fun place_leaves :: "nat \<Rightarrow> hash list \<Rightarrow> hash list \<Rightarrow> hash list option" where
  "place_leaves i [] ns = Some ns"
| "place_leaves i (leaf # leaves) ns = Option.bind (list_put i leaf ns) (place_leaves (i + 1) leaves)"

definition from_leaves :: "sha256 \<Rightarrow> hash list \<Rightarrow> merkle_tree option" where
  "from_leaves sha leaves =
     (let cap = next_power_of_two (max (length leaves) 1) in
      Option.bind (zero_nodes cap) (\<lambda>ns.
      Option.bind (place_leaves cap leaves ns) (\<lambda>ns.
      map_option (\<lambda>ns. \<lparr>mt_capacity = cap, mt_nodes = ns\<rparr>) (parents_down sha (cap - 1) ns))))"

text \<open>The loop \<open>while i >= 1\<close> of an update.\<close>

fun set_path :: "sha256 \<Rightarrow> nat \<Rightarrow> hash list \<Rightarrow> hash list option" where
  "set_path sha i ns =
     (if i \<ge> 1 then Option.bind (rehash sha i ns) (set_path sha (i div 2)) else Some ns)"

declare set_path.simps [simp del]

definition merkle_set ::
    "sha256 \<Rightarrow> merkle_tree \<Rightarrow> nat \<Rightarrow> hash \<Rightarrow> ((unit, merkle_error) result \<times> merkle_tree) option" where
  "merkle_set sha t index leaf =
     (if index \<ge> mt_capacity t then Some (Err IndexOutOfRange, t)
      else
        let i = mt_capacity t + index in
        Option.bind (list_put i leaf (mt_nodes t)) (\<lambda>ns.
        Option.bind (set_path sha (i div 2) ns) (\<lambda>ns. Some (Ok (), t\<lparr>mt_nodes := ns\<rparr>))))"

definition mt_root :: "merkle_tree \<Rightarrow> hash option" where
  "mt_root t = list_at (mt_nodes t) 1"

text \<open>\<open>is_power_of_two\<close> and the check of the internal nodes, from the last one down.\<close>

definition is_power_of_two :: "nat \<Rightarrow> bool" where
  "is_power_of_two n \<longleftrightarrow> n \<noteq> 0 \<and> next_power_of_two n = n"

fun check_parents :: "sha256 \<Rightarrow> nat \<Rightarrow> hash list \<Rightarrow> (unit, merkle_error) result option" where
  "check_parents sha 0 ns = Some (Ok ())"
| "check_parents sha (Suc j) ns =
     Option.bind (list_at ns (Suc j)) (\<lambda>h. Option.bind (list_at ns (2 * Suc j)) (\<lambda>l.
     Option.bind (list_at ns (2 * Suc j + 1)) (\<lambda>r.
       if h \<noteq> hash_node sha l r then Some (Err InconsistentInternalNode) else check_parents sha j ns)))"

definition merkle_validate :: "sha256 \<Rightarrow> merkle_tree \<Rightarrow> (unit, merkle_error) result option" where
  "merkle_validate sha t =
     (if mt_capacity t * 2 > u64_max then Some (Err InvalidRepresentation)
      else if mt_capacity t = 0 \<or> \<not> is_power_of_two (mt_capacity t) \<or> length (mt_nodes t) \<noteq> mt_capacity t * 2
      then Some (Err InvalidRepresentation)
      else check_parents sha (mt_capacity t - 1) (mt_nodes t))"

fun proof_path :: "nat \<Rightarrow> hash list \<Rightarrow> hash list option" where
  "proof_path i ns =
     (if i > 1 then Option.bind (list_at ns (i XOR 1)) (\<lambda>h. map_option ((#) h) (proof_path (i div 2) ns))
      else Some [])"

declare proof_path.simps [simp del]

definition merkle_proof :: "merkle_tree \<Rightarrow> nat \<Rightarrow> (hash list, merkle_error) result option" where
  "merkle_proof t index =
     (if index \<ge> mt_capacity t then Some (Err IndexOutOfRange)
      else map_option Ok (proof_path (mt_capacity t + index) (mt_nodes t)))"

definition merkle_root :: "sha256 \<Rightarrow> hash list \<Rightarrow> hash option" where
  "merkle_root sha leaves =
     (if leaves = [] then Some 0 else Option.bind (from_leaves sha leaves) mt_root)"

text \<open>Folding a leaf up through its siblings, the loop of \<open>verify_proof\<close> and of \<open>fold_subtree\<close>.\<close>

fun climb :: "sha256 \<Rightarrow> nat \<Rightarrow> hash \<Rightarrow> hash list \<Rightarrow> hash" where
  "climb sha idx current [] = current"
| "climb sha idx current (sibling # siblings) =
     climb sha (idx div 2)
       (if idx AND 1 = 0 then hash_node sha current sibling else hash_node sha sibling current) siblings"

definition verify_proof :: "sha256 \<Rightarrow> hash \<Rightarrow> nat \<Rightarrow> hash \<Rightarrow> hash list \<Rightarrow> bool" where
  "verify_proof sha root index leaf siblings =
     (if length siblings \<ge> 64 then False
      else if drop_bit (length siblings) index \<noteq> 0 then False
      else climb sha index leaf siblings = root)"

section \<open>Powers of two\<close>

lemma pow2_from_power: "\<exists>m. pow2_from (2 ^ k) n = 2 ^ (k + m) \<and> n \<le> 2 ^ (k + m)"
proof (induction "2 ^ k :: nat" n arbitrary: k rule: pow2_from.induct)
  case (1 n)
  show ?case
  proof (cases "n \<le> 2 ^ k")
    case True
    then show ?thesis by (intro exI [of _ 0]) (simp add: pow2_from.simps)
  next
    case False
    then obtain m where "pow2_from (2 ^ Suc k) n = 2 ^ (Suc k + m)" "n \<le> 2 ^ (Suc k + m)"
      using 1 [of "Suc k"] by auto
    then show ?thesis
      using False by (intro exI [of _ "Suc m"]) (simp add: pow2_from.simps [of "2 ^ k"])
  qed
qed

lemma next_power_of_two_power: obtains k where "next_power_of_two n = 2 ^ k" and "n \<le> 2 ^ k"
  using pow2_from_power [of 0 n] by (auto simp: next_power_of_two_def)

lemma pow2_from_reached: "j \<le> k \<Longrightarrow> pow2_from (2 ^ j) (2 ^ k) = 2 ^ k"
proof (induction "k - j" arbitrary: j)
  case (Suc d)
  then have "pow2_from (2 ^ Suc j) (2 ^ k) = 2 ^ k"
    by (intro Suc.hyps) simp_all
  moreover have "j < k" using Suc.hyps(2) by simp
  ultimately show ?case
    by (simp add: pow2_from.simps [of "2 ^ j"])
qed (simp add: pow2_from.simps)

lemma pow2_from_least: "n \<le> 2 ^ k \<Longrightarrow> j \<le> k \<Longrightarrow> pow2_from (2 ^ j) n \<le> 2 ^ k"
proof (induction "k - j" arbitrary: j)
  case (Suc d)
  then have "pow2_from (2 ^ Suc j) n \<le> 2 ^ k"
    by (intro Suc.hyps) simp_all
  then show ?case
    using Suc.prems(2) by (simp add: pow2_from.simps [of "2 ^ j"])
qed (simp add: pow2_from.simps)

lemma next_power_of_two_least: "n \<le> 2 ^ k \<Longrightarrow> next_power_of_two n \<le> 2 ^ k"
  using pow2_from_least [of n k 0] by (simp add: next_power_of_two_def)

lemma is_power_of_two_iff: "is_power_of_two n \<longleftrightarrow> (\<exists>k. n = 2 ^ k)"
proof
  assume "is_power_of_two n"
  then show "\<exists>k. n = 2 ^ k"
    by (metis is_power_of_two_def next_power_of_two_power)
next
  assume "\<exists>k. n = 2 ^ k"
  then show "is_power_of_two n"
    using pow2_from_reached [of 0] by (auto simp: is_power_of_two_def next_power_of_two_def)
qed

section \<open>The tree as the hash of its leaves\<close>

definition parent_ok :: "sha256 \<Rightarrow> hash list \<Rightarrow> nat \<Rightarrow> bool" where
  "parent_ok sha ns j \<longleftrightarrow> ns ! j = hash_node sha (ns ! (2 * j)) (ns ! (2 * j + 1))"

text \<open>The representation invariant: a complete tree of height \<open>k\<close>, every parent the hash of its children.\<close>

definition mt_ok :: "sha256 \<Rightarrow> nat \<Rightarrow> merkle_tree \<Rightarrow> bool" where
  "mt_ok sha k t \<longleftrightarrow> mt_capacity t = 2 ^ k \<and> length (mt_nodes t) = 2 * 2 ^ k \<and>
     (\<forall>j. 1 \<le> j \<and> j < 2 ^ k \<longrightarrow> parent_ok sha (mt_nodes t) j)"

definition mt_leaves :: "merkle_tree \<Rightarrow> hash list" where
  "mt_leaves t = drop (mt_capacity t) (mt_nodes t)"

text \<open>The reference: the hash of \<open>2 ^ k\<close> leaves by halving.\<close>

fun tree_hash :: "sha256 \<Rightarrow> nat \<Rightarrow> hash list \<Rightarrow> hash" where
  "tree_hash sha 0 ls = hd ls"
| "tree_hash sha (Suc k) ls = hash_node sha (tree_hash sha k (take (2 ^ k) ls)) (tree_hash sha k (drop (2 ^ k) ls))"

lemma node_is_tree_hash:
  assumes "\<forall>j. 1 \<le> j \<and> j < n \<longrightarrow> parent_ok sha ns j" and "length ns = 2 * n"
    and "1 \<le> j" and "(j + 1) * 2 ^ h \<le> 2 * n"
  shows "ns ! j = tree_hash sha h (take (2 ^ h) (drop (j * 2 ^ h) ns))"
  using assms(3,4)
proof (induction h arbitrary: j)
  case 0
  then show ?case using assms(2) by (simp add: hd_drop_conv_nth take_Suc)
next
  case (Suc h)
  have "(j + 1) * 1 \<le> (j + 1) * 2 ^ h" by (intro mult_le_mono2) simp
  moreover have "(j + 1) * 2 ^ h \<le> n" using Suc.prems(2) by simp
  ultimately have "j < n" by simp
  have left: "ns ! (2 * j) = tree_hash sha h (take (2 ^ h) (drop (2 * j * 2 ^ h) ns))"
    using Suc.prems by (intro Suc.IH) (simp_all add: algebra_simps)
  have right: "ns ! (2 * j + 1) = tree_hash sha h (take (2 ^ h) (drop ((2 * j + 1) * 2 ^ h) ns))"
    using Suc.prems by (intro Suc.IH) (simp_all add: algebra_simps)
  let ?a = "j * 2 ^ Suc h"
  have "2 * j * 2 ^ h = ?a" "(2 * j + 1) * 2 ^ h = ?a + 2 ^ h"
    by (simp_all add: algebra_simps)
  moreover have "take (2 ^ h) (take (2 ^ Suc h) (drop ?a ns)) = take (2 ^ h) (drop ?a ns)"
    by simp
  moreover have "drop (2 ^ h) (take (2 ^ Suc h) (drop ?a ns)) = take (2 ^ h) (drop (?a + 2 ^ h) ns)"
    by (simp add: drop_take add.commute)
  moreover have "parent_ok sha ns j" using assms(1) Suc.prems(1) \<open>j < n\<close> by blast
  ultimately show ?case
    using left right by (simp only: parent_ok_def tree_hash.simps)
qed

lemma mt_ok_root:
  assumes "mt_ok sha k t"
  shows "mt_root t = Some (tree_hash sha k (mt_leaves t))"
proof -
  have "mt_nodes t ! 1 = tree_hash sha k (take (2 ^ k) (drop (1 * 2 ^ k) (mt_nodes t)))"
    using assms by (intro node_is_tree_hash [where n = "2 ^ k"]) (simp_all add: mt_ok_def)
  moreover have "1 < 2 * (2 :: nat) ^ k" using one_le_power [of "2 :: nat" k] by linarith
  ultimately show ?thesis
    using assms by (simp add: mt_root_def list_at_def mt_ok_def mt_leaves_def)
qed

lemma length_mt_leaves: "mt_ok sha k t \<Longrightarrow> length (mt_leaves t) = 2 ^ k"
  by (simp add: mt_ok_def mt_leaves_def)

section \<open>Updates keep the representation\<close>

lemma rehash_some:
  assumes "2 * i + 1 < length ns"
  shows "rehash sha i ns = Some (ns[i := hash_node sha (ns ! (2 * i)) (ns ! (2 * i + 1))])"
  using assms by (simp add: rehash_def list_at_def list_put_def)

text \<open>Rehashing node \<open>i\<close> establishes it and disturbs only its parent.\<close>

lemma rehash_parent_ok:
  assumes "i \<ge> 1" and "j \<noteq> i" and "j \<noteq> i div 2" and "parent_ok sha ns j"
  shows "parent_ok sha (ns[i := h]) j"
proof -
  have "2 * j \<noteq> i" "2 * j + 1 \<noteq> i" using assms(3) by auto
  then show ?thesis using assms by (simp add: parent_ok_def)
qed

lemma rehash_self_ok:
  assumes "i \<ge> 1" and "i < length ns"
  shows "parent_ok sha (ns[i := hash_node sha (ns ! (2 * i)) (ns ! (2 * i + 1))]) i"
  using assms by (simp add: parent_ok_def)

lemma parents_down_ok:
  assumes "length ns = 2 * n" and "m < n"
    and "\<forall>j. m < j \<and> j < n \<longrightarrow> parent_ok sha ns j"
  shows "\<exists>ns'. parents_down sha m ns = Some ns' \<and> length ns' = 2 * n \<and> drop n ns' = drop n ns \<and>
           (\<forall>j. 1 \<le> j \<and> j < n \<longrightarrow> parent_ok sha ns' j)"
  using assms
proof (induction m arbitrary: ns)
  case 0
  then show ?case by (auto simp: Suc_le_eq)
next
  case (Suc m)
  let ?ns = "ns[Suc m := hash_node sha (ns ! (2 * Suc m)) (ns ! (2 * Suc m + 1))]"
  have "parent_ok sha ?ns j" if "m < j" "j < n" for j
  proof (cases "j = Suc m")
    case True
    then show ?thesis using Suc.prems rehash_self_ok [of "Suc m" ns sha] by simp
  next
    case False
    with that Suc.prems show ?thesis by (intro rehash_parent_ok) auto
  qed
  then have "\<exists>ns'. parents_down sha m ?ns = Some ns' \<and> length ns' = 2 * n \<and> drop n ns' = drop n ?ns \<and>
      (\<forall>j. 1 \<le> j \<and> j < n \<longrightarrow> parent_ok sha ns' j)"
    using Suc.prems by (intro Suc.IH) auto
  moreover have "rehash sha (Suc m) ns = Some ?ns"
    using Suc.prems by (intro rehash_some) simp
  ultimately show ?case
    using Suc.prems(1,2) by simp
qed

lemma set_path_ok:
  assumes "length ns = 2 * n" and "i < n"
    and "\<forall>j. 1 \<le> j \<and> j < n \<and> (\<forall>m. j \<noteq> i div 2 ^ m) \<longrightarrow> parent_ok sha ns j"
  shows "\<exists>ns'. set_path sha i ns = Some ns' \<and> length ns' = 2 * n \<and> drop n ns' = drop n ns \<and>
           (\<forall>j. 1 \<le> j \<and> j < n \<longrightarrow> parent_ok sha ns' j)"
  using assms
proof (induction i arbitrary: ns rule: less_induct)
  case (less i)
  show ?case
  proof (cases "i = 0")
    case True
    then show ?thesis using less.prems by (simp add: set_path.simps)
  next
    case False
    let ?ns = "ns[i := hash_node sha (ns ! (2 * i)) (ns ! (2 * i + 1))]"
    have "parent_ok sha ?ns j" if "1 \<le> j" "j < n" "\<forall>m. j \<noteq> i div 2 div 2 ^ m" for j
    proof (cases "j = i")
      case True
      then show ?thesis using less.prems False rehash_self_ok [of i ns sha] by simp
    next
      case ji: False
      have "j \<noteq> i div 2 ^ m" for m
        using that(3) ji by (cases m) (simp_all add: div_mult2_eq)
      moreover have "j \<noteq> i div 2" using that(3) [rule_format, of 0] by simp
      ultimately show ?thesis
        using that less.prems(3) ji False by (intro rehash_parent_ok) auto
    qed
    then have "\<exists>ns'. set_path sha (i div 2) ?ns = Some ns' \<and> length ns' = 2 * n \<and> drop n ns' = drop n ?ns \<and>
        (\<forall>j. 1 \<le> j \<and> j < n \<longrightarrow> parent_ok sha ns' j)"
      using less.prems False by (intro less.IH) auto
    then show ?thesis
      using less.prems False by (simp add: set_path.simps [of _ i] rehash_some)
  qed
qed

lemma merkle_set_ok:
  assumes "mt_ok sha k t" and "i < 2 ^ k"
  shows "\<exists>t'. merkle_set sha t i leaf = Some (Ok (), t') \<and> mt_ok sha k t' \<and>
           mt_leaves t' = (mt_leaves t)[i := leaf]"
proof -
  let ?n = "2 ^ k :: nat" and ?ns = "(mt_nodes t)[2 ^ k + i := leaf]"
  have t: "mt_capacity t = ?n" "length (mt_nodes t) = 2 * ?n"
    "\<forall>j. 1 \<le> j \<and> j < ?n \<longrightarrow> parent_ok sha (mt_nodes t) j"
    using assms(1) by (auto simp: mt_ok_def)
  have "parent_ok sha ?ns j" if "1 \<le> j" "j < ?n" "\<forall>m. j \<noteq> (?n + i) div 2 div 2 ^ m" for j
    using that t(3) that(3) [rule_format, of 0] by (intro rehash_parent_ok) auto
  then have "\<exists>ns'. set_path sha ((?n + i) div 2) ?ns = Some ns' \<and> length ns' = 2 * ?n \<and>
      drop ?n ns' = drop ?n ?ns \<and> (\<forall>j. 1 \<le> j \<and> j < ?n \<longrightarrow> parent_ok sha ns' j)"
    using t(2) assms(2) by (intro set_path_ok) auto
  then obtain ns' where ns': "set_path sha ((?n + i) div 2) ?ns = Some ns'" "length ns' = 2 * ?n"
    "drop ?n ns' = drop ?n ?ns" "\<forall>j. 1 \<le> j \<and> j < ?n \<longrightarrow> parent_ok sha ns' j"
    by blast
  have "merkle_set sha t i leaf = Some (Ok (), t\<lparr>mt_nodes := ns'\<rparr>)"
    using t(1,2) ns'(1) assms(2) by (simp add: merkle_set_def list_put_def Let_def)
  moreover have "mt_ok sha k (t\<lparr>mt_nodes := ns'\<rparr>)"
    using t(1) ns'(2,4) by (simp add: mt_ok_def)
  moreover have "mt_leaves (t\<lparr>mt_nodes := ns'\<rparr>) = (mt_leaves t)[i := leaf]"
    using t(1) ns'(3) by (simp add: mt_leaves_def drop_update_swap)
  ultimately show ?thesis by blast
qed

lemma merkle_set_refused: "mt_ok sha k t \<Longrightarrow> i \<ge> 2 ^ k \<Longrightarrow> merkle_set sha t i leaf = Some (Err IndexOutOfRange, t)"
  by (simp add: merkle_set_def mt_ok_def)

section \<open>Construction\<close>

lemma built_ok:
  assumes "length ns = 2 * 2 ^ k"
  shows "\<exists>ns'. parents_down sha (2 ^ k - 1) ns = Some ns' \<and>
           mt_ok sha k \<lparr>mt_capacity = 2 ^ k, mt_nodes = ns'\<rparr> \<and>
           mt_leaves \<lparr>mt_capacity = 2 ^ k, mt_nodes = ns'\<rparr> = drop (2 ^ k) ns"
proof -
  have "\<exists>ns'. parents_down sha (2 ^ k - 1) ns = Some ns' \<and> length ns' = 2 * 2 ^ k \<and>
      drop (2 ^ k) ns' = drop (2 ^ k) ns \<and> (\<forall>j. 1 \<le> j \<and> j < 2 ^ k \<longrightarrow> parent_ok sha ns' j)"
    using assms by (intro parents_down_ok) auto
  then show ?thesis by (auto simp: mt_ok_def mt_leaves_def)
qed

lemma place_leaves_some:
  "i + length ls \<le> length ns \<Longrightarrow>
     place_leaves i ls ns = Some (take i ns @ ls @ drop (i + length ls) ns)"
proof (induction ls arbitrary: i ns)
  case (Cons l ls)
  then have "place_leaves (i + 1) ls (ns[i := l]) =
      Some (take (i + 1) (ns[i := l]) @ ls @ drop (i + 1 + length ls) (ns[i := l]))"
    by (intro Cons.IH) simp
  moreover have "take (i + 1) (ns[i := l]) = take i ns @ [l]"
    using Cons.prems by (simp add: take_Suc_conv_app_nth)
  ultimately show ?case
    using Cons.prems by (simp add: list_put_def)
qed simp

lemma merkle_new_ok:
  assumes "n \<le> 2 ^ 56"
  shows "\<exists>k t. merkle_new sha n = Some t \<and> next_power_of_two (max n 1) = 2 ^ k \<and> mt_ok sha k t \<and>
           mt_leaves t = replicate (2 ^ k) 0"
proof -
  obtain k where k: "next_power_of_two (max n 1) = 2 ^ k"
    by (rule next_power_of_two_power)
  have "(2 :: nat) ^ k \<le> 2 ^ 56"
    using next_power_of_two_least [of "max n 1" 56] assms k by simp
  then have "zero_nodes (2 ^ k) = Some (replicate (2 ^ k * 2) 0)"
    by (simp add: zero_nodes_def)
  moreover obtain ns' where "parents_down sha (2 ^ k - 1) (replicate (2 ^ k * 2) 0) = Some ns'"
    "mt_ok sha k \<lparr>mt_capacity = 2 ^ k, mt_nodes = ns'\<rparr>"
    "mt_leaves \<lparr>mt_capacity = 2 ^ k, mt_nodes = ns'\<rparr> = drop (2 ^ k) (replicate (2 ^ k * 2) 0)"
    using built_ok [of "replicate (2 ^ k * 2) 0" k sha] by auto
  ultimately show ?thesis
    by (intro exI [of _ k] exI [of _ "\<lparr>mt_capacity = 2 ^ k, mt_nodes = ns'\<rparr>"])
      (simp add: merkle_new_def recompute_all_parents_def k [unfolded One_nat_def])
qed

lemma from_leaves_ok:
  assumes "length ls \<le> 2 ^ 56"
  shows "\<exists>k t. from_leaves sha ls = Some t \<and> next_power_of_two (max (length ls) 1) = 2 ^ k \<and> mt_ok sha k t \<and>
           mt_leaves t = ls @ replicate (2 ^ k - length ls) 0"
proof -
  obtain k where k: "next_power_of_two (max (length ls) 1) = 2 ^ k" "max (length ls) 1 \<le> 2 ^ k"
    by (rule next_power_of_two_power)
  have "(2 :: nat) ^ k \<le> 2 ^ 56"
    using next_power_of_two_least [of "max (length ls) 1" 56] assms k by simp
  then have zero: "zero_nodes (2 ^ k) = Some (replicate (2 ^ k * 2) 0)"
    by (simp add: zero_nodes_def)
  let ?ns = "replicate (2 ^ k) 0 @ ls @ replicate (2 ^ k - length ls) (0 :: hash)"
  have placed: "place_leaves (2 ^ k) ls (replicate (2 ^ k * 2) 0) = Some ?ns"
    using k(2) by (subst place_leaves_some) (simp_all add: min_def)
  obtain ns' where "parents_down sha (2 ^ k - 1) ?ns = Some ns'"
    "mt_ok sha k \<lparr>mt_capacity = 2 ^ k, mt_nodes = ns'\<rparr>"
    "mt_leaves \<lparr>mt_capacity = 2 ^ k, mt_nodes = ns'\<rparr> = drop (2 ^ k) ?ns"
    using built_ok [of ?ns k sha] k(2) by auto
  with zero placed show ?thesis
    by (intro exI [of _ k] exI [of _ "\<lparr>mt_capacity = 2 ^ k, mt_nodes = ns'\<rparr>"])
      (simp add: from_leaves_def k(1) [unfolded One_nat_def])
qed

section \<open>The representation check\<close>

lemma check_parents_ok:
  assumes "length ns = 2 * n" and "m < n"
  shows "check_parents sha m ns =
    Some (if \<forall>j. 1 \<le> j \<and> j \<le> m \<longrightarrow> parent_ok sha ns j then Ok () else Err InconsistentInternalNode)"
  using assms(2)
proof (induction m)
  case (Suc m)
  have "(\<forall>j. 1 \<le> j \<and> j \<le> Suc m \<longrightarrow> parent_ok sha ns j) \<longleftrightarrow>
      parent_ok sha ns (Suc m) \<and> (\<forall>j. 1 \<le> j \<and> j \<le> m \<longrightarrow> parent_ok sha ns j)"
    by (auto simp: le_Suc_eq)
  then show ?case
    using Suc assms(1) by (auto simp: list_at_def parent_ok_def)
qed simp

lemma merkle_validate_iff:
  "merkle_validate sha t = Some (Ok ()) \<longleftrightarrow> mt_capacity t * 2 \<le> u64_max \<and> (\<exists>k. mt_ok sha k t)"
proof (cases "mt_capacity t * 2 \<le> u64_max \<and> is_power_of_two (mt_capacity t) \<and>
    length (mt_nodes t) = mt_capacity t * 2")
  case True
  then obtain k where k: "mt_capacity t = 2 ^ k" by (auto simp: is_power_of_two_iff)
  have "merkle_validate sha t = check_parents sha (2 ^ k - 1) (mt_nodes t)"
    using True k by (simp add: merkle_validate_def)
  also have "\<dots> = Some (if \<forall>j. 1 \<le> j \<and> j \<le> 2 ^ k - 1 \<longrightarrow> parent_ok sha (mt_nodes t) j
      then Ok () else Err InconsistentInternalNode)"
    using True k by (intro check_parents_ok [where n = "2 ^ k"]) simp_all
  finally show ?thesis
    using True k by (auto simp: mt_ok_def less_eq_Suc_le)
next
  case False
  then show ?thesis
    by (auto simp: merkle_validate_def mt_ok_def is_power_of_two_iff)
qed

section \<open>Inclusion proofs\<close>

lemma sibling_index: "(i :: nat) XOR Suc 0 = (if even i then i + 1 else i - 1)"
  by (simp add: xor_Suc_0_eq)

lemma low_bit: "((i :: nat) AND Suc 0 = 0) = even i"
  by (simp add: and_Suc_0_eq even_iff_mod_2_eq_zero)

text \<open>The siblings of a node fold it to the root, for an index with the parities of the node's path.\<close>

lemma proof_path_climbs:
  assumes "length ns = 2 * n" and "\<forall>j. 1 \<le> j \<and> j < n \<longrightarrow> parent_ok sha ns j"
  shows "1 \<le> j \<Longrightarrow> j < 2 * n \<Longrightarrow> \<forall>m. j div 2 ^ m > 1 \<longrightarrow> even (idx div 2 ^ m) = even (j div 2 ^ m) \<Longrightarrow>
     \<exists>p. proof_path j ns = Some p \<and> climb sha idx (ns ! j) p = ns ! 1"
proof (induction j arbitrary: idx rule: less_induct)
  case (less j)
  show ?case
  proof (cases "j = 1")
    case True
    then show ?thesis by (simp add: proof_path.simps)
  next
    case False
    with less.prems have "j > 1" by simp
    have "\<forall>m. j div 2 div 2 ^ m > 1 \<longrightarrow> even (idx div 2 div 2 ^ m) = even (j div 2 div 2 ^ m)"
    proof
      fix m
      show "j div 2 div 2 ^ m > 1 \<longrightarrow> even (idx div 2 div 2 ^ m) = even (j div 2 div 2 ^ m)"
        using less.prems(3) [rule_format, of "Suc m"] by (simp add: div_mult2_eq)
    qed
    moreover have half: "j div 2 < j" "1 \<le> j div 2" "j div 2 < 2 * n" "j div 2 < n"
      using less.prems \<open>j > 1\<close> by auto
    ultimately obtain p where p: "proof_path (j div 2) ns = Some p"
      "climb sha (idx div 2) (ns ! (j div 2)) p = ns ! 1"
      using less.IH [of "j div 2" "idx div 2"] by blast
    have "even idx = even j" using less.prems(3) [rule_format, of 0] \<open>j > 1\<close> by simp
    moreover have "parent_ok sha ns (j div 2)"
      using assms(2) half by blast
    moreover have inside: "j XOR 1 < length ns"
      using assms(1) less.prems(2) by (auto simp: sibling_index elim!: evenE)
    moreover have "proof_path j ns = Some (ns ! (j XOR 1) # p)"
      using p(1) \<open>j > 1\<close> inside by (subst proof_path.simps) (simp add: list_at_def)
    ultimately show ?thesis
      using p(2) by (cases "even j") (simp_all add: parent_ok_def low_bit sibling_index flip: even_iff_mod_2_eq_zero)
  qed
qed

lemma proof_path_length: "proof_path j ns = Some p \<Longrightarrow> 2 ^ k \<le> j \<Longrightarrow> j < 2 * 2 ^ k \<Longrightarrow> length p = k"
proof (induction k arbitrary: j p)
  case 0
  then show ?case by (simp add: proof_path.simps)
next
  case (Suc k)
  have "(1 :: nat) \<le> 2 ^ k" by simp
  then have "j > 1" using Suc.prems(2) unfolding power_Suc by linarith
  then obtain q where "proof_path (j div 2) ns = Some q" "length p = Suc (length q)"
    using Suc.prems(1) by (auto simp: proof_path.simps [of j] bind_eq_Some_conv)
  moreover have "length q = k"
    using calculation(1) Suc.prems by (intro Suc.IH [of "j div 2"]) auto
  ultimately show ?case by simp
qed

lemma index_parity:
  fixes i :: nat
  assumes "i < 2 ^ k" and "(2 ^ k + i) div 2 ^ m > 1"
  shows "even (i div 2 ^ m) = even ((2 ^ k + i) div 2 ^ m)"
proof -
  have "m < k"
  proof (rule ccontr)
    assume "\<not> m < k"
    then have "(2 :: nat) ^ k \<le> 2 ^ m" by simp
    then have "2 ^ k + i < 2 * 2 ^ m" using assms(1) by linarith
    then have "(2 ^ k + i) div 2 ^ m < 2" by (simp add: less_mult_imp_div_less)
    with assms(2) show False by simp
  qed
  then obtain d where "k = m + Suc d" by (metis add_Suc_right less_iff_Suc_add)
  then have "(2 ^ k + i) div 2 ^ m = 2 * 2 ^ d + i div 2 ^ m"
    using div_mult_self4 [of "2 ^ m :: nat" "2 * 2 ^ d" i] by (simp add: power_add ac_simps)
  then show ?thesis by simp
qed

lemma merkle_proof_ok:
  assumes "mt_ok sha k t" and "i < 2 ^ k"
  shows "\<exists>p. merkle_proof t i = Some (Ok p) \<and> length p = k \<and>
           mt_root t = Some (climb sha i (mt_leaves t ! i) p)"
proof -
  have t: "mt_capacity t = 2 ^ k" "length (mt_nodes t) = 2 * 2 ^ k"
    "\<forall>j. 1 \<le> j \<and> j < 2 ^ k \<longrightarrow> parent_ok sha (mt_nodes t) j"
    using assms(1) by (auto simp: mt_ok_def)
  obtain p where p: "proof_path (2 ^ k + i) (mt_nodes t) = Some p"
    "climb sha i (mt_nodes t ! (2 ^ k + i)) p = mt_nodes t ! 1"
    using proof_path_climbs [OF t(2,3), of "2 ^ k + i" i] index_parity [OF assms(2)] assms(2)
    by (auto simp: Suc_le_eq)
  moreover have "length p = k"
    using p(1) assms(2) by (intro proof_path_length [where j = "2 ^ k + i"]) simp_all
  moreover have "mt_leaves t ! i = mt_nodes t ! (2 ^ k + i)"
    using t by (simp add: mt_leaves_def)
  moreover have "1 < length (mt_nodes t)"
    using t(2) one_le_power [of "2 :: nat" k] by linarith
  ultimately show ?thesis
    using assms(2) t(1) by (simp add: merkle_proof_def mt_root_def list_at_def)
qed

lemma merkle_proof_refused: "mt_ok sha k t \<Longrightarrow> i \<ge> 2 ^ k \<Longrightarrow> merkle_proof t i = Some (Err IndexOutOfRange)"
  by (simp add: merkle_proof_def mt_ok_def)

section \<open>What a verified path proves\<close>

text \<open>
  The bytes a hash is taken of. No statement about hashes can exclude collisions, so the soundness of a
  path is stated by extraction: \<open>forge\<close> walks the claimed path and the real tree from the root down and
  collects, level by level, the bytes hashed by the claim and by the tree. A path to a value the tree
  does not hold leads to a pair in this list that breaks the hash function.
\<close>

definition hash_preimage :: "bytes \<Rightarrow> bytes \<Rightarrow> bytes" where
  "hash_preimage tag data = le_bytes 8 (length tag) @ tag @ le_bytes 8 (length data) @ data"

definition node_preimage :: "hash \<Rightarrow> hash \<Rightarrow> bytes" where
  "node_preimage l r = hash_preimage DOMAIN_NODE (hash_bytes l @ hash_bytes r)"

text \<open>A pair of different byte strings with one digest, or a preimage of the empty leaf's zero digest.\<close>

fun clash :: "sha256 \<Rightarrow> bytes \<times> bytes option \<Rightarrow> bool" where
  "clash sha (x, Some y) \<longleftrightarrow> x \<noteq> y \<and> sha x = sha y"
| "clash sha (x, None) \<longleftrightarrow> sha x = 0"

definition real_preimage :: "merkle_tree \<Rightarrow> (nat \<Rightarrow> bytes option) \<Rightarrow> nat \<Rightarrow> bytes option" where
  "real_preimage t pre j =
     (if j < mt_capacity t then Some (node_preimage (mt_nodes t ! (2 * j)) (mt_nodes t ! (2 * j + 1)))
      else pre (j - mt_capacity t))"

fun forge :: "sha256 \<Rightarrow> merkle_tree \<Rightarrow> (nat \<Rightarrow> bytes option) \<Rightarrow> nat \<Rightarrow> bytes \<Rightarrow> hash list \<Rightarrow> nat \<Rightarrow>
    (bytes \<times> bytes option) list" where
  "forge sha t pre idx p [] j = [(p, real_preimage t pre j)]"
| "forge sha t pre idx p (s # rs) j =
     (let c = climb sha idx (sha p) (rev rs); b = idx div 2 ^ length rs mod 2 in
      (if b = 0 then node_preimage c s else node_preimage s c, real_preimage t pre j) #
      (if j < mt_capacity t then forge sha t pre idx p rs (2 * j + b) else []))"

text \<open>The leaves of the tree are the hashes of the given contents.\<close>

definition leaves_of :: "sha256 \<Rightarrow> merkle_tree \<Rightarrow> (nat \<Rightarrow> bytes option) \<Rightarrow> bool" where
  "leaves_of sha t pre \<longleftrightarrow> (\<forall>i < mt_capacity t.
     mt_leaves t ! i = (case pre i of Some p \<Rightarrow> sha p | None \<Rightarrow> 0))"

lemma hash_domain_preimage: "hash_domain sha tag data = sha (hash_preimage tag data)"
  by (simp add: hash_domain_def hash_preimage_def)

lemma hash_preimage_inj: "hash_preimage tag a = hash_preimage tag b \<longleftrightarrow> a = b"
  by (auto simp: hash_preimage_def)

lemma hash_preimage_tag:
  assumes "length tag \<noteq> length tag'" and "length tag < 2 ^ 64" and "length tag' < 2 ^ 64"
  shows "hash_preimage tag a \<noteq> hash_preimage tag' b"
proof
  assume "hash_preimage tag a = hash_preimage tag' b"
  then have "take 8 (hash_preimage tag a) = take 8 (hash_preimage tag' b)" by simp
  then have "le_nat (le_bytes 8 (length tag)) = le_nat (le_bytes 8 (length tag'))"
    by (simp add: hash_preimage_def)
  then show False using assms by (simp add: le_nat_le_bytes_id)
qed

lemma hash_bytes_inj: "hash_bytes a = hash_bytes b \<longleftrightarrow> a = b"
proof
  have bound: "unat h < 256 ^ 32" for h :: hash
    using unsigned_less [of h, where ?'a = nat] by simp
  assume "hash_bytes a = hash_bytes b"
  then have "le_nat (le_bytes 32 (unat a)) = le_nat (le_bytes 32 (unat b))"
    by (simp add: hash_bytes_def)
  then show "a = b"
    using bound [of a] bound [of b] by (simp add: le_nat_le_bytes word_unat_eq_iff)
qed simp

lemma length_hash_bytes: "length (hash_bytes h) = 32"
  by (simp add: hash_bytes_def)

lemma node_preimage_inj: "node_preimage a b = node_preimage c d \<longleftrightarrow> a = c \<and> b = d"
  by (simp add: node_preimage_def hash_preimage_inj append_eq_append_conv length_hash_bytes hash_bytes_inj)

lemma hash_node_preimage: "hash_node sha l r = sha (node_preimage l r)"
  by (simp add: hash_node_def hash_domain_preimage node_preimage_def)

lemma climb_snoc:
  "climb sha idx h (ss @ [s]) =
     (if idx div 2 ^ length ss mod 2 = 0 then hash_node sha (climb sha idx h ss) s
      else hash_node sha s (climb sha idx h ss))"
  by (induction ss arbitrary: idx h)
    (simp_all add: low_bit even_iff_mod_2_eq_zero and_Suc_0_eq flip: div_mult2_eq)

lemma mod_power_Suc: "(x :: nat) mod 2 ^ Suc n = x div 2 ^ n mod 2 * 2 ^ n + x mod 2 ^ n"
  by (simp add: mod_mult2_eq mult.commute [of 2])

lemma real_preimage_hash:
  assumes "mt_ok sha k t" and "leaves_of sha t pre" and "1 \<le> j" and "j < 2 * 2 ^ k"
  shows "mt_nodes t ! j = (case real_preimage t pre j of Some p \<Rightarrow> sha p | None \<Rightarrow> 0)"
proof (cases "j < 2 ^ k")
  case True
  then show ?thesis
    using assms by (auto simp: mt_ok_def parent_ok_def real_preimage_def hash_node_preimage)
next
  case False
  then have "mt_leaves t ! (j - 2 ^ k) = mt_nodes t ! j"
    using assms by (simp add: mt_leaves_def mt_ok_def)
  moreover have "mt_capacity t = 2 ^ k" "j - 2 ^ k < 2 ^ k"
    using assms False by (auto simp: mt_ok_def)
  ultimately show ?thesis
    using assms(2) False by (auto simp: leaves_of_def real_preimage_def)
qed

lemma forge_sound:
  assumes t: "mt_ok sha k t" and pre: "leaves_of sha t pre"
    and p: "\<And>l r. p \<noteq> node_preimage l r" and q: "\<And>i l r. pre i \<noteq> Some (node_preimage l r)"
  shows "1 \<le> j \<Longrightarrow> j < 2 * 2 ^ k \<Longrightarrow> climb sha idx (sha p) (rev rs) = mt_nodes t ! j \<Longrightarrow>
    \<forall>x \<in> set (forge sha t pre idx p rs j). \<not> clash sha x \<Longrightarrow>
    \<exists>i < 2 ^ k. 2 ^ k + i = j * 2 ^ length rs + idx mod 2 ^ length rs \<and> pre i = Some p"
proof (induction rs arbitrary: j)
  case Nil
  have "mt_capacity t = 2 ^ k" using t by (simp add: mt_ok_def)
  moreover have "sha p = (case real_preimage t pre j of Some p \<Rightarrow> sha p | None \<Rightarrow> 0)"
    using real_preimage_hash [OF t pre Nil.prems(1,2)] Nil.prems(3) by simp
  then have "real_preimage t pre j = Some p"
    using Nil.prems(4) by (auto split: option.splits)
  ultimately have "2 ^ k \<le> j" "pre (j - 2 ^ k) = Some p"
    using p by (auto simp: real_preimage_def split: if_splits)
  then show ?case
    using Nil.prems(2) by (intro exI [of _ "j - 2 ^ k"]) simp
next
  case (Cons s rs)
  let ?c = "climb sha idx (sha p) (rev rs)" and ?b = "idx div 2 ^ length rs mod 2"
  let ?x = "if ?b = 0 then node_preimage ?c s else node_preimage s ?c"
  have cap: "mt_capacity t = 2 ^ k" using t by (simp add: mt_ok_def)
  have "sha ?x = (case real_preimage t pre j of Some p \<Rightarrow> sha p | None \<Rightarrow> 0)"
    using real_preimage_hash [OF t pre Cons.prems(1,2)] Cons.prems(3)
    by (simp add: climb_snoc hash_node_preimage split: if_splits)
  moreover have "\<not> clash sha (?x, real_preimage t pre j)"
    using Cons.prems(4) by (simp add: Let_def del: clash.simps)
  ultimately have x: "real_preimage t pre j = Some ?x"
    by (cases "real_preimage t pre j") simp_all
  then have "j < 2 ^ k"
    using q cap by (auto simp: real_preimage_def split: if_splits)
  then have c: "?c = mt_nodes t ! (2 * j + ?b)"
    using x cap by (auto simp: real_preimage_def node_preimage_inj split: if_splits)
  have "\<exists>i < 2 ^ k. 2 ^ k + i = (2 * j + ?b) * 2 ^ length rs + idx mod 2 ^ length rs \<and> pre i = Some p"
  proof (rule Cons.IH [OF _ _ c])
    show "1 \<le> 2 * j + ?b" "2 * j + ?b < 2 * 2 ^ k"
      using Cons.prems(1) \<open>j < 2 ^ k\<close> by linarith+
    show "\<forall>x \<in> set (forge sha t pre idx p rs (2 * j + ?b)). \<not> clash sha x"
      using Cons.prems(4) \<open>j < 2 ^ k\<close> cap by (simp add: Let_def)
  qed
  moreover have "(2 * j + ?b) * 2 ^ length rs + idx mod 2 ^ length rs =
      j * 2 ^ length (s # rs) + idx mod 2 ^ length (s # rs)"
    using mod_power_Suc [of idx "length rs"] by (simp add: algebra_simps)
  ultimately show ?case by simp
qed

end
