(* ===== verification/StateTree.thy ===== *)
theory StateTree
  imports Merkle "HOL-Library.Multiset"
begin

text \<open>
  The per-shard state commitment of \<open>crates/state-tree\<close>: the account and market sub-trees with their
  lazily cached combined root and the light-client proofs (\<open>tree.rs\<close>), and the checkpoint root over
  the shards (\<open>checkpoint.rs\<close>). Ids are \<open>u32\<close>, which always convert to a \<open>usize\<close> index.
\<close>

section \<open>Leaves\<close>

definition DOMAIN_ACCOUNT :: bytes where
  "DOMAIN_ACCOUNT = ascii ''dexos:account:v1''"

definition DOMAIN_MARKET :: bytes where
  "DOMAIN_MARKET = ascii ''dexos:market:v1''"

definition hash_account_leaf :: "sha256 \<Rightarrow> bytes \<Rightarrow> hash" where
  "hash_account_leaf sha data = hash_domain sha DOMAIN_ACCOUNT data"

definition hash_market_leaf :: "sha256 \<Rightarrow> bytes \<Rightarrow> hash" where
  "hash_market_leaf sha data = hash_domain sha DOMAIN_MARKET data"

section \<open>The state tree\<close>

datatype state_error = IdOutOfRange | Merkle merkle_error | CachedRootMismatch

record state_tree =
  st_accounts :: merkle_tree
  st_markets :: merkle_tree
  st_cached_root :: "hash option"

definition st_new :: "sha256 \<Rightarrow> nat \<Rightarrow> nat \<Rightarrow> state_tree option" where
  "st_new sha account_capacity market_capacity =
     Option.bind (merkle_new sha (max account_capacity 1)) (\<lambda>a.
     Option.bind (merkle_new sha (max market_capacity 1)) (\<lambda>m.
       Some \<lparr>st_accounts = a, st_markets = m, st_cached_root = None\<rparr>))"

definition set_account ::
    "sha256 \<Rightarrow> state_tree \<Rightarrow> nat \<Rightarrow> bytes \<Rightarrow> ((unit, state_error) result \<times> state_tree) option" where
  "set_account sha t i leaf_bytes =
     map_option (\<lambda>(r, a). case r of
         Inl _ \<Rightarrow> (Err IdOutOfRange, t\<lparr>st_accounts := a\<rparr>)
       | Inr _ \<Rightarrow> (Ok (), t\<lparr>st_accounts := a, st_cached_root := None\<rparr>))
       (merkle_set sha (st_accounts t) i (hash_account_leaf sha leaf_bytes))"

definition set_market ::
    "sha256 \<Rightarrow> state_tree \<Rightarrow> nat \<Rightarrow> bytes \<Rightarrow> ((unit, state_error) result \<times> state_tree) option" where
  "set_market sha t i leaf_bytes =
     map_option (\<lambda>(r, m). case r of
         Inl _ \<Rightarrow> (Err IdOutOfRange, t\<lparr>st_markets := m\<rparr>)
       | Inr _ \<Rightarrow> (Ok (), t\<lparr>st_markets := m, st_cached_root := None\<rparr>))
       (merkle_set sha (st_markets t) i (hash_market_leaf sha leaf_bytes))"

definition clear_account ::
    "sha256 \<Rightarrow> state_tree \<Rightarrow> nat \<Rightarrow> ((unit, state_error) result \<times> state_tree) option" where
  "clear_account sha t i =
     map_option (\<lambda>(r, a). case r of
         Inl _ \<Rightarrow> (Err IdOutOfRange, t\<lparr>st_accounts := a\<rparr>)
       | Inr _ \<Rightarrow> (Ok (), t\<lparr>st_accounts := a, st_cached_root := None\<rparr>))
       (merkle_set sha (st_accounts t) i 0)"

definition clear_market ::
    "sha256 \<Rightarrow> state_tree \<Rightarrow> nat \<Rightarrow> ((unit, state_error) result \<times> state_tree) option" where
  "clear_market sha t i =
     map_option (\<lambda>(r, m). case r of
         Inl _ \<Rightarrow> (Err IdOutOfRange, t\<lparr>st_markets := m\<rparr>)
       | Inr _ \<Rightarrow> (Ok (), t\<lparr>st_markets := m, st_cached_root := None\<rparr>))
       (merkle_set sha (st_markets t) i 0)"

definition account_root :: "state_tree \<Rightarrow> hash option" where
  "account_root t = mt_root (st_accounts t)"

definition market_root :: "state_tree \<Rightarrow> hash option" where
  "market_root t = mt_root (st_markets t)"

text \<open>Reading the root fills the cache.\<close>

definition st_root :: "sha256 \<Rightarrow> state_tree \<Rightarrow> (hash \<times> state_tree) option" where
  "st_root sha t =
     (case st_cached_root t of
        Some cached \<Rightarrow> Some (cached, t)
      | None \<Rightarrow>
          Option.bind (mt_root (st_accounts t)) (\<lambda>a. Option.bind (mt_root (st_markets t)) (\<lambda>m.
            let root = hash_node sha a m in Some (root, t\<lparr>st_cached_root := Some root\<rparr>))))"

definition st_validate ::
    "sha256 \<Rightarrow> state_tree \<Rightarrow> (unit, state_error) result option" where
  "st_validate sha t =
     Option.bind (merkle_validate sha (st_accounts t)) (\<lambda>ra. case ra of
       Inl e \<Rightarrow> Some (Err (Merkle e))
     | Inr _ \<Rightarrow> Option.bind (merkle_validate sha (st_markets t)) (\<lambda>rm. case rm of
         Inl e \<Rightarrow> Some (Err (Merkle e))
       | Inr _ \<Rightarrow>
           Option.bind (mt_root (st_accounts t)) (\<lambda>a. Option.bind (mt_root (st_markets t)) (\<lambda>m.
             case st_cached_root t of
               None \<Rightarrow> Some (Ok ())
             | Some c \<Rightarrow> Some (if c \<noteq> hash_node sha a m then Err CachedRootMismatch else Ok ())))))"

definition account_proof :: "state_tree \<Rightarrow> nat \<Rightarrow> (hash list, state_error) result option" where
  "account_proof t i =
     Option.bind (merkle_proof (st_accounts t) i) (\<lambda>r. case r of
       Inl _ \<Rightarrow> Some (Err IdOutOfRange)
     | Inr p \<Rightarrow> map_option (\<lambda>m. Ok (p @ [m])) (mt_root (st_markets t)))"

definition market_proof :: "state_tree \<Rightarrow> nat \<Rightarrow> (hash list, state_error) result option" where
  "market_proof t i =
     Option.bind (merkle_proof (st_markets t) i) (\<lambda>r. case r of
       Inl _ \<Rightarrow> Some (Err IdOutOfRange)
     | Inr p \<Rightarrow> map_option (\<lambda>a. Ok (p @ [a])) (mt_root (st_accounts t)))"

definition fold_subtree :: "sha256 \<Rightarrow> nat \<Rightarrow> hash \<Rightarrow> hash list \<Rightarrow> hash option" where
  "fold_subtree sha index leaf siblings =
     (if length siblings \<ge> 64 then None
      else if drop_bit (length siblings) index \<noteq> 0 then None
      else Some (climb sha index leaf siblings))"

definition verify_account :: "sha256 \<Rightarrow> hash \<Rightarrow> nat \<Rightarrow> bytes \<Rightarrow> hash list \<Rightarrow> bool" where
  "verify_account sha root i leaf_bytes siblings =
     (if siblings = [] then False
      else case fold_subtree sha i (hash_account_leaf sha leaf_bytes) (butlast siblings) of
        None \<Rightarrow> False
      | Some a \<Rightarrow> hash_node sha a (last siblings) = root)"

definition verify_market :: "sha256 \<Rightarrow> hash \<Rightarrow> nat \<Rightarrow> bytes \<Rightarrow> hash list \<Rightarrow> bool" where
  "verify_market sha root i leaf_bytes siblings =
     (if siblings = [] then False
      else case fold_subtree sha i (hash_market_leaf sha leaf_bytes) (butlast siblings) of
        None \<Rightarrow> False
      | Some m \<Rightarrow> hash_node sha (last siblings) m = root)"

section \<open>Checkpoints\<close>

definition shard_leaf :: "sha256 \<Rightarrow> nat \<times> hash \<Rightarrow> hash" where
  "shard_leaf sha = (\<lambda>(i, root). hash_leaf sha (le_bytes 2 i @ hash_bytes root))"

definition checkpoint_root :: "sha256 \<Rightarrow> (nat \<times> hash) list \<Rightarrow> hash option" where
  "checkpoint_root sha shard_roots =
     merkle_root sha (map (shard_leaf sha) (sort_key fst shard_roots))"

section \<open>Sequences of operations\<close>

text \<open>The calls a shard makes, and the contents they leave: the last bytes stored under each id in range.\<close>

datatype tree_command =
    SetAccount nat bytes
  | SetMarket nat bytes
  | ClearAccount nat
  | ClearMarket nat
  | ReadRoot

fun tree_step :: "sha256 \<Rightarrow> state_tree \<Rightarrow> tree_command \<Rightarrow> state_tree option" where
  "tree_step sha t (SetAccount i bs) = map_option snd (set_account sha t i bs)"
| "tree_step sha t (SetMarket i bs) = map_option snd (set_market sha t i bs)"
| "tree_step sha t (ClearAccount i) = map_option snd (clear_account sha t i)"
| "tree_step sha t (ClearMarket i) = map_option snd (clear_market sha t i)"
| "tree_step sha t ReadRoot = map_option snd (st_root sha t)"

fun tree_run :: "sha256 \<Rightarrow> state_tree \<Rightarrow> tree_command list \<Rightarrow> state_tree option" where
  "tree_run sha t [] = Some t"
| "tree_run sha t (c # cs) = Option.bind (tree_step sha t c) (\<lambda>t'. tree_run sha t' cs)"

type_synonym tree_contents = "nat \<Rightarrow> bytes option"

fun account_writes :: "nat \<Rightarrow> tree_command \<Rightarrow> tree_contents \<Rightarrow> tree_contents" where
  "account_writes cap (SetAccount i bs) A = (if i < cap then A(i := Some bs) else A)"
| "account_writes cap (ClearAccount i) A = (if i < cap then A(i := None) else A)"
| "account_writes cap _ A = A"

fun market_writes :: "nat \<Rightarrow> tree_command \<Rightarrow> tree_contents \<Rightarrow> tree_contents" where
  "market_writes cap (SetMarket i bs) M = (if i < cap then M(i := Some bs) else M)"
| "market_writes cap (ClearMarket i) M = (if i < cap then M(i := None) else M)"
| "market_writes cap _ M = M"

definition tree_capacity :: "nat \<Rightarrow> nat" where
  "tree_capacity n = next_power_of_two (max n 1)"

definition accounts_of :: "nat \<Rightarrow> tree_command list \<Rightarrow> tree_contents" where
  "accounts_of n cs = fold (account_writes (tree_capacity n)) cs (\<lambda>_. None)"

definition markets_of :: "nat \<Rightarrow> tree_command list \<Rightarrow> tree_contents" where
  "markets_of n cs = fold (market_writes (tree_capacity n)) cs (\<lambda>_. None)"

text \<open>The reference: hash all leaves of the contents from scratch.\<close>

definition content_leaves :: "sha256 \<Rightarrow> bytes \<Rightarrow> nat \<Rightarrow> tree_contents \<Rightarrow> hash list" where
  "content_leaves sha tag cap A =
     map (\<lambda>i. case A i of Some bs \<Rightarrow> hash_domain sha tag bs | None \<Rightarrow> 0) [0..<cap]"

definition rebuilt_root :: "sha256 \<Rightarrow> nat \<Rightarrow> nat \<Rightarrow> tree_contents \<Rightarrow> tree_contents \<Rightarrow> hash option" where
  "rebuilt_root sha acap mcap A M =
     Option.bind (merkle_root sha (content_leaves sha DOMAIN_ACCOUNT (tree_capacity acap) A)) (\<lambda>a.
     Option.bind (merkle_root sha (content_leaves sha DOMAIN_MARKET (tree_capacity mcap) M)) (\<lambda>m.
       Some (hash_node sha a m)))"

section \<open>The invariant\<close>

definition st_ok :: "sha256 \<Rightarrow> nat \<Rightarrow> nat \<Rightarrow> tree_contents \<Rightarrow> tree_contents \<Rightarrow> state_tree \<Rightarrow> bool" where
  "st_ok sha k l A M t \<longleftrightarrow>
     mt_ok sha k (st_accounts t) \<and> mt_leaves (st_accounts t) = content_leaves sha DOMAIN_ACCOUNT (2 ^ k) A \<and>
     mt_ok sha l (st_markets t) \<and> mt_leaves (st_markets t) = content_leaves sha DOMAIN_MARKET (2 ^ l) M \<and>
     (\<forall>c. st_cached_root t = Some c \<longrightarrow>
        c = hash_node sha (tree_hash sha k (mt_leaves (st_accounts t)))
              (tree_hash sha l (mt_leaves (st_markets t))))"

lemma content_leaves_update:
  "i < cap \<Longrightarrow> content_leaves sha tag cap (A(i := v)) =
     (content_leaves sha tag cap A)[i := (case v of Some bs \<Rightarrow> hash_domain sha tag bs | None \<Rightarrow> 0)]"
  by (rule nth_equalityI) (auto simp: content_leaves_def nth_list_update)

lemma content_leaves_empty: "content_leaves sha tag cap (\<lambda>_. None) = replicate cap 0"
  by (rule nth_equalityI) (auto simp: content_leaves_def)

text \<open>A store of either kind at a leaf of the account tree, and likewise of the market tree.\<close>

lemma account_store_ok:
  assumes "st_ok sha k l A M t"
    and "leaf = (case v of Some bs \<Rightarrow> hash_domain sha DOMAIN_ACCOUNT bs | None \<Rightarrow> 0)"
  shows "\<exists>r a. merkle_set sha (st_accounts t) i leaf = Some (r, a) \<and>
    (if i < 2 ^ k then r = Ok () \<and> st_ok sha k l (A(i := v)) M (t\<lparr>st_accounts := a, st_cached_root := None\<rparr>)
     else r = Err IndexOutOfRange \<and> a = st_accounts t)"
proof (cases "i < 2 ^ k")
  case True
  then obtain a where a: "merkle_set sha (st_accounts t) i leaf = Some (Ok (), a)" "mt_ok sha k a"
    "mt_leaves a = (mt_leaves (st_accounts t))[i := leaf]"
    using merkle_set_ok assms(1) unfolding st_ok_def by blast
  have "st_ok sha k l (A(i := v)) M (t\<lparr>st_accounts := a, st_cached_root := None\<rparr>)"
    using assms a(2,3) True by (simp add: st_ok_def content_leaves_update)
  with a(1) True show ?thesis by simp
next
  case False
  then show ?thesis using assms(1) merkle_set_refused by (auto simp: st_ok_def)
qed

lemma market_store_ok:
  assumes "st_ok sha k l A M t"
    and "leaf = (case v of Some bs \<Rightarrow> hash_domain sha DOMAIN_MARKET bs | None \<Rightarrow> 0)"
  shows "\<exists>r m. merkle_set sha (st_markets t) i leaf = Some (r, m) \<and>
    (if i < 2 ^ l then r = Ok () \<and> st_ok sha k l A (M(i := v)) (t\<lparr>st_markets := m, st_cached_root := None\<rparr>)
     else r = Err IndexOutOfRange \<and> m = st_markets t)"
proof (cases "i < 2 ^ l")
  case True
  then obtain m where m: "merkle_set sha (st_markets t) i leaf = Some (Ok (), m)" "mt_ok sha l m"
    "mt_leaves m = (mt_leaves (st_markets t))[i := leaf]"
    using merkle_set_ok assms(1) unfolding st_ok_def by blast
  have "st_ok sha k l A (M(i := v)) (t\<lparr>st_markets := m, st_cached_root := None\<rparr>)"
    using assms m(2,3) True by (simp add: st_ok_def content_leaves_update)
  with m(1) True show ?thesis by simp
next
  case False
  then show ?thesis using assms(1) merkle_set_refused by (auto simp: st_ok_def)
qed

lemma st_ok_root:
  assumes "st_ok sha k l A M t"
  shows "\<exists>t'. st_root sha t = Some (hash_node sha (tree_hash sha k (mt_leaves (st_accounts t)))
             (tree_hash sha l (mt_leaves (st_markets t))), t') \<and> st_ok sha k l A M t' \<and>
           st_accounts t' = st_accounts t \<and> st_markets t' = st_markets t"
proof (cases "st_cached_root t")
  case None
  have "mt_root (st_accounts t) = Some (tree_hash sha k (mt_leaves (st_accounts t)))"
    "mt_root (st_markets t) = Some (tree_hash sha l (mt_leaves (st_markets t)))"
    using assms mt_ok_root by (auto simp: st_ok_def)
  with None assms show ?thesis by (simp add: st_root_def st_ok_def Let_def)
next
  case (Some c)
  then show ?thesis using assms by (simp add: st_root_def st_ok_def)
qed

lemma tree_step_ok:
  assumes "st_ok sha k l A M t"
  shows "\<exists>t'. tree_step sha t c = Some t' \<and> st_ok sha k l (account_writes (2 ^ k) c A) (market_writes (2 ^ l) c M) t'"
proof (cases c)
  case (SetAccount i bs)
  obtain r m where "merkle_set sha (st_accounts t) i (case Some bs of Some bs \<Rightarrow> hash_domain sha DOMAIN_ACCOUNT bs | None \<Rightarrow> 0) = Some (r, m)"
    and "if i < 2 ^ k then r = Ok () \<and> st_ok sha k l (A(i := Some bs)) M (t\<lparr>st_accounts := m, st_cached_root := None\<rparr>)
      else r = Err IndexOutOfRange \<and> m = st_accounts t"
    using account_store_ok [OF assms refl, of i "Some bs"] by blast
  then show ?thesis
    using assms by (cases "i < 2 ^ k") (simp_all add: SetAccount set_account_def hash_account_leaf_def)
next
  case (SetMarket i bs)
  obtain r m where "merkle_set sha (st_markets t) i (case Some bs of Some bs \<Rightarrow> hash_domain sha DOMAIN_MARKET bs | None \<Rightarrow> 0) = Some (r, m)"
    and "if i < 2 ^ l then r = Ok () \<and> st_ok sha k l A (M(i := Some bs)) (t\<lparr>st_markets := m, st_cached_root := None\<rparr>)
      else r = Err IndexOutOfRange \<and> m = st_markets t"
    using market_store_ok [OF assms refl, of i "Some bs"] by blast
  then show ?thesis
    using assms by (cases "i < 2 ^ l") (simp_all add: SetMarket set_market_def hash_market_leaf_def)
next
  case (ClearAccount i)
  obtain r m where "merkle_set sha (st_accounts t) i (case None of Some bs \<Rightarrow> hash_domain sha DOMAIN_ACCOUNT bs | None \<Rightarrow> 0) = Some (r, m)"
    and "if i < 2 ^ k then r = Ok () \<and> st_ok sha k l (A(i := None)) M (t\<lparr>st_accounts := m, st_cached_root := None\<rparr>)
      else r = Err IndexOutOfRange \<and> m = st_accounts t"
    using account_store_ok [OF assms refl, of i "None"] by blast
  then show ?thesis
    using assms by (cases "i < 2 ^ k") (simp_all add: ClearAccount clear_account_def)
next
  case (ClearMarket i)
  obtain r m where "merkle_set sha (st_markets t) i (case None of Some bs \<Rightarrow> hash_domain sha DOMAIN_MARKET bs | None \<Rightarrow> 0) = Some (r, m)"
    and "if i < 2 ^ l then r = Ok () \<and> st_ok sha k l A (M(i := None)) (t\<lparr>st_markets := m, st_cached_root := None\<rparr>)
      else r = Err IndexOutOfRange \<and> m = st_markets t"
    using market_store_ok [OF assms refl, of i "None"] by blast
  then show ?thesis
    using assms by (cases "i < 2 ^ l") (simp_all add: ClearMarket clear_market_def)
next
  case ReadRoot
  from st_ok_root [OF assms] show ?thesis by (auto simp: ReadRoot)
qed

lemma tree_run_ok:
  "st_ok sha k l A M t \<Longrightarrow> \<exists>t'. tree_run sha t cs = Some t' \<and>
     st_ok sha k l (fold (account_writes (2 ^ k)) cs A) (fold (market_writes (2 ^ l)) cs M) t'"
proof (induction cs arbitrary: t A M)
  case (Cons c cs)
  from tree_step_ok [OF Cons.prems, of c] Cons.IH show ?case by fastforce
qed simp

lemma st_new_ok:
  assumes "acap \<le> 2 ^ 56" and "mcap \<le> 2 ^ 56"
  shows "\<exists>k l t. st_new sha acap mcap = Some t \<and> tree_capacity acap = 2 ^ k \<and> tree_capacity mcap = 2 ^ l \<and>
           st_ok sha k l (\<lambda>_. None) (\<lambda>_. None) t"
proof -
  have "max acap 1 \<le> 2 ^ 56" "max mcap 1 \<le> 2 ^ 56" using assms by simp_all
  from merkle_new_ok [OF this(1), of sha] merkle_new_ok [OF this(2), of sha] show ?thesis
    by (fastforce simp: st_new_def st_ok_def content_leaves_empty tree_capacity_def)
qed

text \<open>Every sequence of operations on a new tree runs to a tree of its contents.\<close>

lemma tree_reached:
  assumes "acap \<le> 2 ^ 56" and "mcap \<le> 2 ^ 56"
  shows "\<exists>k l t0 t. st_new sha acap mcap = Some t0 \<and> tree_run sha t0 cs = Some t \<and>
    tree_capacity acap = 2 ^ k \<and> tree_capacity mcap = 2 ^ l \<and>
    st_ok sha k l (accounts_of acap cs) (markets_of mcap cs) t"
proof -
  obtain k l t0 where t0: "st_new sha acap mcap = Some t0" "tree_capacity acap = 2 ^ k"
    "tree_capacity mcap = 2 ^ l" "st_ok sha k l (\<lambda>_. None) (\<lambda>_. None) t0"
    using st_new_ok [OF assms] by blast
  with tree_run_ok [OF t0(4), of cs] show ?thesis
    by (auto simp: accounts_of_def markets_of_def)
qed

lemma merkle_root_full:
  assumes "length ls = 2 ^ k" and "k \<le> 56"
  shows "merkle_root sha ls = Some (tree_hash sha k ls)"
proof -
  have "max (length ls) 1 = 2 ^ k" using assms(1) by simp
  moreover have "next_power_of_two (2 ^ k) = 2 ^ k"
    using is_power_of_two_iff [of "2 ^ k"] by (auto simp: is_power_of_two_def)
  moreover have "length ls \<le> 2 ^ 56" using assms power_increasing [of k 56 "2 :: nat"] by simp
  ultimately obtain t where "from_leaves sha ls = Some t" "mt_ok sha k t" "mt_leaves t = ls"
    using from_leaves_ok [of ls sha] assms(1) by auto
  then show ?thesis
    using mt_ok_root [of sha k t] assms(1) by (auto simp: merkle_root_def)
qed

lemma capacity_height:
  assumes "n \<le> 2 ^ 56" and "tree_capacity n = 2 ^ k"
  shows "k \<le> 56"
proof -
  have "(2 :: nat) ^ k \<le> 2 ^ 56"
    using next_power_of_two_least [of "max n 1" 56] assms by (simp add: tree_capacity_def)
  then show ?thesis by (rule power_le_imp_le_exp [rotated]) simp
qed

lemma length_content_leaves [simp]: "length (content_leaves sha tag cap A) = cap"
  by (simp add: content_leaves_def)

lemma st_ok_rebuilt:
  assumes "st_ok sha k l A M t" and "tree_capacity acap = 2 ^ k" and "tree_capacity mcap = 2 ^ l"
    and "k \<le> 56" and "l \<le> 56"
  shows "rebuilt_root sha acap mcap A M =
    Some (hash_node sha (tree_hash sha k (mt_leaves (st_accounts t))) (tree_hash sha l (mt_leaves (st_markets t))))"
  using assms by (simp add: rebuilt_root_def st_ok_def merkle_root_full)

lemma st_ok_validates:
  assumes "st_ok sha k l A M t" and "k \<le> 56" and "l \<le> 56"
  shows "st_validate sha t = Some (Ok ())"
proof -
  have "(2 :: nat) ^ k * 2 \<le> u64_max" "(2 :: nat) ^ l * 2 \<le> u64_max"
    using power_increasing [OF assms(2), of "2 :: nat"] power_increasing [OF assms(3), of "2 :: nat"]
    by (simp_all add: u64_max_def)
  then have "merkle_validate sha (st_accounts t) = Some (Ok ())" "merkle_validate sha (st_markets t) = Some (Ok ())"
    using assms(1) by (auto simp: merkle_validate_iff st_ok_def mt_ok_def)
  moreover have "mt_root (st_accounts t) = Some (tree_hash sha k (mt_leaves (st_accounts t)))"
    "mt_root (st_markets t) = Some (tree_hash sha l (mt_leaves (st_markets t)))"
    using assms(1) mt_ok_root by (auto simp: st_ok_def)
  ultimately show ?thesis
    using assms(1) by (auto simp: st_validate_def st_ok_def split: option.splits)
qed

lemma accounts_in_range: "accounts_of n cs i \<noteq> None \<Longrightarrow> i < tree_capacity n"
proof -
  have "A i = None \<Longrightarrow> i \<ge> cap \<Longrightarrow> fold (account_writes cap) cs A i = None" for A cap
  proof (induction cs arbitrary: A)
    case (Cons c cs)
    then show ?case by (cases c) auto
  qed simp
  then show "accounts_of n cs i \<noteq> None \<Longrightarrow> i < tree_capacity n"
    by (metis accounts_of_def not_le)
qed

lemma markets_in_range: "markets_of n cs i \<noteq> None \<Longrightarrow> i < tree_capacity n"
proof -
  have "M i = None \<Longrightarrow> i \<ge> cap \<Longrightarrow> fold (market_writes cap) cs M i = None" for M cap
  proof (induction cs arbitrary: M)
    case (Cons c cs)
    then show ?case by (cases c) auto
  qed simp
  then show "markets_of n cs i \<noteq> None \<Longrightarrow> i < tree_capacity n"
    by (metis markets_of_def not_le)
qed

section \<open>Light-client proofs\<close>

lemma content_leaf: "i < cap \<Longrightarrow> A i = Some bs \<Longrightarrow> content_leaves sha tag cap A ! i = hash_domain sha tag bs"
  by (simp add: content_leaves_def)

lemma fold_subtree_full: "i < 2 ^ length p \<Longrightarrow> length p < 64 \<Longrightarrow> fold_subtree sha i leaf p = Some (climb sha i leaf p)"
  by (simp add: fold_subtree_def drop_bit_eq_div)

lemma account_proof_verifies:
  assumes "st_ok sha k l A M t" and "k \<le> 56" and "i < 2 ^ k" and "A i = Some bs"
    and "st_root sha t = Some (root, t')"
  shows "\<exists>p. account_proof t i = Some (Ok p) \<and> length p = k + 1 \<and> verify_account sha root i bs p"
proof -
  obtain p where p: "merkle_proof (st_accounts t) i = Some (Ok p)" "length p = k"
    "mt_root (st_accounts t) = Some (climb sha i (mt_leaves (st_accounts t) ! i) p)"
    using merkle_proof_ok assms(1,3) unfolding st_ok_def by blast
  have roots: "mt_root (st_accounts t) = Some (tree_hash sha k (mt_leaves (st_accounts t)))"
    "mt_root (st_markets t) = Some (tree_hash sha l (mt_leaves (st_markets t)))"
    using assms(1) mt_ok_root by (auto simp: st_ok_def)
  have "mt_leaves (st_accounts t) ! i = hash_account_leaf sha bs"
    using assms by (simp add: st_ok_def content_leaf hash_account_leaf_def)
  moreover have "root = hash_node sha (tree_hash sha k (mt_leaves (st_accounts t)))
      (tree_hash sha l (mt_leaves (st_markets t)))"
    using st_ok_root [OF assms(1)] assms(5) by auto
  ultimately show ?thesis
    using p roots assms(2,3)
    by (simp add: account_proof_def verify_account_def fold_subtree_full)
qed

lemma market_proof_verifies:
  assumes "st_ok sha k l A M t" and "l \<le> 56" and "i < 2 ^ l" and "M i = Some bs"
    and "st_root sha t = Some (root, t')"
  shows "\<exists>p. market_proof t i = Some (Ok p) \<and> length p = l + 1 \<and> verify_market sha root i bs p"
proof -
  obtain p where p: "merkle_proof (st_markets t) i = Some (Ok p)" "length p = l"
    "mt_root (st_markets t) = Some (climb sha i (mt_leaves (st_markets t) ! i) p)"
    using merkle_proof_ok assms(1,3) unfolding st_ok_def by blast
  have roots: "mt_root (st_accounts t) = Some (tree_hash sha k (mt_leaves (st_accounts t)))"
    "mt_root (st_markets t) = Some (tree_hash sha l (mt_leaves (st_markets t)))"
    using assms(1) mt_ok_root by (auto simp: st_ok_def)
  have "mt_leaves (st_markets t) ! i = hash_market_leaf sha bs"
    using assms by (simp add: st_ok_def content_leaf hash_market_leaf_def)
  moreover have "root = hash_node sha (tree_hash sha k (mt_leaves (st_accounts t)))
      (tree_hash sha l (mt_leaves (st_markets t)))"
    using st_ok_root [OF assms(1)] assms(5) by auto
  ultimately show ?thesis
    using p roots assms(2,3)
    by (simp add: market_proof_def verify_market_def fold_subtree_full)
qed

text \<open>
  The bytes hashed by a claimed path and by the tree: the combination of the two sub-trees first, then
  the levels of the sub-tree the path leads into.
\<close>

definition account_forgery ::
    "sha256 \<Rightarrow> state_tree \<Rightarrow> tree_contents \<Rightarrow> nat \<Rightarrow> bytes \<Rightarrow> hash list \<Rightarrow> (bytes \<times> bytes option) list" where
  "account_forgery sha t A i bs siblings =
     (node_preimage (climb sha i (hash_account_leaf sha bs) (butlast siblings)) (last siblings),
      Some (node_preimage (mt_nodes (st_accounts t) ! 1) (mt_nodes (st_markets t) ! 1))) #
     forge sha (st_accounts t) (\<lambda>i. map_option (hash_preimage DOMAIN_ACCOUNT) (A i)) i
       (hash_preimage DOMAIN_ACCOUNT bs) (rev (butlast siblings)) 1"

definition market_forgery ::
    "sha256 \<Rightarrow> state_tree \<Rightarrow> tree_contents \<Rightarrow> nat \<Rightarrow> bytes \<Rightarrow> hash list \<Rightarrow> (bytes \<times> bytes option) list" where
  "market_forgery sha t M i bs siblings =
     (node_preimage (last siblings) (climb sha i (hash_market_leaf sha bs) (butlast siblings)),
      Some (node_preimage (mt_nodes (st_accounts t) ! 1) (mt_nodes (st_markets t) ! 1))) #
     forge sha (st_markets t) (\<lambda>i. map_option (hash_preimage DOMAIN_MARKET) (M i)) i
       (hash_preimage DOMAIN_MARKET bs) (rev (butlast siblings)) 1"

lemma leaf_not_node: "hash_preimage DOMAIN_ACCOUNT bs \<noteq> node_preimage x y" "hash_preimage DOMAIN_MARKET bs \<noteq> node_preimage x y"
  unfolding node_preimage_def
  by (rule hash_preimage_tag; simp add: DOMAIN_ACCOUNT_def DOMAIN_MARKET_def DOMAIN_NODE_def ascii_def)+

lemma content_leaves_of:
  assumes "mt_ok sha k m" and "mt_leaves m = content_leaves sha tag (2 ^ k) A"
  shows "leaves_of sha m (\<lambda>i. map_option (hash_preimage tag) (A i))"
  using assms
  by (auto simp: leaves_of_def mt_ok_def content_leaves_def hash_domain_preimage split: option.splits)

text \<open>A path that folds to the root of a sub-tree leads to a stored value or to a clash.\<close>

lemma subtree_sound:
  assumes "mt_ok sha k m" and "mt_leaves m = content_leaves sha tag (2 ^ k) A"
    and tag: "\<And>bs x y. hash_preimage tag bs \<noteq> node_preimage x y"
    and "fold_subtree sha i (hash_domain sha tag bs) ss = Some (mt_nodes m ! 1)"
    and "\<forall>x \<in> set (forge sha m (\<lambda>i. map_option (hash_preimage tag) (A i)) i (hash_preimage tag bs) (rev ss) 1).
           \<not> clash sha x"
  shows "A i = Some bs \<and> i < 2 ^ k \<and> length ss = k"
proof -
  have fold: "i < 2 ^ length ss" "climb sha i (sha (hash_preimage tag bs)) (rev (rev ss)) = mt_nodes m ! 1"
    using assms(4) by (auto simp: fold_subtree_def drop_bit_eq_div div_eq_0_iff hash_domain_preimage split: if_splits)
  have "\<exists>j < 2 ^ k. 2 ^ k + j = 1 * 2 ^ length (rev ss) + i mod 2 ^ length (rev ss) \<and>
      map_option (hash_preimage tag) (A j) = Some (hash_preimage tag bs)"
  proof (rule forge_sound [OF assms(1) content_leaves_of [OF assms(1,2)] tag _ _ _ fold(2) assms(5)])
    show "map_option (hash_preimage tag) (A j) \<noteq> Some (node_preimage x y)" for j x y
      using tag by auto
    show "1 < 2 * (2 :: nat) ^ k"
      using one_le_power [of "2 :: nat" k] by linarith
  qed simp
  then obtain j where j: "j < 2 ^ k" "2 ^ k + j = 2 ^ length ss + i" "A j = Some bs"
    using fold(1) by (auto simp: hash_preimage_inj)
  have "(2 :: nat) ^ length ss < 2 ^ Suc k" "(2 :: nat) ^ k < 2 ^ Suc (length ss)"
    using j(1,2) fold(1) unfolding power_Suc by linarith+
  then have "length ss < Suc k" "k < Suc (length ss)"
    by (auto dest!: power_less_imp_less_exp [rotated] simp del: power_Suc)
  then have "length ss = k" by simp
  with j show ?thesis by simp
qed

lemma verify_account_sound:
  assumes "st_ok sha k l A M t" and "st_root sha t = Some (root, t')" and "verify_account sha root i bs p"
    and "\<forall>x \<in> set (account_forgery sha t A i bs p). \<not> clash sha x"
  shows "A i = Some bs \<and> i < 2 ^ k \<and> length p = k + 1"
proof -
  let ?c = "climb sha i (hash_account_leaf sha bs) (butlast p)"
  have p: "p \<noteq> []" "fold_subtree sha i (hash_account_leaf sha bs) (butlast p) = Some ?c"
    "hash_node sha ?c (last p) = root"
    using assms(3) by (auto simp: verify_account_def fold_subtree_def split: if_splits option.splits)
  have "root = hash_node sha (mt_nodes (st_accounts t) ! 1) (mt_nodes (st_markets t) ! 1)"
    using st_ok_root [OF assms(1)] mt_ok_root [of sha k "st_accounts t"] mt_ok_root [of sha l "st_markets t"] assms(1,2)
    by (auto simp: st_ok_def mt_root_def list_at_def split: if_splits)
  moreover have "\<not> clash sha (node_preimage ?c (last p),
      Some (node_preimage (mt_nodes (st_accounts t) ! 1) (mt_nodes (st_markets t) ! 1)))"
    using assms(4) by (simp add: account_forgery_def del: clash.simps)
  ultimately have "?c = mt_nodes (st_accounts t) ! 1"
    using p(3) by (simp add: hash_node_preimage node_preimage_inj)
  with p(2) have "fold_subtree sha i (hash_domain sha DOMAIN_ACCOUNT bs) (butlast p) = Some (mt_nodes (st_accounts t) ! 1)"
    by (simp add: hash_account_leaf_def)
  then have "A i = Some bs \<and> i < 2 ^ k \<and> length (butlast p) = k"
    using assms(1,4) leaf_not_node(1)
    by (intro subtree_sound [where m = "st_accounts t"]) (auto simp: st_ok_def account_forgery_def)
  then show ?thesis using p(1) by (cases p rule: rev_cases) auto
qed

lemma verify_market_sound:
  assumes "st_ok sha k l A M t" and "st_root sha t = Some (root, t')" and "verify_market sha root i bs p"
    and "\<forall>x \<in> set (market_forgery sha t M i bs p). \<not> clash sha x"
  shows "M i = Some bs \<and> i < 2 ^ l \<and> length p = l + 1"
proof -
  let ?c = "climb sha i (hash_market_leaf sha bs) (butlast p)"
  have p: "p \<noteq> []" "fold_subtree sha i (hash_market_leaf sha bs) (butlast p) = Some ?c"
    "hash_node sha (last p) ?c = root"
    using assms(3) by (auto simp: verify_market_def fold_subtree_def split: if_splits option.splits)
  have "root = hash_node sha (mt_nodes (st_accounts t) ! 1) (mt_nodes (st_markets t) ! 1)"
    using st_ok_root [OF assms(1)] mt_ok_root [of sha k "st_accounts t"] mt_ok_root [of sha l "st_markets t"] assms(1,2)
    by (auto simp: st_ok_def mt_root_def list_at_def split: if_splits)
  moreover have "\<not> clash sha (node_preimage (last p) ?c,
      Some (node_preimage (mt_nodes (st_accounts t) ! 1) (mt_nodes (st_markets t) ! 1)))"
    using assms(4) by (simp add: market_forgery_def del: clash.simps)
  ultimately have "?c = mt_nodes (st_markets t) ! 1"
    using p(3) by (simp add: hash_node_preimage node_preimage_inj)
  with p(2) have "fold_subtree sha i (hash_domain sha DOMAIN_MARKET bs) (butlast p) = Some (mt_nodes (st_markets t) ! 1)"
    by (simp add: hash_market_leaf_def)
  then have "M i = Some bs \<and> i < 2 ^ l \<and> length (butlast p) = l"
    using assms(1,4) leaf_not_node(2)
    by (intro subtree_sound [where m = "st_markets t"]) (auto simp: st_ok_def market_forgery_def)
  then show ?thesis using p(1) by (cases p rule: rev_cases) auto
qed

section \<open>Properties of the state commitment\<close>

definition example_sha :: sha256 where
  "example_sha bs = word_of_nat (le_nat (rev bs))"

definition example_commands :: "tree_command list" where
  "example_commands = [SetAccount 3 [7], ReadRoot, SetMarket 1 [8, 9], SetMarket 5 [1]]"

lemma example_capacity: "tree_capacity 4 = 4"
  by (simp add: tree_capacity_def next_power_of_two_def pow2_from.simps)

lemma example_account: "accounts_of 4 example_commands 3 = Some [7]"
  by (simp add: accounts_of_def example_commands_def example_capacity)

lemma example_tree:
  obtains t0 t root t' p where "st_new example_sha 4 2 = Some t0"
    and "tree_run example_sha t0 example_commands = Some t"
    and "st_root example_sha t = Some (root, t')" and "verify_account example_sha root 3 [7] p"
proof -
  obtain k l t0 t where t: "st_new example_sha 4 2 = Some t0" "tree_run example_sha t0 example_commands = Some t"
    "tree_capacity 4 = 2 ^ k" "st_ok example_sha k l (accounts_of 4 example_commands) (markets_of 2 example_commands) t"
    using tree_reached [of 4 2 example_sha example_commands] by auto
  moreover obtain root t' where root: "st_root example_sha t = Some (root, t')"
    using st_ok_root [OF t(4)] by blast
  moreover have "k \<le> 56" "3 < (2 :: nat) ^ k"
    using capacity_height [OF _ t(3)] t(3) example_capacity by simp_all
  ultimately show thesis
    using account_proof_verifies [OF t(4) _ _ example_account root] that by blast
qed

text \<open>C37 (equivalence). On a new state tree of any capacities, every sequence of stores, deletions and root
  reads runs without a panic, and the shard root it then answers, whether cached or combined from the
  incrementally updated sub-trees, is the root of a from-scratch rebuild over the contents: the last
  bytes stored under each id in range. The tree passes its own transition check.
\<close>

theorem shard_root_rebuilt:
  assumes "acap \<le> 2 ^ 56" and "mcap \<le> 2 ^ 56"
  shows "\<exists>t0 t root t'. st_new sha acap mcap = Some t0 \<and> tree_run sha t0 cs = Some t \<and>
    st_root sha t = Some (root, t') \<and>
    rebuilt_root sha acap mcap (accounts_of acap cs) (markets_of mcap cs) = Some root \<and>
    st_validate sha t = Some (Ok ()) \<and>
    st_validate sha t' = Some (Ok ())"
proof -
  obtain k l t0 t where t: "st_new sha acap mcap = Some t0" "tree_run sha t0 cs = Some t"
    "tree_capacity acap = 2 ^ k" "tree_capacity mcap = 2 ^ l"
    "st_ok sha k l (accounts_of acap cs) (markets_of mcap cs) t"
    using tree_reached [OF assms] by blast
  then have "k \<le> 56" "l \<le> 56" using assms capacity_height by blast+
  with t st_ok_root [OF t(5)] st_ok_rebuilt [OF t(5,3,4)] st_ok_validates show ?thesis
    by fastforce
qed

theorem shard_root_rebuilt_witness:
  "\<exists>t0 t root t'. st_new example_sha 4 2 = Some t0 \<and> tree_run example_sha t0 example_commands = Some t \<and>
    st_root example_sha t = Some (root, t') \<and>
    rebuilt_root example_sha 4 2 (accounts_of 4 example_commands) (markets_of 2 example_commands) = Some root \<and>
    st_validate example_sha t = Some (Ok ()) \<and>
    st_validate example_sha t' = Some (Ok ())"
  by (rule shard_root_rebuilt) simp_all

text \<open>C39 (functional). After any sequence of operations on a new tree, the tree proves every value it holds:
  for a stored account (market) the proof is produced, has one sibling per level and the other sub-tree's
  root, and verifies against the shard root; an id beyond the capacity is refused.
\<close>

theorem stored_values_verify:
  assumes "acap \<le> 2 ^ 56" and "mcap \<le> 2 ^ 56" and "st_new sha acap mcap = Some t0"
    and "tree_run sha t0 cs = Some t" and "st_root sha t = Some (root, t')"
  shows "(\<forall>i bs. accounts_of acap cs i = Some bs \<longrightarrow>
            (\<exists>p. account_proof t i = Some (Ok p) \<and> 2 ^ length p = 2 * tree_capacity acap \<and>
               verify_account sha root i bs p)) \<and>
    (\<forall>i bs. markets_of mcap cs i = Some bs \<longrightarrow>
            (\<exists>p. market_proof t i = Some (Ok p) \<and> 2 ^ length p = 2 * tree_capacity mcap \<and>
               verify_market sha root i bs p)) \<and>
    (\<forall>i. i \<ge> tree_capacity acap \<longrightarrow> account_proof t i = Some (Err IdOutOfRange)) \<and>
    (\<forall>i. i \<ge> tree_capacity mcap \<longrightarrow> market_proof t i = Some (Err IdOutOfRange))"
proof -
  obtain k l where t: "tree_capacity acap = 2 ^ k" "tree_capacity mcap = 2 ^ l"
    "st_ok sha k l (accounts_of acap cs) (markets_of mcap cs) t"
    using tree_reached [OF assms(1,2), of sha cs] assms(3,4) by auto
  have kl: "k \<le> 56" "l \<le> 56" using assms(1,2) t(1,2) capacity_height by blast+
  have in_a: "i < 2 ^ k" if "accounts_of acap cs i = Some bs" for i bs
    using that accounts_in_range [of acap cs i] t(1) by simp
  have in_m: "i < 2 ^ l" if "markets_of mcap cs i = Some bs" for i bs
    using that markets_in_range [of mcap cs i] t(2) by simp
  have "\<exists>p. account_proof t i = Some (Ok p) \<and> 2 ^ length p = 2 * tree_capacity acap \<and> verify_account sha root i bs p"
    if "accounts_of acap cs i = Some bs" for i bs
    using account_proof_verifies [OF t(3) kl(1) in_a [OF that] that assms(5)] t(1) by fastforce
  moreover have "\<exists>p. market_proof t i = Some (Ok p) \<and> 2 ^ length p = 2 * tree_capacity mcap \<and> verify_market sha root i bs p"
    if "markets_of mcap cs i = Some bs" for i bs
    using market_proof_verifies [OF t(3) kl(2) in_m [OF that] that assms(5)] t(2) by fastforce
  moreover have "account_proof t i = Some (Err IdOutOfRange)" if "i \<ge> tree_capacity acap" for i
    using that t(1,3) by (auto simp: account_proof_def st_ok_def merkle_proof_refused)
  moreover have "market_proof t i = Some (Err IdOutOfRange)" if "i \<ge> tree_capacity mcap" for i
    using that t(2,3) by (auto simp: market_proof_def st_ok_def merkle_proof_refused)
  ultimately show ?thesis by blast
qed

theorem stored_values_verify_witness:
  "\<exists>t0 t root t' p. st_new example_sha 4 2 = Some t0 \<and> tree_run example_sha t0 example_commands = Some t \<and>
     st_root example_sha t = Some (root, t') \<and>
     account_proof t 3 = Some (Ok p) \<and> length p = 3 \<and> verify_account example_sha root 3 [7] p"
proof -
  obtain t0 t root t' p' where t: "st_new example_sha 4 2 = Some t0"
    "tree_run example_sha t0 example_commands = Some t" "st_root example_sha t = Some (root, t')"
    by (rule example_tree)
  obtain p where p: "account_proof t 3 = Some (Ok p)" "(2 :: nat) ^ length p = 2 * tree_capacity 4"
    "verify_account example_sha root 3 [7] p"
    using stored_values_verify [OF _ _ t, THEN conjunct1, rule_format, OF _ _ example_account] by auto
  have "(2 :: nat) ^ length p = 2 ^ 3" using p(2) example_capacity by simp
  then have "length p = 3" by (rule power_inject_exp [THEN iffD1, rotated]) simp
  with p t show ?thesis by blast
qed

text \<open>C38 (safety). After any sequence of operations on a new tree, a path of any length that verifies an account
  (market) value under an id against the shard root is a path for the value stored there, with one
  sibling per level, or the bytes hashed along it and by the tree exhibit a break of the hash function: two
  different byte strings with one digest, or a preimage of the zero digest.
\<close>

theorem verified_values_stored:
  assumes "acap \<le> 2 ^ 56" and "mcap \<le> 2 ^ 56" and "st_new sha acap mcap = Some t0"
    and "tree_run sha t0 cs = Some t" and "st_root sha t = Some (root, t')"
  shows "(verify_account sha root i bs p \<longrightarrow>
      (accounts_of acap cs i = Some bs \<and> 2 ^ length p = 2 * tree_capacity acap) \<or>
      (\<exists>x \<in> set (account_forgery sha t (accounts_of acap cs) i bs p). clash sha x)) \<and>
    (verify_market sha root i bs p \<longrightarrow>
      (markets_of mcap cs i = Some bs \<and> 2 ^ length p = 2 * tree_capacity mcap) \<or>
      (\<exists>x \<in> set (market_forgery sha t (markets_of mcap cs) i bs p). clash sha x))"
proof -
  obtain k l where t: "tree_capacity acap = 2 ^ k" "tree_capacity mcap = 2 ^ l"
    "st_ok sha k l (accounts_of acap cs) (markets_of mcap cs) t"
    using tree_reached [OF assms(1,2), of sha cs] assms(3,4) by auto
  have "accounts_of acap cs i = Some bs \<and> 2 ^ length p = 2 * tree_capacity acap"
    if "verify_account sha root i bs p" "\<forall>x \<in> set (account_forgery sha t (accounts_of acap cs) i bs p). \<not> clash sha x"
    using verify_account_sound [OF t(3) assms(5) that] t(1) by simp
  moreover have "markets_of mcap cs i = Some bs \<and> 2 ^ length p = 2 * tree_capacity mcap"
    if "verify_market sha root i bs p" "\<forall>x \<in> set (market_forgery sha t (markets_of mcap cs) i bs p). \<not> clash sha x"
    using verify_market_sound [OF t(3) assms(5) that] t(2) by simp
  ultimately show ?thesis by blast
qed

theorem verified_values_stored_witness:
  "\<exists>t0 t root t' p. st_new example_sha 4 2 = Some t0 \<and> tree_run example_sha t0 example_commands = Some t \<and>
     st_root example_sha t = Some (root, t') \<and> verify_account example_sha root 3 [7] p \<and>
     ((accounts_of 4 example_commands 3 = Some [7] \<and> 2 ^ length p = 2 * tree_capacity 4) \<or>
      (\<exists>x \<in> set (account_forgery example_sha t (accounts_of 4 example_commands) 3 [7] p). clash example_sha x))"
proof -
  obtain t0 t root t' p where t: "st_new example_sha 4 2 = Some t0"
    "tree_run example_sha t0 example_commands = Some t" "st_root example_sha t = Some (root, t')"
    "verify_account example_sha root 3 [7] p"
    by (rule example_tree)
  then have "(accounts_of 4 example_commands 3 = Some [7] \<and> 2 ^ length p = 2 * tree_capacity 4) \<or>
      (\<exists>x \<in> set (account_forgery example_sha t (accounts_of 4 example_commands) 3 [7] p). clash example_sha x)"
    using verified_values_stored [OF _ _ t(1,2,3), THEN conjunct1, rule_format, OF _ _ t(4)] by simp
  with t show ?thesis by blast
qed

text \<open>
  For shard roots with distinct ids the checkpoint root depends on the roots only, not on
  the order in which the shards are presented, and it is produced without a panic.
\<close>

theorem checkpoint_order_invariant:
  assumes "distinct (map fst xs)" and "mset ys = mset xs" and "length xs \<le> 2 ^ 16"
  shows "checkpoint_root sha ys = checkpoint_root sha xs \<and> checkpoint_root sha xs \<noteq> None"
proof -
  have "sort_key fst ys = sort_key fst xs"
  proof (rule sort_key_inj_key_eq)
    show "mset ys = mset (sort_key fst xs)" using assms(2) by simp
    show "inj_on fst (set ys)"
      using assms(1) by (simp add: mset_eq_setD [OF assms(2)] distinct_map)
  qed simp
  moreover have "\<exists>h. merkle_root sha ls = Some h" if "length ls \<le> 2 ^ 16" for ls
    using from_leaves_ok [of ls sha] that by (fastforce simp: merkle_root_def dest: mt_ok_root)
  ultimately show ?thesis
    using assms(3) by (auto simp: checkpoint_root_def)
qed

theorem checkpoint_order_invariant_witness:
  "checkpoint_root example_sha [(4, 1), (2, 5)] = checkpoint_root example_sha [(2, 5), (4, 1)]"
  using checkpoint_order_invariant [of "[(2, 5), (4, 1)]" "[(4, 1), (2, 5)]" example_sha] by simp

text \<open>
  With a repeated shard id the stable sort keeps the order of presentation: the two orders hash different
  bytes unless the roots agree up to a collision of their leaves.
\<close>

lemma checkpoint_repeated_shard:
  assumes "shard_leaf sha (i, a) \<noteq> shard_leaf sha (i, b)"
  shows "\<exists>x y. x \<noteq> y \<and> checkpoint_root sha [(i, a), (i, b)] = Some (sha x) \<and>
           checkpoint_root sha [(i, b), (i, a)] = Some (sha y)"
proof -
  let ?a = "shard_leaf sha (i, a)" and ?b = "shard_leaf sha (i, b)"
  have two: "merkle_root sha [x, y] = Some (sha (node_preimage x y))" for x y
    using merkle_root_full [of "[x, y]" 1 sha] by (simp add: hash_node_preimage)
  then have "checkpoint_root sha [(i, a), (i, b)] = Some (sha (node_preimage ?a ?b))"
    "checkpoint_root sha [(i, b), (i, a)] = Some (sha (node_preimage ?b ?a))"
    by (simp_all add: checkpoint_root_def)
  moreover have "node_preimage ?a ?b \<noteq> node_preimage ?b ?a"
    using assms by (auto simp: node_preimage_inj)
  ultimately show ?thesis by blast
qed

end
