(* ===== verification/LeafCodec.thy ===== *)
theory LeafCodec
  imports StateTree
begin

text \<open>
  The canonical leaf encoding of \<open>crates/state-tree/src/leaf.rs\<close>: the versioned writer and the total
  reader that inverts it. A reader method returns its result and the reader it leaves, since a failing
  byte field has already consumed its length prefix.
\<close>

section \<open>Kinds of leaves\<close>

datatype leaf_kind = Account | Market

fun leaf_domain :: "leaf_kind \<Rightarrow> bytes" where
  "leaf_domain Account = DOMAIN_ACCOUNT"
| "leaf_domain Market = DOMAIN_MARKET"

definition hash_leaf_of :: "sha256 \<Rightarrow> leaf_kind \<Rightarrow> bytes \<Rightarrow> hash" where
  "hash_leaf_of sha kind data = hash_domain sha (leaf_domain kind) data"

section \<open>Writer\<close>

definition LEAF_ENCODING_VERSION :: nat where
  "LEAF_ENCODING_VERSION = 1"

definition le_i128 :: "int \<Rightarrow> bytes" where
  "le_i128 x = le_bytes 16 (nat (x mod 2 ^ 128))"

definition i128_of_bytes :: "bytes \<Rightarrow> int" where
  "i128_of_bytes bs = (let x = int (le_nat bs) in if x < 2 ^ 127 then x else x - 2 ^ 128)"

type_synonym leaf_writer = bytes

definition lw_new :: leaf_writer where
  "lw_new = le_bytes 2 LEAF_ENCODING_VERSION"

definition lw_from_buffer :: "bytes \<Rightarrow> leaf_writer" where
  "lw_from_buffer buf = [] @ le_bytes 2 LEAF_ENCODING_VERSION"

definition lw_u32 :: "leaf_writer \<Rightarrow> nat \<Rightarrow> leaf_writer" where
  "lw_u32 buf v = buf @ le_bytes 4 v"

definition lw_i64 :: "leaf_writer \<Rightarrow> int \<Rightarrow> leaf_writer" where
  "lw_i64 buf v = buf @ le_i64 v"

definition lw_i128 :: "leaf_writer \<Rightarrow> int \<Rightarrow> leaf_writer" where
  "lw_i128 buf v = buf @ le_i128 v"

definition lw_bytes :: "leaf_writer \<Rightarrow> bytes \<Rightarrow> leaf_writer" where
  "lw_bytes buf v = buf @ le_bytes 8 (min (length v) u64_max) @ v"

section \<open>Reader\<close>

datatype leaf_error = VersionMismatch | UnexpectedEof | LengthOutOfRange | TrailingBytes

record leaf_reader =
  lr_buf :: bytes
  lr_pos :: nat

definition lr_take :: "nat \<Rightarrow> leaf_reader \<Rightarrow> (bytes, leaf_error) result \<times> leaf_reader" where
  "lr_take n r =
     (if lr_pos r + n > u64_max then (Err LengthOutOfRange, r)
      else if lr_pos r + n > length (lr_buf r) then (Err UnexpectedEof, r)
      else (Ok (take n (drop (lr_pos r) (lr_buf r))), r\<lparr>lr_pos := lr_pos r + n\<rparr>))"

definition lr_new :: "bytes \<Rightarrow> (leaf_reader, leaf_error) result" where
  "lr_new buf =
     (case lr_take 2 \<lparr>lr_buf = buf, lr_pos = 0\<rparr> of
        (Inl e, r) \<Rightarrow> Err e
      | (Inr version, r) \<Rightarrow> if le_nat version \<noteq> LEAF_ENCODING_VERSION then Err VersionMismatch else Ok r)"

definition lr_u32 :: "leaf_reader \<Rightarrow> (nat, leaf_error) result \<times> leaf_reader" where
  "lr_u32 r = (case lr_take 4 r of (Inl e, r) \<Rightarrow> (Err e, r) | (Inr bs, r) \<Rightarrow> (Ok (le_nat bs), r))"

definition lr_i64 :: "leaf_reader \<Rightarrow> (int, leaf_error) result \<times> leaf_reader" where
  "lr_i64 r = (case lr_take 8 r of (Inl e, r) \<Rightarrow> (Err e, r) | (Inr bs, r) \<Rightarrow> (Ok (i64_of_bytes bs), r))"

definition lr_i128 :: "leaf_reader \<Rightarrow> (int, leaf_error) result \<times> leaf_reader" where
  "lr_i128 r = (case lr_take 16 r of (Inl e, r) \<Rightarrow> (Err e, r) | (Inr bs, r) \<Rightarrow> (Ok (i128_of_bytes bs), r))"

definition lr_bytes :: "leaf_reader \<Rightarrow> (bytes, leaf_error) result \<times> leaf_reader" where
  "lr_bytes r = (case lr_take 8 r of (Inl e, r) \<Rightarrow> (Err e, r) | (Inr bs, r) \<Rightarrow> lr_take (le_nat bs) r)"

definition lr_remaining :: "leaf_reader \<Rightarrow> nat" where
  "lr_remaining r = length (lr_buf r) - lr_pos r"

definition lr_finish :: "leaf_reader \<Rightarrow> (unit, leaf_error) result" where
  "lr_finish r = (if lr_remaining r = 0 then Ok () else Err TrailingBytes)"

section \<open>Leaves as lists of fields\<close>

text \<open>A payload is a sequence of fields; a client reads it with the sequence of their types.\<close>

datatype leaf_field = FU32 nat | FI64 int | FI128 int | FBytes bytes

datatype field_type = TU32 | TI64 | TI128 | TBytes

fun field_type_of :: "leaf_field \<Rightarrow> field_type" where
  "field_type_of (FU32 _) = TU32"
| "field_type_of (FI64 _) = TI64"
| "field_type_of (FI128 _) = TI128"
| "field_type_of (FBytes _) = TBytes"

fun field_ok :: "leaf_field \<Rightarrow> bool" where
  "field_ok (FU32 v) \<longleftrightarrow> v \<le> u32_max"
| "field_ok (FI64 v) \<longleftrightarrow> fits I64 v"
| "field_ok (FI128 v) \<longleftrightarrow> fits I128 v"
| "field_ok (FBytes v) \<longleftrightarrow> True"

fun write_field :: "leaf_field \<Rightarrow> leaf_writer \<Rightarrow> leaf_writer" where
  "write_field (FU32 v) w = lw_u32 w v"
| "write_field (FI64 v) w = lw_i64 w v"
| "write_field (FI128 v) w = lw_i128 w v"
| "write_field (FBytes v) w = lw_bytes w v"

fun read_field :: "field_type \<Rightarrow> leaf_reader \<Rightarrow> (leaf_field, leaf_error) result \<times> leaf_reader" where
  "read_field TU32 r = (case lr_u32 r of (v, r') \<Rightarrow> (map_sum (\<lambda>e. e) FU32 v, r'))"
| "read_field TI64 r = (case lr_i64 r of (v, r') \<Rightarrow> (map_sum (\<lambda>e. e) FI64 v, r'))"
| "read_field TI128 r = (case lr_i128 r of (v, r') \<Rightarrow> (map_sum (\<lambda>e. e) FI128 v, r'))"
| "read_field TBytes r = (case lr_bytes r of (v, r') \<Rightarrow> (map_sum (\<lambda>e. e) FBytes v, r'))"

fun read_leaf_fields :: "field_type list \<Rightarrow> leaf_reader \<Rightarrow> (leaf_field list, leaf_error) result" where
  "read_leaf_fields [] r = (case lr_finish r of Inl e \<Rightarrow> Err e | Inr _ \<Rightarrow> Ok [])"
| "read_leaf_fields (ty # tys) r =
     (case read_field ty r of
        (Inl e, _) \<Rightarrow> Err e
      | (Inr f, r') \<Rightarrow> (case read_leaf_fields tys r' of Inl e \<Rightarrow> Err e | Inr fs \<Rightarrow> Ok (f # fs)))"

definition encode_leaf :: "leaf_field list \<Rightarrow> bytes" where
  "encode_leaf fs = fold write_field fs lw_new"

definition decode_leaf :: "field_type list \<Rightarrow> bytes \<Rightarrow> (leaf_field list, leaf_error) result" where
  "decode_leaf tys bs = (case lr_new bs of Inl e \<Rightarrow> Err e | Inr r \<Rightarrow> read_leaf_fields tys r)"

section \<open>Round trip\<close>

lemma i128_round_trip:
  assumes "fits I128 x"
  shows "i128_of_bytes (le_i128 x) = x"
proof -
  have "nat (x mod 2 ^ 128) < 256 ^ 16" by (simp add: nat_less_iff)
  then have "int (le_nat (le_i128 x)) = x mod 2 ^ 128"
    by (simp add: le_i128_def le_nat_le_bytes_id)
  moreover have "x mod 2 ^ 128 = (if x < 0 then x + 2 ^ 128 else x)"
  proof (cases "x < 0")
    case True
    have "x mod 2 ^ 128 = (x + 2 ^ 128) mod 2 ^ 128" by simp
    also have "\<dots> = x + 2 ^ 128"
      using assms True by (intro mod_pos_pos_trivial) (simp_all add: fits_def)
    finally show ?thesis using True by simp
  qed (use assms in \<open>simp add: fits_def mod_pos_pos_trivial\<close>)
  ultimately show ?thesis
    using assms by (simp add: i128_of_bytes_def Let_def fits_def)
qed

lemma length_le_i128 [simp]: "length (le_i128 x) = 16"
  by (simp add: le_i128_def)

text \<open>The bytes a field appends to a writer.\<close>

definition field_bytes :: "leaf_field \<Rightarrow> bytes" where
  "field_bytes f = write_field f []"

lemma write_field_bytes: "write_field f w = w @ field_bytes f"
  by (cases f) (simp_all add: field_bytes_def lw_u32_def lw_i64_def lw_i128_def lw_bytes_def)

lemma encode_leaf_bytes: "encode_leaf fs = lw_new @ concat (map field_bytes fs)"
proof -
  have "fold write_field fs w = w @ concat (map field_bytes fs)" for w
    by (induction fs arbitrary: w) (simp_all add: write_field_bytes)
  then show ?thesis by (simp add: encode_leaf_def)
qed

definition reader_at :: "bytes \<Rightarrow> bytes \<Rightarrow> leaf_reader" where
  "reader_at pre bs = \<lparr>lr_buf = pre @ bs, lr_pos = length pre\<rparr>"

lemma lr_take_reader:
  assumes "length pre + length bs + length suf \<le> u64_max" and "n = length bs"
  shows "lr_take n (reader_at pre (bs @ suf)) = (Ok bs, reader_at (pre @ bs) suf)"
  using assms by (simp add: lr_take_def reader_at_def)

lemma read_field_reader:
  assumes "field_ok f" and "length pre + length (field_bytes f) + length suf \<le> u64_max"
  shows "read_field (field_type_of f) (reader_at pre (field_bytes f @ suf)) =
    (Ok f, reader_at (pre @ field_bytes f) suf)"
proof (cases f)
  case (FU32 v)
  then have "v < 256 ^ 4" using assms(1) by (simp add: u32_max_def)
  with FU32 assms show ?thesis
    by (simp add: field_bytes_def lw_u32_def lr_u32_def lr_take_reader le_nat_le_bytes_id)
next
  case (FI64 v)
  with assms show ?thesis
    by (simp add: field_bytes_def lw_i64_def lr_i64_def lr_take_reader i64_round_trip)
next
  case (FI128 v)
  with assms show ?thesis
    by (simp add: field_bytes_def lw_i128_def lr_i128_def lr_take_reader i128_round_trip)
next
  case (FBytes v)
  then have bound: "length pre + 8 + length v + length suf \<le> u64_max"
    using assms(2) by (simp add: field_bytes_def lw_bytes_def)
  then have "length v < 256 ^ 8" by (simp add: u64_max_def)
  with FBytes bound show ?thesis
    by (simp add: field_bytes_def lw_bytes_def lr_bytes_def lr_take_reader le_nat_le_bytes_id)
qed

lemma read_leaf_fields_reader:
  assumes "\<forall>f \<in> set fs. field_ok f" and "length pre + length (concat (map field_bytes fs)) \<le> u64_max"
  shows "read_leaf_fields (map field_type_of fs) (reader_at pre (concat (map field_bytes fs))) = Ok fs"
  using assms
proof (induction fs arbitrary: pre)
  case Nil
  then show ?case by (simp add: reader_at_def lr_finish_def lr_remaining_def)
next
  case (Cons f fs)
  let ?suf = "concat (map field_bytes fs)"
  have "read_field (field_type_of f) (reader_at pre (field_bytes f @ ?suf)) =
      (Ok f, reader_at (pre @ field_bytes f) ?suf)"
    using Cons.prems by (intro read_field_reader) simp_all
  moreover have "read_leaf_fields (map field_type_of fs) (reader_at (pre @ field_bytes f) ?suf) = Ok fs"
    using Cons.prems by (intro Cons.IH) simp_all
  ultimately show ?case by simp
qed

lemma lr_new_reader:
  assumes "2 + length bs \<le> u64_max"
  shows "lr_new (lw_new @ bs) = Ok (reader_at lw_new bs)"
proof -
  have "lr_take 2 (reader_at [] (lw_new @ bs)) = (Ok lw_new, reader_at ([] @ lw_new) bs)"
    using assms by (intro lr_take_reader) (simp_all add: lw_new_def)
  moreover have "le_nat lw_new = LEAF_ENCODING_VERSION"
    by (simp add: lw_new_def LEAF_ENCODING_VERSION_def le_nat_le_bytes_id del: le_bytes.simps)
  ultimately show ?thesis by (simp add: lr_new_def reader_at_def)
qed

lemma decode_encoded:
  assumes "\<forall>f \<in> set fs. field_ok f" and "length (encode_leaf fs) \<le> u64_max"
  shows "decode_leaf (map field_type_of fs) (encode_leaf fs) = Ok fs"
proof -
  have "length lw_new = 2" by (simp add: lw_new_def del: le_bytes.simps)
  then have "2 + length (concat (map field_bytes fs)) \<le> u64_max"
    "length lw_new + length (concat (map field_bytes fs)) \<le> u64_max"
    using assms(2) unfolding encode_leaf_bytes length_append by simp_all
  then show ?thesis
    using lr_new_reader read_leaf_fields_reader [OF assms(1)]
    unfolding decode_leaf_def encode_leaf_bytes by simp
qed

lemma encode_leaf_determines:
  assumes "\<forall>f \<in> set fs. field_ok f" and "length (encode_leaf fs) \<le> u64_max" and "\<forall>g \<in> set gs. field_ok g"
    and "map field_type_of gs = map field_type_of fs" and "encode_leaf gs = encode_leaf fs"
  shows "gs = fs"
proof -
  have "decode_leaf (map field_type_of gs) (encode_leaf gs) = Ok gs"
    using assms(2,3) by (intro decode_encoded) (simp_all only: assms(5))
  then have "Ok gs = (Ok fs :: (leaf_field list, leaf_error) result)"
    unfolding assms(4,5) decode_encoded [OF assms(1,2)] by (rule sym)
  then show ?thesis by simp
qed

lemma decode_leaf_version:
  assumes "v \<noteq> LEAF_ENCODING_VERSION" and "v < 2 ^ 16"
  shows "decode_leaf tys (le_bytes 2 v @ bs) = Err VersionMismatch"
proof -
  have "lr_take 2 \<lparr>lr_buf = le_bytes 2 v @ bs, lr_pos = 0\<rparr> =
      (Ok (le_bytes 2 v), \<lparr>lr_buf = le_bytes 2 v @ bs, lr_pos = 2\<rparr>)"
    by (simp add: lr_take_def u64_max_def)
  moreover have "le_nat (le_bytes 2 v) = v"
    using assms(2) by (intro le_nat_le_bytes_id) simp
  ultimately show ?thesis
    using assms(1) by (simp add: decode_leaf_def lr_new_def)
qed

text \<open>C40 (roundtrip). Reading a written leaf payload with the types of its fields gives the fields back and
  consumes the buffer, for payloads that fit the address space; so payloads of one layout have different
  bytes when a field differs. A buffer that does not start with the version tag is rejected.
\<close>

theorem leaf_round_trip:
  assumes "\<forall>f \<in> set fs. field_ok f" and "length (encode_leaf fs) \<le> u64_max"
  shows "decode_leaf (map field_type_of fs) (encode_leaf fs) = Ok fs \<and>
    (\<forall>gs. (\<forall>g \<in> set gs. field_ok g) \<and> map field_type_of gs = map field_type_of fs \<and> encode_leaf gs = encode_leaf fs
       \<longrightarrow> gs = fs) \<and>
    (\<forall>tys v bs. v \<noteq> LEAF_ENCODING_VERSION \<and> v < 2 ^ 16 \<longrightarrow>
       decode_leaf tys (le_bytes 2 v @ bs) = Err VersionMismatch)"
  using assms encode_leaf_determines decode_leaf_version by (intro conjI allI impI decode_encoded) auto

theorem leaf_round_trip_witness:
  "decode_leaf [TU32, TI64, TI128, TBytes] (encode_leaf [FU32 7, FI64 (- 1), FI128 1000000, FBytes [1, 2]]) =
     Ok [FU32 7, FI64 (- 1), FI128 1000000, FBytes [1, 2]]"
  using leaf_round_trip [of "[FU32 7, FI64 (- 1), FI128 1000000, FBytes [1, 2]]"]
  by (simp add: fits_def u32_max_def u64_max_def encode_leaf_bytes field_bytes_def lw_new_def lw_u32_def
      lw_i64_def lw_i128_def lw_bytes_def del: le_bytes.simps)

end
