(* ===== verification/Payout.thy ===== *)
theory Payout
  imports Fixed
begin

text \<open>
  Settlement arithmetic of outcome markets: the payout vectors of \<open>crates/types/src/domain.rs\<close>, the
  vector constructors and the complete-set pool of \<open>crates/markets/src/payout.rs\<close>, and the scenario
  risk of \<open>crates/risk/src/scenario.rs\<close>. The last section shows that pools keep as many claims as
  collateral and that settling them conserves it, what the constructors pay, and what the required
  collateral covers. Amounts are \<open>i128\<close>; exhausting memory is not modelled.
\<close>

section \<open>Payout vectors\<close>

definition MAX_OUTCOMES :: nat where
  "MAX_OUTCOMES = 256"

datatype payout_vector_error =
    PvEmpty
  | TooManyOutcomes
  | NegativeEntry
  | ZeroSum
  | OverAllocated
  | Underfunded
  | SumOverflow

type_synonym payout_vector = "amount list"

definition pv_new :: "amount list \<Rightarrow> (payout_vector, payout_vector_error) result" where
  "pv_new values =
     (if values = [] then Err PvEmpty
      else if length values > MAX_OUTCOMES then Err TooManyOutcomes
      else Ok values)"

fun sum_entries :: "int \<Rightarrow> amount list \<Rightarrow> (int, payout_vector_error) result" where
  "sum_entries tot [] = Ok tot"
| "sum_entries tot (v # vs) =
     (if v < 0 then Err NegativeEntry
      else and_then (ok_or (prim_checked I128 (tot + v)) SumOverflow) (\<lambda>t. sum_entries t vs))"

definition validate_conserving :: "payout_vector \<Rightarrow> (unit, payout_vector_error) result" where
  "validate_conserving pv =
     and_then (sum_entries 0 pv) (\<lambda>tot.
       if tot = AMOUNT_SCALE then Ok ()
       else if tot = 0 then Err ZeroSum
       else if tot > AMOUNT_SCALE then Err OverAllocated
       else Err Underfunded)"

definition new_conserving :: "amount list \<Rightarrow> (payout_vector, payout_vector_error) result" where
  "new_conserving values =
     and_then (pv_new values) (\<lambda>pv. and_then (validate_conserving pv) (\<lambda>_. Ok pv))"

section \<open>Vector constructors\<close>

datatype payout_error =
    OutcomeMismatch
  | InsufficientClaims
  | InsufficientCollateral
  | NonPositiveUnits
  | DuplicateWinner
  | NonEnumerable
  | PayoutVec payout_vector_error
  | PayoutArith arith_error

text \<open>Every caller of \<open>mul_div\<close> passes a positive divisor, so the quotient cannot overflow.\<close>

definition mul_div :: "int \<Rightarrow> int \<Rightarrow> int \<Rightarrow> (int, arith_error) result" where
  "mul_div a b c =
     (if c = 0 then Err DivByZero
      else and_then (ok_or (prim_checked I128 (a * b)) ArithOverflow) (\<lambda>product. Ok (product sdiv c)))"

definition settle_value :: "amount \<Rightarrow> amount \<Rightarrow> (amount, payout_error) result" where
  "settle_value claims payout_per_claim = map_err PayoutArith (mul_div claims payout_per_claim AMOUNT_SCALE)"

definition winner_takes_all :: "nat \<Rightarrow> nat \<Rightarrow> (payout_vector, payout_error) result" where
  "winner_takes_all n winner =
     (if winner \<ge> n then Err OutcomeMismatch
      else map_err PayoutVec (new_conserving ((replicate n 0)[winner := AMOUNT_SCALE])))"

fun place_winners :: "nat \<Rightarrow> int \<Rightarrow> nat list \<Rightarrow> amount list \<Rightarrow> int \<Rightarrow> (amount list \<times> int, payout_error) result" where
  "place_winners n per [] v allocated = Ok (v, allocated)"
| "place_winners n per (w # ws) v allocated =
     (if w \<ge> n then Err OutcomeMismatch
      else if v ! w \<noteq> 0 then Err DuplicateWinner
      else place_winners n per ws (v[w := per]) (allocated + per))"

definition dead_heat :: "nat \<Rightarrow> nat list \<Rightarrow> (payout_vector, payout_error) result" where
  "dead_heat n winners =
     (if winners = [] then Err OutcomeMismatch
      else
        let k = int (length winners); per = AMOUNT_SCALE sdiv k in
        and_then (place_winners n per winners (replicate n 0) 0) (\<lambda>(v, allocated).
          let dust = AMOUNT_SCALE - allocated in
          map_err PayoutVec (new_conserving (v[last winners := per + dust]))))"

definition invalid_refund :: "nat \<Rightarrow> (payout_vector, payout_error) result" where
  "invalid_refund n = dead_heat n [0..<n]"

definition scalar_payout :: "amount \<Rightarrow> amount \<Rightarrow> amount \<Rightarrow> (payout_vector, payout_error) result" where
  "scalar_payout lower upper v =
     (if upper \<le> lower then Err OutcomeMismatch
      else
        let clamped = max lower (min v upper) in
        and_then (map_err PayoutArith (ok_or (prim_checked I128 (upper - lower)) ArithOverflow)) (\<lambda>range.
        and_then (map_err PayoutArith (ok_or (prim_checked I128 (clamped - lower)) ArithOverflow)) (\<lambda>numer.
        and_then (map_err PayoutArith (mul_div numer AMOUNT_SCALE range)) (\<lambda>long.
        and_then (map_err PayoutArith (scalar_checked_sub I128 AMOUNT_SCALE long)) (\<lambda>short.
          map_err PayoutVec (new_conserving [long, short]))))))"

definition payout_sum :: "payout_vector \<Rightarrow> (amount, payout_error) result" where
  "payout_sum pv =
     fold (\<lambda>v r. and_then r (\<lambda>tot. map_err PayoutArith (scalar_checked_add I128 tot v))) pv (Ok 0)"

section \<open>The complete-set pool\<close>

record complete_set_pool =
  cs_num_outcomes :: nat
  cs_locked_collateral :: amount
  cs_outstanding :: "amount list"

definition pool_new :: "nat \<Rightarrow> (complete_set_pool, payout_error) result" where
  "pool_new n =
     (if n = 0 \<or> n > MAX_OUTCOMES then Err (PayoutVec PvEmpty)
      else Ok \<lparr>cs_num_outcomes = n, cs_locked_collateral = 0, cs_outstanding = replicate n 0\<rparr>)"

definition invariant_holds :: "complete_set_pool \<Rightarrow> bool" where
  "invariant_holds p = list_all (\<lambda>c. c = cs_locked_collateral p) (cs_outstanding p)"

fun mint_claims :: "amount \<Rightarrow> amount list \<Rightarrow> (amount list, payout_error) result" where
  "mint_claims units [] = Ok []"
| "mint_claims units (c # cs) =
     and_then (map_err PayoutArith (scalar_checked_add I128 c units)) (\<lambda>c'.
     and_then (mint_claims units cs) (\<lambda>cs'. Ok (c' # cs')))"

definition pool_mint :: "complete_set_pool \<Rightarrow> amount \<Rightarrow> (unit, payout_error) result \<times> complete_set_pool" where
  "pool_mint p units =
     (if units \<le> 0 then (Err NonPositiveUnits, p)
      else case map_err PayoutArith (scalar_checked_add I128 (cs_locked_collateral p) units) of
        Inl e \<Rightarrow> (Err e, p)
      | Inr new_locked \<Rightarrow>
          (case mint_claims units (cs_outstanding p) of
             Inl e \<Rightarrow> (Err e, p)
           | Inr claims \<Rightarrow> (Ok (), p\<lparr>cs_locked_collateral := new_locked, cs_outstanding := claims\<rparr>)))"

text \<open>The burning loop works in place: an error would leave the claims before it burnt.\<close>

fun redeem_claims :: "amount \<Rightarrow> amount list \<Rightarrow> (unit, payout_error) result \<times> amount list" where
  "redeem_claims units [] = (Ok (), [])"
| "redeem_claims units (c # cs) =
     (case map_err PayoutArith (scalar_checked_sub I128 c units) of
        Inl e \<Rightarrow> (Err e, c # cs)
      | Inr c' \<Rightarrow> (let (r, cs') = redeem_claims units cs in (r, c' # cs')))"

definition pool_redeem :: "complete_set_pool \<Rightarrow> amount \<Rightarrow> (unit, payout_error) result \<times> complete_set_pool" where
  "pool_redeem p units =
     (if units \<le> 0 then (Err NonPositiveUnits, p)
      else if cs_locked_collateral p < units then (Err InsufficientCollateral, p)
      else if list_ex (\<lambda>c. c < units) (cs_outstanding p) then (Err InsufficientClaims, p)
      else case map_err PayoutArith (scalar_checked_sub I128 (cs_locked_collateral p) units) of
        Inl e \<Rightarrow> (Err e, p)
      | Inr locked \<Rightarrow>
          (let (r, claims) = redeem_claims units (cs_outstanding p)
           in (r, p\<lparr>cs_locked_collateral := locked, cs_outstanding := claims\<rparr>)))"

record settlement =
  sl_per_outcome_credit :: "amount list"
  sl_total_credited :: amount
  sl_dust :: amount

fun settle_claims :: "(amount \<times> amount) list \<Rightarrow> amount \<Rightarrow> (amount list \<times> amount, payout_error) result" where
  "settle_claims [] tot = Ok ([], tot)"
| "settle_claims ((claims, pay) # rest) tot =
     and_then (settle_value claims pay) (\<lambda>credit.
     and_then (map_err PayoutArith (scalar_checked_add I128 tot credit)) (\<lambda>tot'.
     and_then (settle_claims rest tot') (\<lambda>(credits, final). Ok (credit # credits, final))))"

definition pool_settle :: "complete_set_pool \<Rightarrow> payout_vector \<Rightarrow> (settlement, payout_error) result" where
  "pool_settle p payout =
     (if length payout \<noteq> cs_num_outcomes p then Err OutcomeMismatch
      else
        and_then (map_err PayoutVec (validate_conserving payout)) (\<lambda>_.
        and_then (settle_claims (zip (cs_outstanding p) payout) 0) (\<lambda>(credits, tot).
        and_then (map_err PayoutArith (scalar_checked_sub I128 (cs_locked_collateral p) tot)) (\<lambda>dust.
          Ok \<lparr>sl_per_outcome_credit = credits, sl_total_credited = tot, sl_dust = dust\<rparr>))))"

section \<open>Scenario risk\<close>

text \<open>The errors of the risk crate that the scenario functions raise.\<close>

datatype risk_error = RiskArith arith_error | RiskPayout payout_vector_error

definition neg_amount :: "amount \<Rightarrow> (amount, risk_error) result" where
  "neg_amount a = map_err (\<lambda>_. RiskArith ArithOverflow) (scalar_checked_sub I128 0 a)"

fun scenario_values :: "payout_vector \<Rightarrow> quantity \<Rightarrow> (amount list, risk_error) result" where
  "scenario_values [] q = Ok []"
| "scenario_values (p # ps) q =
     and_then (map_err RiskArith (mul_ratio p q)) (\<lambda>v. and_then (scenario_values ps q) (\<lambda>vs. Ok (v # vs)))"

fun scenario_fold ::
    "(amount \<Rightarrow> amount \<Rightarrow> amount) \<Rightarrow> payout_vector \<Rightarrow> quantity \<Rightarrow> amount option \<Rightarrow> (amount option, risk_error) result" where
  "scenario_fold pick [] q best = Ok best"
| "scenario_fold pick (p # ps) q best =
     and_then (map_err RiskArith (mul_ratio p q)) (\<lambda>v.
       scenario_fold pick ps q (Some (case best of None \<Rightarrow> v | Some b \<Rightarrow> pick b v)))"

definition min_amount :: "amount \<Rightarrow> amount \<Rightarrow> amount" where
  "min_amount a b = (if a \<le> b then a else b)"

definition max_amount :: "amount \<Rightarrow> amount \<Rightarrow> amount" where
  "max_amount a b = (if a \<ge> b then a else b)"

definition worst_case_scenario_pnl :: "payout_vector \<Rightarrow> quantity \<Rightarrow> (amount, risk_error) result" where
  "worst_case_scenario_pnl pv q =
     and_then (scenario_fold min_amount pv q None) (\<lambda>worst. ok_or worst (RiskPayout PvEmpty))"

definition best_case_scenario_pnl :: "payout_vector \<Rightarrow> quantity \<Rightarrow> (amount, risk_error) result" where
  "best_case_scenario_pnl pv q =
     and_then (scenario_fold max_amount pv q None) (\<lambda>best. ok_or best (RiskPayout PvEmpty))"

definition required_collateral :: "payout_vector \<Rightarrow> quantity \<Rightarrow> (amount, risk_error) result" where
  "required_collateral pv q =
     and_then (worst_case_scenario_pnl pv q) (\<lambda>worst. if worst < 0 then neg_amount worst else Ok 0)"

definition worst_case_liability :: "payout_vector \<Rightarrow> quantity \<Rightarrow> (amount, payout_error) result" where
  "worst_case_liability pv q = map_err (\<lambda>_. PayoutArith ArithOverflow) (required_collateral pv q)"

section \<open>Conserving vectors\<close>

definition conserving :: "payout_vector \<Rightarrow> bool" where
  "conserving pv \<longleftrightarrow> (\<forall>v \<in> set pv. 0 \<le> v) \<and> sum_list pv = AMOUNT_SCALE"

lemma sum_entries_Ok:
  assumes "0 \<le> tot" and "fits I128 tot"
  shows "sum_entries tot vs = Ok s \<longleftrightarrow>
    (\<forall>v \<in> set vs. 0 \<le> v) \<and> s = tot + sum_list vs \<and> fits I128 s"
  using assms
proof (induction vs arbitrary: tot)
  case (Cons v vs)
  have "fits I128 (tot + v)" if "0 \<le> v" "\<forall>v \<in> set vs. 0 \<le> v" "fits I128 (tot + v + sum_list vs)"
    using that Cons.prems sum_list_nonneg [of vs] by (intro fits_nonneg_le [OF that(3)]) simp_all
  with Cons show ?case
    by (auto simp: and_then_Inr_iff add.assoc)
qed auto

lemma validate_conserving_iff: "validate_conserving pv = Ok () \<longleftrightarrow> conserving pv"
proof -
  have "fits I128 AMOUNT_SCALE" by (simp add: fits_def AMOUNT_SCALE_def)
  then show ?thesis
    by (auto simp: validate_conserving_def and_then_Inr_iff sum_entries_Ok conserving_def split: if_splits)
qed

lemma new_conserving_iff:
  "new_conserving vs = Ok pv \<longleftrightarrow> pv = vs \<and> vs \<noteq> [] \<and> length vs \<le> MAX_OUTCOMES \<and> conserving vs"
  by (auto simp: new_conserving_def pv_new_def and_then_Inr_iff validate_conserving_iff split: if_splits)

lemma conserving_bounds: "conserving pv \<Longrightarrow> v \<in> set pv \<Longrightarrow> 0 \<le> v \<and> v \<le> AMOUNT_SCALE"
  using member_le_sum_list [of v pv] by (auto simp: conserving_def)

lemma sum_list_update_zero:
  "w < length v \<Longrightarrow> v ! w = (0 :: int) \<Longrightarrow> sum_list (v[w := x]) = sum_list v + x"
proof (induction v arbitrary: w)
  case (Cons a v)
  then show ?case by (cases w) simp_all
qed simp

section \<open>Constructors\<close>

lemma winner_takes_all_Ok:
  "winner_takes_all n w = Ok pv \<longleftrightarrow> w < n \<and> n \<le> MAX_OUTCOMES \<and> pv = (replicate n 0)[w := AMOUNT_SCALE]"
proof -
  have "conserving ((replicate n 0)[w := AMOUNT_SCALE])" if "w < n"
    using that by (auto simp: conserving_def sum_list_update_zero AMOUNT_SCALE_def sum_list_replicate dest!: set_update_subset_insert [THEN subsetD])
  then show ?thesis
    by (auto simp: winner_takes_all_def new_conserving_iff)
qed

text \<open>What the placing loop does when the share is positive: it accepts exactly distinct winners in range.\<close>

lemma place_winners_Ok:
  assumes "per \<noteq> 0" and "length v = n"
  shows "place_winners n per ws v al = Ok (v', al') \<longleftrightarrow>
    distinct ws \<and> (\<forall>w \<in> set ws. w < n \<and> v ! w = 0) \<and>
    v' = map (\<lambda>i. if i \<in> set ws then per else v ! i) [0..<n] \<and> al' = al + per * int (length ws)"
  using assms(2)
proof (induction ws arbitrary: v al)
  case Nil
  then show ?case by (auto simp: map_nth)
next
  case (Cons w ws)
  show ?case
  proof (cases "w < n \<and> v ! w = 0")
    case True
    have upd: "(\<forall>x \<in> set ws. x < n \<and> v[w := per] ! x = 0) \<longleftrightarrow> w \<notin> set ws \<and> (\<forall>x \<in> set ws. x < n \<and> v ! x = 0)"
      using True assms(1) Cons.prems by (auto simp: nth_list_update)
    have "map (\<lambda>i. if i \<in> set ws then per else v[w := per] ! i) [0..<n] =
        map (\<lambda>i. if i \<in> set (w # ws) then per else v ! i) [0..<n]"
      using Cons.prems by (auto simp: nth_list_update)
    with True Cons.IH [of "v[w := per]" "al + per"] upd Cons.prems show ?thesis
      by (auto simp: algebra_simps)
  qed auto
qed

lemma sum_indicator:
  assumes "distinct ws" and "\<forall>w \<in> set ws. w < n"
  shows "sum_list (map (\<lambda>i. if i \<in> set ws then per else (0 :: int)) [0..<n]) = per * int (length ws)"
proof -
  have "{i \<in> {0..<n}. i \<in> set ws} = set ws" using assms(2) by auto
  then have "(\<Sum>i \<in> {0..<n}. if i \<in> set ws then per else 0) = per * int (card (set ws))"
    by (simp add: sum.inter_filter [symmetric])
  then show ?thesis
    using assms(1) by (simp add: distinct_card interv_sum_list_conv_sum_set_nat)
qed

definition shares :: "nat \<Rightarrow> nat list \<Rightarrow> payout_vector" where
  "shares n ws =
     map (\<lambda>i. if i = last ws then AMOUNT_SCALE - AMOUNT_SCALE div int (length ws) * (int (length ws) - 1)
              else if i \<in> set ws then AMOUNT_SCALE div int (length ws) else 0) [0..<n]"

lemma share_bounds:
  assumes "1 \<le> k" and "k \<le> AMOUNT_SCALE"
  shows "1 \<le> AMOUNT_SCALE div k" and "AMOUNT_SCALE div k * (k - 1) < AMOUNT_SCALE"
proof -
  show pos: "1 \<le> AMOUNT_SCALE div k" using assms zdiv_mono1 [of k AMOUNT_SCALE k] by simp
  have "AMOUNT_SCALE div k * k \<le> AMOUNT_SCALE"
    using minus_mod_eq_div_mult [of AMOUNT_SCALE k] pos_mod_sign [of k AMOUNT_SCALE] assms(1) by linarith
  then show "AMOUNT_SCALE div k * (k - 1) < AMOUNT_SCALE"
    using pos by (simp add: algebra_simps)
qed

lemma sum_shares:
  assumes "ws \<noteq> []" and "distinct ws" and "\<forall>w \<in> set ws. w < n"
  shows "sum_list (shares n ws) = AMOUNT_SCALE"
proof -
  let ?per = "AMOUNT_SCALE div int (length ws)" and ?k = "int (length ws)"
  let ?f = "\<lambda>i. if i \<in> set (butlast ws) then ?per else (0 :: int)"
  have last: "last ws < n" "last ws \<notin> set (butlast ws)" "set ws = insert (last ws) (set (butlast ws))"
    using assms by (cases ws rule: rev_cases; auto)+
  have "shares n ws = (map ?f [0..<n])[last ws := AMOUNT_SCALE - ?per * (?k - 1)]"
    using last by (intro nth_equalityI) (auto simp: shares_def nth_list_update)
  moreover have "sum_list (map ?f [0..<n]) = ?per * int (length (butlast ws))"
    using assms by (intro sum_indicator) (auto simp: distinct_butlast dest: in_set_butlastD)
  moreover have "int (length (butlast ws)) = ?k - 1"
    using assms(1) by (cases ws rule: rev_cases) auto
  ultimately show ?thesis
    using last by (simp add: sum_list_update_zero)
qed

lemma shares_conserving:
  assumes "ws \<noteq> []" and "distinct ws" and "\<forall>w \<in> set ws. w < n" and "int (length ws) \<le> AMOUNT_SCALE"
  shows "conserving (shares n ws)"
proof -
  have "1 \<le> int (length ws)" using assms(1) by (cases ws) auto
  from share_bounds [OF this assms(4)] have "0 \<le> v" if "v \<in> set (shares n ws)" for v
    using that by (auto simp: shares_def split: if_splits)
  then show ?thesis using sum_shares [OF assms(1-3)] by (simp add: conserving_def)
qed

lemma dead_heat_Ok:
  assumes "int (length ws) \<le> AMOUNT_SCALE"
  shows "dead_heat n ws = Ok pv \<longleftrightarrow>
    ws \<noteq> [] \<and> distinct ws \<and> (\<forall>w \<in> set ws. w < n) \<and> n \<le> MAX_OUTCOMES \<and> pv = shares n ws"
proof (cases "ws = []")
  case False
  let ?k = "int (length ws)" and ?per = "AMOUNT_SCALE div int (length ws)"
  have k: "1 \<le> ?k" using False by (cases ws) auto
  have per: "AMOUNT_SCALE sdiv ?k = ?per" using False by (intro sdiv_nonneg) (simp_all add: AMOUNT_SCALE_def)
  have "?per \<noteq> 0" using share_bounds(1) [OF k assms] by simp
  note placed = place_winners_Ok [OF this, of "replicate n 0" n ws 0]
  have upd: "(map (\<lambda>i. if i \<in> set ws then ?per else replicate n 0 ! i) [0..<n])[last ws := ?per + (AMOUNT_SCALE - ?per * ?k)]
      = shares n ws"
    by (intro nth_equalityI) (auto simp: shares_def nth_list_update algebra_simps)
  have "dead_heat n ws = Ok pv \<longleftrightarrow>
      (\<exists>v al. place_winners n ?per ws (replicate n 0) 0 = Ok (v, al) \<and>
        new_conserving (v[last ws := ?per + (AMOUNT_SCALE - al)]) = Ok pv)"
    using False by (auto simp: dead_heat_def per and_then_Inr_iff Let_def)
  also have "\<dots> \<longleftrightarrow> distinct ws \<and> (\<forall>w \<in> set ws. w < n) \<and> new_conserving (shares n ws) = Ok pv"
    by (auto simp: placed upd)
  also have "\<dots> \<longleftrightarrow> distinct ws \<and> (\<forall>w \<in> set ws. w < n) \<and> n \<le> MAX_OUTCOMES \<and> pv = shares n ws"
    using shares_conserving [OF False _ _ assms] False
    by (auto simp: new_conserving_iff) (auto simp: shares_def)
  finally show ?thesis using False by simp
qed (simp add: dead_heat_def)

text \<open>A list of more than a million winners has a zero share, and repetitions go unnoticed.\<close>

lemma place_zero_shares:
  assumes "w < n"
  shows "place_winners n 0 (replicate j w) (replicate n 0) 0 = Ok (replicate n 0, 0)"
proof (induction j)
  case (Suc j)
  have "(replicate n 0)[w := 0 :: int] = replicate n 0"
    using assms by (intro nth_equalityI) (auto simp: nth_list_update)
  with Suc show ?case using assms by simp
qed simp

lemma dead_heat_many_repeats:
  assumes "int k > AMOUNT_SCALE" and "w < n" and "n \<le> MAX_OUTCOMES"
  shows "dead_heat n (replicate k w) = Ok ((replicate n 0)[w := AMOUNT_SCALE])"
proof -
  have "k \<noteq> 0" using assms(1) by (auto simp: AMOUNT_SCALE_def)
  have "AMOUNT_SCALE sdiv int k = AMOUNT_SCALE div int k"
    using \<open>k \<noteq> 0\<close> by (intro sdiv_nonneg) (simp_all add: AMOUNT_SCALE_def)
  also have "\<dots> = 0"
    using assms(1) by (intro div_pos_pos_trivial) (simp_all add: AMOUNT_SCALE_def)
  finally have per: "AMOUNT_SCALE sdiv int k = 0" .
  have "new_conserving ((replicate n 0)[w := AMOUNT_SCALE]) = Ok ((replicate n 0)[w := AMOUNT_SCALE])"
    using winner_takes_all_Ok [of n w "(replicate n 0)[w := AMOUNT_SCALE]"] assms(2,3)
    by (simp add: winner_takes_all_def)
  then show ?thesis
    using \<open>k \<noteq> 0\<close> per place_zero_shares [OF assms(2)] by (simp add: dead_heat_def Let_def)
qed

lemma scalar_payout_Ok:
  assumes "lower < upper" and "fits I128 ((upper - lower) * AMOUNT_SCALE)"
  shows "scalar_payout lower upper v =
    (let long = (max lower (min v upper) - lower) * AMOUNT_SCALE div (upper - lower) in Ok [long, AMOUNT_SCALE - long])"
proof -
  let ?n = "max lower (min v upper) - lower" and ?r = "upper - lower"
  have n: "0 \<le> ?n" "?n \<le> ?r" using assms(1) by auto
  then have nr: "?n * AMOUNT_SCALE \<le> ?r * AMOUNT_SCALE" by (intro mult_right_mono) (simp_all add: AMOUNT_SCALE_def)
  have "?r * 1 \<le> ?r * AMOUNT_SCALE" using assms(1) by (intro mult_left_mono) (simp_all add: AMOUNT_SCALE_def)
  then have fits: "fits I128 ?r" "fits I128 ?n" "fits I128 (?n * AMOUNT_SCALE)"
    using assms n nr by (auto intro!: fits_nonneg_le [OF assms(2)] simp: AMOUNT_SCALE_def)
  let ?long = "?n * AMOUNT_SCALE div ?r"
  have "?long \<le> ?r * AMOUNT_SCALE div ?r" using nr assms(1) by (intro zdiv_mono1) simp_all
  also have "\<dots> = AMOUNT_SCALE" using assms(1) by (intro nonzero_mult_div_cancel_left) simp
  finally have long: "0 \<le> ?long" "?long \<le> AMOUNT_SCALE"
    using n assms(1) by (simp_all add: pos_imp_zdiv_nonneg_iff AMOUNT_SCALE_def)
  have "mul_div ?n AMOUNT_SCALE ?r = Ok ?long"
    using fits n assms(1) by (simp add: mul_div_def sdiv_nonneg AMOUNT_SCALE_def prim_checked_fits)
  moreover have "scalar_checked_sub I128 AMOUNT_SCALE ?long = Ok (AMOUNT_SCALE - ?long)"
    using long by (intro i128.sub_within) (simp_all add: fits_def AMOUNT_SCALE_def)
  moreover have "new_conserving [?long, AMOUNT_SCALE - ?long] = Ok [?long, AMOUNT_SCALE - ?long]"
    using long by (auto simp: new_conserving_iff conserving_def MAX_OUTCOMES_def)
  ultimately show ?thesis
    using assms(1) fits by (simp add: scalar_payout_def prim_checked_fits Let_def)
qed

section \<open>The pool\<close>

definition pool_ok :: "nat \<Rightarrow> complete_set_pool \<Rightarrow> bool" where
  "pool_ok n p \<longleftrightarrow> cs_num_outcomes p = n \<and> 0 \<le> cs_locked_collateral p \<and> fits I128 (cs_locked_collateral p) \<and>
     cs_outstanding p = replicate n (cs_locked_collateral p)"

lemma mint_claims_replicate:
  "fits I128 (c + units) \<Longrightarrow> mint_claims units (replicate n c) = Ok (replicate n (c + units))"
  by (induction n) (simp_all add: i128.add_law)

lemma redeem_claims_replicate:
  "fits I128 (c - units) \<Longrightarrow> redeem_claims units (replicate n c) = (Ok (), replicate n (c - units))"
  by (induction n) (simp_all add: i128.sub_law)

lemma pool_mint_ok:
  assumes "pool_ok n p"
  shows "pool_mint p units =
    (if units \<le> 0 then (Err NonPositiveUnits, p)
     else if \<not> fits I128 (cs_locked_collateral p + units) then (Err (PayoutArith ArithOverflow), p)
     else (Ok (), p\<lparr>cs_locked_collateral := cs_locked_collateral p + units,
                    cs_outstanding := replicate n (cs_locked_collateral p + units)\<rparr>))"
  using assms by (auto simp: pool_mint_def pool_ok_def i128.add_law mint_claims_replicate)

lemma pool_locked_sub:
  assumes "pool_ok n p" and "0 < units" and "units \<le> cs_locked_collateral p"
  shows "fits I128 (cs_locked_collateral p - units)"
proof (rule fits_nonneg_le)
  show "fits I128 (cs_locked_collateral p)" using assms(1) by (simp add: pool_ok_def)
qed (use assms in simp_all)

lemma pool_redeem_ok:
  assumes "pool_ok n p" and "n \<noteq> 0"
  shows "pool_redeem p units =
    (if units \<le> 0 then (Err NonPositiveUnits, p)
     else if cs_locked_collateral p < units then (Err InsufficientCollateral, p)
     else (Ok (), p\<lparr>cs_locked_collateral := cs_locked_collateral p - units,
                    cs_outstanding := replicate n (cs_locked_collateral p - units)\<rparr>))"
proof -
  have "fits I128 (cs_locked_collateral p - units)" if "0 < units" "units \<le> cs_locked_collateral p"
    using assms(1) that by (intro pool_locked_sub) simp_all
  moreover have "cs_outstanding p = replicate n (cs_locked_collateral p)"
    using assms(1) by (simp add: pool_ok_def)
  ultimately show ?thesis
    using assms(2) by (simp add: pool_redeem_def i128.sub_law redeem_claims_replicate list_ex_iff)
qed

text \<open>Sequences of operations on a pool.\<close>

datatype pool_command = Mint amount | Redeem amount

fun pool_step :: "complete_set_pool \<Rightarrow> pool_command \<Rightarrow> (unit, payout_error) result \<times> complete_set_pool" where
  "pool_step p (Mint units) = pool_mint p units"
| "pool_step p (Redeem units) = pool_redeem p units"

definition pool_run :: "complete_set_pool \<Rightarrow> pool_command list \<Rightarrow> complete_set_pool" where
  "pool_run p cs = fold (\<lambda>c p. snd (pool_step p c)) cs p"

lemma pool_step_ok: "pool_ok n p \<Longrightarrow> n \<noteq> 0 \<Longrightarrow> pool_ok n (snd (pool_step p c))"
proof (cases c)
  case (Mint units)
  assume "pool_ok n p" "n \<noteq> 0"
  with Mint show ?thesis by (simp add: pool_mint_ok) (auto simp: pool_ok_def)
next
  case (Redeem units)
  assume "pool_ok n p" "n \<noteq> 0"
  moreover have "fits I128 (cs_locked_collateral p - units)" if "0 < units" "units \<le> cs_locked_collateral p"
    using \<open>pool_ok n p\<close> that by (intro pool_locked_sub) simp_all
  ultimately show ?thesis using Redeem by (simp add: pool_redeem_ok) (auto simp: pool_ok_def)
qed

lemma pool_run_ok: "pool_ok n p \<Longrightarrow> n \<noteq> 0 \<Longrightarrow> pool_ok n (pool_run p cs)"
  unfolding pool_run_def
  by (induction cs arbitrary: p) (simp_all add: pool_step_ok)

lemma pool_new_ok: "pool_new n = Ok p \<Longrightarrow> pool_ok n p \<and> n \<noteq> 0 \<and> n \<le> MAX_OUTCOMES"
  by (auto simp: pool_new_def pool_ok_def split: if_splits)

section \<open>Settlement\<close>

definition credit_of :: "amount \<Rightarrow> amount \<Rightarrow> amount" where
  "credit_of locked pay = locked * pay div AMOUNT_SCALE"

lemma settle_value_credit:
  assumes "0 \<le> locked" and "0 \<le> pay"
  shows "settle_value locked pay =
    (if fits I128 (locked * pay) then Ok (credit_of locked pay) else Err (PayoutArith ArithOverflow))"
  using assms
  by (simp add: settle_value_def mul_div_def credit_of_def sdiv_nonneg AMOUNT_SCALE_def prim_checked_def)

lemma credit_of_nonneg: "0 \<le> locked \<Longrightarrow> 0 \<le> pay \<Longrightarrow> 0 \<le> credit_of locked pay"
  by (simp add: credit_of_def pos_imp_zdiv_nonneg_iff AMOUNT_SCALE_def)

text \<open>The credits fall short of the exact shares by less than one unit each.\<close>

lemma credits_deficit:
  assumes "0 \<le> locked"
  shows "sum_list (map (credit_of locked) pv) * AMOUNT_SCALE \<le> locked * sum_list pv \<and>
    locked * sum_list pv - sum_list (map (credit_of locked) pv) * AMOUNT_SCALE \<le> int (length pv) * (AMOUNT_SCALE - 1)"
proof (induction pv)
  case (Cons v pv)
  have "0 \<le> locked * v mod AMOUNT_SCALE" "locked * v mod AMOUNT_SCALE \<le> AMOUNT_SCALE - 1"
    using pos_mod_bound [of AMOUNT_SCALE "locked * v"] by (simp_all add: AMOUNT_SCALE_def)
  moreover have "credit_of locked v * AMOUNT_SCALE = locked * v - locked * v mod AMOUNT_SCALE"
    by (simp add: credit_of_def minus_mod_eq_div_mult)
  ultimately show ?case using Cons by (simp add: algebra_simps)
qed simp

lemma less_by_deficit:
  "0 \<le> d * AMOUNT_SCALE \<Longrightarrow> d * AMOUNT_SCALE \<le> n * (AMOUNT_SCALE - 1) \<Longrightarrow> 0 < n \<Longrightarrow> 0 \<le> d \<and> d < n"
  by (simp add: AMOUNT_SCALE_def)

lemma credits_within:
  assumes "0 \<le> locked" and "conserving pv" and "pv \<noteq> []"
  shows "0 \<le> locked - sum_list (map (credit_of locked) pv) \<and>
    locked - sum_list (map (credit_of locked) pv) < int (length pv)"
proof (rule less_by_deficit)
  let ?d = "locked - sum_list (map (credit_of locked) pv)"
  show "0 \<le> ?d * AMOUNT_SCALE" "?d * AMOUNT_SCALE \<le> int (length pv) * (AMOUNT_SCALE - 1)"
    using credits_deficit [OF assms(1), of pv] assms(2) by (simp_all add: conserving_def left_diff_distrib)
qed (use assms(3) in simp)

lemma settle_claims_ok:
  assumes "0 \<le> locked" and "0 \<le> tot" and "\<forall>v \<in> set pv. 0 \<le> v"
  shows "settle_claims (zip (replicate (length pv) locked) pv) tot = Ok (cs, t) \<Longrightarrow>
    cs = map (credit_of locked) pv \<and> t = tot + sum_list cs"
  using assms(2,3)
proof (induction pv arbitrary: tot cs)
  case (Cons v pv)
  have v: "0 \<le> v" using Cons.prems by simp
  then obtain cs' where *: "cs = credit_of locked v # cs'"
    "settle_claims (zip (replicate (length pv) locked) pv) (tot + credit_of locked v) = Ok (cs', t)"
    using Cons.prems(1) assms(1)
    by (auto simp: and_then_Inr_iff settle_value_credit i128.add_law split: if_splits)
  then have "cs' = map (credit_of locked) pv \<and> t = tot + credit_of locked v + sum_list cs'"
    using Cons.prems v credit_of_nonneg [OF assms(1) v] by (intro Cons.IH) auto
  with * show ?case by simp
qed simp

lemma settle_claims_succeeds:
  assumes "0 \<le> locked" and "0 \<le> tot" and "\<forall>v \<in> set pv. 0 \<le> v \<and> fits I128 (locked * v)"
    and "fits I128 (tot + sum_list (map (credit_of locked) pv))"
  shows "\<exists>r. settle_claims (zip (replicate (length pv) locked) pv) tot = Ok r"
  using assms(2-4)
proof (induction pv arbitrary: tot)
  case (Cons v pv)
  have v: "0 \<le> v" "fits I128 (locked * v)" using Cons.prems by simp_all
  have c: "0 \<le> credit_of locked v" using credit_of_nonneg [OF assms(1) v(1)] .
  have "0 \<le> sum_list (map (credit_of locked) pv)"
    using Cons.prems(2) assms(1) by (intro sum_list_nonneg) (auto simp: credit_of_nonneg)
  then have "fits I128 (tot + credit_of locked v)"
    using Cons.prems c by (intro fits_nonneg_le [OF Cons.prems(3)]) simp_all
  moreover obtain r where "settle_claims (zip (replicate (length pv) locked) pv) (tot + credit_of locked v) = Ok r"
    using Cons.IH [of "tot + credit_of locked v"] Cons.prems c by (auto simp: add.assoc)
  ultimately show ?case
    using v assms(1) by (cases r) (simp add: settle_value_credit i128.add_law)
qed simp

lemma pool_settle_ok:
  assumes "pool_ok n p" and "n \<noteq> 0" and "pool_settle p pv = Ok s"
  shows "length pv = n \<and> conserving pv \<and>
    sl_per_outcome_credit s = map (credit_of (cs_locked_collateral p)) pv \<and>
    sl_total_credited s = sum_list (sl_per_outcome_credit s) \<and>
    sl_total_credited s + sl_dust s = cs_locked_collateral p \<and> 0 \<le> sl_dust s \<and> sl_dust s < int n"
proof -
  let ?l = "cs_locked_collateral p"
  have p: "cs_num_outcomes p = n" "0 \<le> ?l" "cs_outstanding p = replicate n ?l"
    using assms(1) by (simp_all add: pool_ok_def)
  obtain credits t dust where
    c: "length pv = n" "conserving pv" "settle_claims (zip (replicate n ?l) pv) 0 = Ok (credits, t)"
      "dust = ?l - t" "s = \<lparr>sl_per_outcome_credit = credits, sl_total_credited = t, sl_dust = dust\<rparr>"
    using assms(3) p
    by (auto simp: pool_settle_def and_then_Inr_iff validate_conserving_iff i128.sub_law split: if_splits)
  then have "credits = map (credit_of ?l) pv \<and> t = 0 + sum_list credits"
    using p(2) by (intro settle_claims_ok) (auto simp: conserving_def)
  moreover have "pv \<noteq> []" using c(1) assms(2) by auto
  ultimately show ?thesis
    using c credits_within [OF p(2) c(2)] by auto
qed

lemma pool_settle_succeeds:
  assumes "pool_ok n p" and "n \<noteq> 0" and "length pv = n" and "conserving pv"
    and "fits I128 (cs_locked_collateral p * AMOUNT_SCALE)"
  shows "\<exists>s. pool_settle p pv = Ok s"
proof -
  let ?l = "cs_locked_collateral p" and ?t = "sum_list (map (credit_of (cs_locked_collateral p)) pv)"
  have p: "cs_num_outcomes p = n" "0 \<le> ?l" "fits I128 ?l" "cs_outstanding p = replicate n ?l"
    using assms(1) by (simp_all add: pool_ok_def)
  have "pv \<noteq> []" using assms(2,3) by auto
  note dust = credits_within [OF p(2) assms(4) this]
  have "0 \<le> ?t" using p(2) assms(4) by (intro sum_list_nonneg) (auto simp: credit_of_nonneg conserving_def)
  then have t: "fits I128 (0 + ?t)" "fits I128 (?l - ?t)"
    using dust by (auto intro!: fits_nonneg_le [OF p(3)])
  have "fits I128 (?l * v)" if "v \<in> set pv" for v
    using conserving_bounds [OF assms(4) that] p(2)
    by (intro fits_nonneg_le [OF assms(5)]) (auto intro: mult_left_mono)
  then obtain r where r: "settle_claims (zip (replicate (length pv) ?l) pv) 0 = Ok r"
    using settle_claims_succeeds [OF p(2), of 0 pv] t(1) assms(4) by (auto simp: conserving_def)
  then obtain cs where "r = (cs, ?t)"
    using settle_claims_ok [OF p(2), of 0 pv "fst r" "snd r"] assms(4) by (cases r) (auto simp: conserving_def)
  then show ?thesis
    using r t p assms(3,4) by (simp add: pool_settle_def validate_conserving_iff [THEN iffD2] i128.sub_law)
qed

section \<open>Scenarios\<close>

text \<open>A scenario value is the exact product over the scale, cut toward zero.\<close>

lemma mul_ratio_truncates:
  assumes "mul_ratio p q = Ok v"
  shows "- (p * q) < (- v + 1) * RATIO_SCALE" and "0 \<le> p * q \<Longrightarrow> 0 \<le> v" and "p * q < 0 \<Longrightarrow> v \<le> 0"
proof -
  have v: "v = (p * q) sdiv RATIO_SCALE" using assms by (auto simp: mul_ratio_def and_then_Inr_iff)
  show "0 \<le> p * q \<Longrightarrow> 0 \<le> v"
    by (simp add: v sdiv_nonneg RATIO_SCALE_def pos_imp_zdiv_nonneg_iff)
  show "p * q < 0 \<Longrightarrow> v \<le> 0"
    by (simp add: v sdiv_neg RATIO_SCALE_def pos_imp_zdiv_nonneg_iff)
  show "- (p * q) < (- v + 1) * RATIO_SCALE"
  proof (cases "0 \<le> p * q")
    case True
    then have "v * RATIO_SCALE \<le> p * q"
      using pos_mod_sign [of RATIO_SCALE "p * q"] minus_mod_eq_div_mult [of "p * q" RATIO_SCALE]
      by (simp add: v sdiv_nonneg RATIO_SCALE_def)
    then show ?thesis by (simp add: RATIO_SCALE_def)
  next
    case False
    then have "v = - (- (p * q) div RATIO_SCALE)" by (simp add: v sdiv_neg RATIO_SCALE_def)
    then show ?thesis
      using pos_mod_bound [of RATIO_SCALE "- (p * q)"] minus_mod_eq_div_mult [of "- (p * q)" RATIO_SCALE]
      by (simp add: RATIO_SCALE_def)
  qed
qed

lemma scenario_fold_min:
  assumes "scenario_fold min_amount pv q best = Ok w"
  shows "\<exists>vs. scenario_values pv q = Ok vs \<and>
    (\<forall>v \<in> set vs \<union> set_option best. \<exists>m. w = Some m \<and> m \<le> v) \<and>
    (\<forall>m. w = Some m \<longrightarrow> m \<in> set vs \<union> set_option best)"
  using assms
proof (induction pv arbitrary: best)
  case (Cons p pv)
  then obtain v where v: "mul_ratio p q = Ok v"
    "scenario_fold min_amount pv q (Some (case best of None \<Rightarrow> v | Some b \<Rightarrow> min_amount b v)) = Ok w"
    by (auto simp: and_then_Inr_iff)
  obtain vs where vs: "scenario_values pv q = Ok vs"
    "\<forall>x \<in> set vs \<union> {case best of None \<Rightarrow> v | Some b \<Rightarrow> min_amount b v}. \<exists>m. w = Some m \<and> m \<le> x"
    "\<forall>m. w = Some m \<longrightarrow> m \<in> set vs \<union> {case best of None \<Rightarrow> v | Some b \<Rightarrow> min_amount b v}"
    using Cons.IH [OF v(2)] by auto
  then show ?case
    using v(1) by (cases best) (force simp: min_amount_def split: if_splits)+
qed auto

lemma scenario_values_in:
  "scenario_values pv q = Ok vs \<Longrightarrow> p \<in> set pv \<Longrightarrow> \<exists>v \<in> set vs. mul_ratio p q = Ok v"
  by (induction pv arbitrary: vs) (auto simp: and_then_Inr_iff)

lemma scaled_fits:
  assumes "0 \<le> x" and "x * AMOUNT_SCALE \<le> int_max I128"
  shows "fits I128 (x * AMOUNT_SCALE)"
proof -
  have "0 \<le> x * AMOUNT_SCALE" using assms(1) by (simp add: AMOUNT_SCALE_def)
  then show ?thesis using assms(2) unfolding fits_def by (auto intro: order_trans [OF int_min_le_0])
qed

section \<open>Properties of settlement\<close>

text \<open>
  Every pool reached from a new one by mints and redemptions of any amounts, refused ones
  included, keeps as many claims on each outcome as it has collateral. Settling it succeeds only with a vector
  of non-negative entries that sum to one unit; it credits each outcome the floor of its exact share,
  credits and dust sum to the collateral, and the dust is below one raw unit per outcome. Settling with such a
  vector succeeds whenever the collateral times the scale fits the amount type.
\<close>

theorem settlement_conserves:
  assumes "pool_new n = Ok p0"
  shows "invariant_holds (pool_run p0 cs) \<and>
    (\<forall>pv s. pool_settle (pool_run p0 cs) pv = Ok s \<longrightarrow>
       length pv = n \<and> conserving pv \<and>
       sl_per_outcome_credit s = map (\<lambda>pay. cs_locked_collateral (pool_run p0 cs) * pay div AMOUNT_SCALE) pv \<and>
       sl_total_credited s = sum_list (sl_per_outcome_credit s) \<and>
       sl_total_credited s + sl_dust s = cs_locked_collateral (pool_run p0 cs) \<and>
       0 \<le> sl_dust s \<and> sl_dust s < int n) \<and>
    (\<forall>pv. length pv = n \<and> conserving pv \<and> cs_locked_collateral (pool_run p0 cs) * AMOUNT_SCALE \<le> int_max I128 \<longrightarrow>
       (\<exists>s. pool_settle (pool_run p0 cs) pv = Ok s))"
proof -
  let ?p = "pool_run p0 cs"
  have n: "pool_ok n ?p" "n \<noteq> 0"
    using pool_new_ok [OF assms] pool_run_ok by auto
  have "invariant_holds ?p" using n(1) by (auto simp: invariant_holds_def pool_ok_def list_all_iff)
  moreover have credit: "credit_of (cs_locked_collateral ?p) = (\<lambda>pay. cs_locked_collateral ?p * pay div AMOUNT_SCALE)"
    by (simp add: credit_of_def fun_eq_iff)
  moreover have "\<exists>s. pool_settle ?p pv = Ok s"
    if "length pv = n" "conserving pv" "cs_locked_collateral ?p * AMOUNT_SCALE \<le> int_max I128" for pv
  proof (rule pool_settle_succeeds [OF n that(1,2)])
    show "fits I128 (cs_locked_collateral ?p * AMOUNT_SCALE)"
      using n(1) that(3) by (intro scaled_fits) (simp_all only: pool_ok_def)
  qed
  ultimately show ?thesis using pool_settle_ok [OF n, unfolded credit] by blast
qed

definition example_pool :: complete_set_pool where
  "example_pool = \<lparr>cs_num_outcomes = 3, cs_locked_collateral = 0, cs_outstanding = [0, 0, 0]\<rparr>"

theorem settlement_conserves_witness:
  "pool_new 3 = Ok example_pool \<and>
   pool_settle (pool_run example_pool [Mint 5, Redeem 7, Redeem 1]) [333333, 333333, 333334] =
     Ok \<lparr>sl_per_outcome_credit = [1, 1, 1], sl_total_credited = 3, sl_dust = 1\<rparr> \<and>
   invariant_holds (pool_run example_pool [Mint 5, Redeem 7, Redeem 1])"
proof -
  have new: "pool_new 3 = Ok example_pool"
    by (simp add: pool_new_def example_pool_def MAX_OUTCOMES_def numeral_3_eq_3)
  show ?thesis
    using new settlement_conserves [OF new, of "[Mint 5, Redeem 7, Redeem 1]"]
    by (simp add: example_pool_def pool_run_def pool_mint_def pool_redeem_def pool_settle_def i128.add_law
        i128.sub_law fits_def validate_conserving_def settle_value_def mul_div_def AMOUNT_SCALE_def
        prim_checked_def sdiv_nonneg)
qed

text \<open>
  The settlement vectors of the constructors: a winner takes the unit; a dead heat of up to a
  million listed winners succeeds exactly for distinct winners in range and splits the unit evenly with the
  remainder to the last; a scalar market pays the floor of the clamped position in its range to the long
  side and the rest to the short side. All of them sum to exactly one unit.
\<close>

theorem constructors_conserve:
  shows "(winner_takes_all n w = Ok pv \<longleftrightarrow> w < n \<and> n \<le> MAX_OUTCOMES \<and> pv = (replicate n 0)[w := AMOUNT_SCALE]) \<and>
    (int (length ws) \<le> AMOUNT_SCALE \<longrightarrow>
       (dead_heat n ws = Ok pv \<longleftrightarrow>
          ws \<noteq> [] \<and> distinct ws \<and> (\<forall>w \<in> set ws. w < n) \<and> n \<le> MAX_OUTCOMES \<and> pv = shares n ws)) \<and>
    (lower < upper \<and> (upper - lower) * AMOUNT_SCALE \<le> int_max I128 \<longrightarrow>
       scalar_payout lower upper v =
         (let long = (max lower (min v upper) - lower) * AMOUNT_SCALE div (upper - lower)
          in Ok [long, AMOUNT_SCALE - long])) \<and>
    (winner_takes_all n w = Ok pv \<or> dead_heat n ws = Ok pv \<or> invalid_refund n = Ok pv \<or>
     scalar_payout lower upper v = Ok pv \<longrightarrow> conserving pv \<and> length pv \<le> MAX_OUTCOMES)"
proof -
  have "fits I128 ((upper - lower) * AMOUNT_SCALE)"
    if "lower < upper" "(upper - lower) * AMOUNT_SCALE \<le> int_max I128"
    using that by (intro scaled_fits) simp_all
  moreover have "conserving pv \<and> length pv \<le> MAX_OUTCOMES"
    if "winner_takes_all n w = Ok pv \<or> dead_heat n ws = Ok pv \<or> invalid_refund n = Ok pv \<or>
      scalar_payout lower upper v = Ok pv"
    using that
    by (auto simp: winner_takes_all_def invalid_refund_def dead_heat_def scalar_payout_def and_then_Inr_iff
        new_conserving_iff Let_def split: if_splits prod.splits)
  ultimately show ?thesis
    using winner_takes_all_Ok [of n w pv] dead_heat_Ok [of ws n pv] scalar_payout_Ok [of lower upper v] by auto
qed

theorem constructors_conserve_witness:
  "dead_heat 4 [0, 2, 3] = Ok [333333, 0, 333333, 333334] \<and>
   scalar_payout (- 10) 20 5 = Ok [500000, 500000]"
proof -
  have "shares 4 [0, 2, 3] = [333333, 0, 333333, 333334]"
    by (simp add: shares_def AMOUNT_SCALE_def upt_rec [of _ 4] numeral_eq_Suc)
  then show ?thesis
    using constructors_conserve [of 4 0 "[333333, 0, 333333, 333334]" "[0, 2, 3]" "- 10" 20 5]
    by (simp add: AMOUNT_SCALE_def MAX_OUTCOMES_def Let_def)
qed

text \<open>
  The collateral required for a position is non-negative, covers the scenario value of every outcome
  and is one of them or zero; the exact loss in any outcome exceeds it by less than one raw unit, since the
  scenario values are cut toward zero.
\<close>

theorem collateral_covers:
  assumes "required_collateral pv q = Ok c"
  shows "0 \<le> c \<and> (\<exists>vs. scenario_values pv q = Ok vs \<and> (\<forall>v \<in> set vs. - v \<le> c) \<and> (c = 0 \<or> - c \<in> set vs)) \<and>
    (\<forall>p \<in> set pv. - (p * q) < (c + 1) * RATIO_SCALE)"
proof -
  obtain m where m: "scenario_fold min_amount pv q None = Ok (Some m)" "c = (if m < 0 then - m else 0)"
    using assms
    by (auto simp: required_collateral_def worst_case_scenario_pnl_def and_then_Inr_iff neg_amount_def i128.sub_law
        split: if_splits)
  obtain vs where vs: "scenario_values pv q = Ok vs" "\<forall>v \<in> set vs. m \<le> v" "m \<in> set vs"
    using scenario_fold_min [OF m(1)] by auto
  have "- (p * q) < (c + 1) * RATIO_SCALE" if p: "p \<in> set pv" for p
  proof -
    obtain v where v: "v \<in> set vs" "mul_ratio p q = Ok v" using scenario_values_in [OF vs(1) p] by blast
    have "- v \<le> c" using vs(2) v(1) m(2) by auto
    then have "(- v + 1) * RATIO_SCALE \<le> (c + 1) * RATIO_SCALE" by (simp add: RATIO_SCALE_def)
    with mul_ratio_truncates(1) [OF v(2)] show ?thesis by linarith
  qed
  moreover have "\<forall>v \<in> set vs. - v \<le> c" using vs(2) m(2) by auto
  moreover have "c = 0 \<or> - c \<in> set vs" "0 \<le> c" using vs(3) m(2) by auto
  ultimately show ?thesis using vs(1) by blast
qed

theorem collateral_covers_witness:
  "required_collateral [1000000, 0] (- 2500000) = Ok 2500000 \<and> - (1000000 * - 2500000) < (2500000 + 1) * RATIO_SCALE"
proof -
  have "required_collateral [1000000, 0] (- 2500000) = Ok 2500000"
    by (simp add: required_collateral_def worst_case_scenario_pnl_def mul_ratio_def neg_amount_def i128.sub_law
        fits_def prim_checked_def min_amount_def RATIO_SCALE_def sdiv_neg sdiv_nonneg)
  with collateral_covers [OF this] show ?thesis by simp
qed

text \<open>The cut is in the trader's favour: a short position can owe something and need no collateral.\<close>

lemma short_without_collateral:
  "conserving [999999, 1] \<and> required_collateral [999999, 1] (- 1) = Ok 0 \<and> 0 < - (999999 * (- 1) :: int)"
  by (simp add: conserving_def AMOUNT_SCALE_def required_collateral_def worst_case_scenario_pnl_def mul_ratio_def
      fits_def prim_checked_def min_amount_def RATIO_SCALE_def sdiv_neg sdiv_nonneg)

end
