(* ===== verification/Escrow.thy ===== *)
theory Escrow
  imports Omap Fixed "HOL-Library.Product_Lexorder"
begin

text \<open>
  The market escrow ledger of \<open>crates/markets/src/escrow.rs\<close>. An operation returns its result and the ledger
  it leaves, so that what a failing operation has already written stays visible. The locale
  \<open>balance_book\<close> is what the conservation argument needs of a map of balances; it is interpreted for the
  plain insertion and for the insertion that drops zero balances. Theorem \<open>escrow_conserves\<close> shows that
  every run of operations conserves value.
\<close>

section \<open>The ledger\<close>

datatype escrow_error =
    UnknownAccount
  | InsufficientAvailable int int
  | InsufficientEscrow
  | NegativeAmount
  | PrefundedStake
  | Reconciliation
  | EscrowArith arith_error

type_synonym sponsor_id = nat

record escrow_ledger =
  el_available :: "(account_id, amount) omap"
  el_sponsor_stake :: "(market_id \<times> sponsor_id, amount) omap"
  el_bootstrap :: "(market_id, amount) omap"
  el_complete_set :: "(market_id, amount) omap"
  el_insurance :: amount
  el_protocol :: amount
  el_dust :: amount
  el_total_supply :: amount

definition escrow_new :: escrow_ledger where
  "escrow_new = \<lparr>el_available = omap_empty, el_sponsor_stake = omap_empty, el_bootstrap = omap_empty,
     el_complete_set = omap_empty, el_insurance = 0, el_protocol = 0, el_dust = 0, el_total_supply = 0\<rparr>"

text \<open>\<open>.get(key).copied().unwrap_or(Amount::ZERO)\<close>.\<close>

definition amount_of :: "('k::linorder, amount) omap \<Rightarrow> 'k \<Rightarrow> amount" where
  "amount_of m k = (case omap_get m k of None \<Rightarrow> 0 | Some v \<Rightarrow> v)"

definition available :: "escrow_ledger \<Rightarrow> account_id \<Rightarrow> (amount, escrow_error) result" where
  "available l a = ok_or (omap_get (el_available l) a) UnknownAccount"

definition sponsor_stake :: "escrow_ledger \<Rightarrow> market_id \<Rightarrow> sponsor_id \<Rightarrow> amount" where
  "sponsor_stake l m s = amount_of (el_sponsor_stake l) (m, s)"

definition sponsor_stake_total :: "escrow_ledger \<Rightarrow> market_id \<Rightarrow> amount" where
  "sponsor_stake_total l m =
     fold (\<lambda>(k, v) acc. if fst k = m then scalar_saturating_add I128 acc v else acc) (entries (el_sponsor_stake l)) 0"

definition bootstrap :: "escrow_ledger \<Rightarrow> market_id \<Rightarrow> amount" where
  "bootstrap l m = amount_of (el_bootstrap l) m"

definition complete_set :: "escrow_ledger \<Rightarrow> market_id \<Rightarrow> amount" where
  "complete_set l m = amount_of (el_complete_set l) m"

definition non_negative :: "amount \<Rightarrow> (unit, escrow_error) result" where
  "non_negative x = (if x < 0 then Err NegativeAmount else Ok ())"

type_synonym escrow_result = "(unit, escrow_error) result \<times> escrow_ledger"

text \<open>The entry of a new account is made before the addition is checked.\<close>

definition credit_available :: "escrow_ledger \<Rightarrow> account_id \<Rightarrow> amount \<Rightarrow> escrow_result" where
  "credit_available l a x =
     (case non_negative x of
        Inl e \<Rightarrow> (Err e, l)
      | Inr _ \<Rightarrow>
          let slot = amount_of (el_available l) a in
          (case scalar_checked_add I128 slot x of
             Inl e \<Rightarrow> (Err (EscrowArith e), l\<lparr>el_available := omap_put a slot (el_available l)\<rparr>)
           | Inr v \<Rightarrow> (Ok (), l\<lparr>el_available := omap_put a v (el_available l)\<rparr>)))"

definition debit_available :: "escrow_ledger \<Rightarrow> account_id \<Rightarrow> amount \<Rightarrow> escrow_result" where
  "debit_available l a x =
     (case non_negative x of
        Inl e \<Rightarrow> (Err e, l)
      | Inr _ \<Rightarrow>
          (case omap_get (el_available l) a of
             None \<Rightarrow> (Err UnknownAccount, l)
           | Some bal \<Rightarrow>
               if bal < x then (Err (InsufficientAvailable x bal), l)
               else
                 (case scalar_checked_sub I128 bal x of
                    Inl e \<Rightarrow> (Err (EscrowArith e), l)
                  | Inr v \<Rightarrow> (Ok (), l\<lparr>el_available := omap_put a v (el_available l)\<rparr>))))"

text \<open>A deposit writes the balance before it checks the total supply.\<close>

definition deposit :: "escrow_ledger \<Rightarrow> account_id \<Rightarrow> amount \<Rightarrow> escrow_result" where
  "deposit l a x =
     (case non_negative x of
        Inl e \<Rightarrow> (Err e, l)
      | Inr _ \<Rightarrow>
          let slot = amount_of (el_available l) a in
          (case scalar_checked_add I128 slot x of
             Inl e \<Rightarrow> (Err (EscrowArith e), l\<lparr>el_available := omap_put a slot (el_available l)\<rparr>)
           | Inr v \<Rightarrow>
               let l' = l\<lparr>el_available := omap_put a v (el_available l)\<rparr> in
               (case scalar_checked_add I128 (el_total_supply l') x of
                  Inl e \<Rightarrow> (Err (EscrowArith e), l')
                | Inr t \<Rightarrow> (Ok (), l'\<lparr>el_total_supply := t\<rparr>))))"

definition withdraw :: "escrow_ledger \<Rightarrow> account_id \<Rightarrow> amount \<Rightarrow> escrow_result" where
  "withdraw l a x =
     (case debit_available l a x of
        (Inl e, l') \<Rightarrow> (Err e, l')
      | (Inr _, l') \<Rightarrow>
          (case scalar_checked_sub I128 (el_total_supply l') x of
             Inl e \<Rightarrow> (Err (EscrowArith e), l')
           | Inr t \<Rightarrow> (Ok (), l'\<lparr>el_total_supply := t\<rparr>)))"

definition plan_lock :: "escrow_ledger \<Rightarrow> account_id \<Rightarrow> amount \<Rightarrow> amount \<Rightarrow> (amount, escrow_error) result" where
  "plan_lock l funder current_escrow x =
     and_then (non_negative x) (\<lambda>_.
     and_then (available l funder) (\<lambda>avail.
       if avail < x then Err (InsufficientAvailable x avail)
       else map_err EscrowArith (scalar_checked_add I128 current_escrow x)))"

definition lock_sponsor_stake :: "escrow_ledger \<Rightarrow> market_id \<Rightarrow> sponsor_id \<Rightarrow> account_id \<Rightarrow> amount \<Rightarrow> escrow_result" where
  "lock_sponsor_stake l m s funder x =
     (case plan_lock l funder (sponsor_stake l m s) x of
        Inl e \<Rightarrow> (Err e, l)
      | Inr nxt \<Rightarrow>
          (case debit_available l funder x of
             (Inl e, l') \<Rightarrow> (Err e, l')
           | (Inr _, l') \<Rightarrow> (Ok (), l'\<lparr>el_sponsor_stake := omap_put (m, s) nxt (el_sponsor_stake l')\<rparr>)))"

definition set_amount :: "'k::linorder \<Rightarrow> amount \<Rightarrow> ('k, amount) omap \<Rightarrow> ('k, amount) omap" where
  "set_amount k v m = (if v = 0 then omap_remove k m else omap_put k v m)"

definition set_sponsor_stake :: "escrow_ledger \<Rightarrow> market_id \<Rightarrow> sponsor_id \<Rightarrow> amount \<Rightarrow> escrow_ledger" where
  "set_sponsor_stake l m s v = l\<lparr>el_sponsor_stake := set_amount (m, s) v (el_sponsor_stake l)\<rparr>"

definition set_complete_set :: "escrow_ledger \<Rightarrow> market_id \<Rightarrow> amount \<Rightarrow> escrow_ledger" where
  "set_complete_set l m v = l\<lparr>el_complete_set := set_amount m v (el_complete_set l)\<rparr>"

definition release_sponsor_stake :: "escrow_ledger \<Rightarrow> market_id \<Rightarrow> sponsor_id \<Rightarrow> account_id \<Rightarrow> amount \<Rightarrow> escrow_result" where
  "release_sponsor_stake l m s receiver x =
     (case non_negative x of
        Inl e \<Rightarrow> (Err e, l)
      | Inr _ \<Rightarrow>
          let cur = sponsor_stake l m s in
          if cur < x then (Err InsufficientEscrow, l)
          else
            (case scalar_checked_sub I128 cur x of
               Inl e \<Rightarrow> (Err (EscrowArith e), l)
             | Inr remaining \<Rightarrow>
                 (case credit_available l receiver x of
                    (Inl e, l') \<Rightarrow> (Err e, l')
                  | (Inr _, l') \<Rightarrow> (Ok (), set_sponsor_stake l' m s remaining))))"

definition slash_sponsor_stake :: "escrow_ledger \<Rightarrow> market_id \<Rightarrow> sponsor_id \<Rightarrow> amount \<Rightarrow> escrow_result" where
  "slash_sponsor_stake l m s x =
     (case non_negative x of
        Inl e \<Rightarrow> (Err e, l)
      | Inr _ \<Rightarrow>
          let cur = sponsor_stake l m s in
          if cur < x then (Err InsufficientEscrow, l)
          else
            (case scalar_checked_sub I128 cur x of
               Inl e \<Rightarrow> (Err (EscrowArith e), l)
             | Inr remaining \<Rightarrow>
                 (case scalar_checked_add I128 (el_insurance l) x of
                    Inl e \<Rightarrow> (Err (EscrowArith e), l)
                  | Inr insurance \<Rightarrow>
                      (Ok (), set_sponsor_stake (l\<lparr>el_insurance := insurance\<rparr>) m s remaining))))"

definition lock_bootstrap :: "escrow_ledger \<Rightarrow> market_id \<Rightarrow> account_id \<Rightarrow> amount \<Rightarrow> escrow_result" where
  "lock_bootstrap l m funder x =
     (case plan_lock l funder (bootstrap l m) x of
        Inl e \<Rightarrow> (Err e, l)
      | Inr nxt \<Rightarrow>
          (case debit_available l funder x of
             (Inl e, l') \<Rightarrow> (Err e, l')
           | (Inr _, l') \<Rightarrow> (Ok (), l'\<lparr>el_bootstrap := omap_put m nxt (el_bootstrap l')\<rparr>)))"

definition lock_complete_set :: "escrow_ledger \<Rightarrow> market_id \<Rightarrow> account_id \<Rightarrow> amount \<Rightarrow> escrow_result" where
  "lock_complete_set l m funder x =
     (case plan_lock l funder (complete_set l m) x of
        Inl e \<Rightarrow> (Err e, l)
      | Inr nxt \<Rightarrow>
          (case debit_available l funder x of
             (Inl e, l') \<Rightarrow> (Err e, l')
           | (Inr _, l') \<Rightarrow> (Ok (), l'\<lparr>el_complete_set := omap_put m nxt (el_complete_set l')\<rparr>)))"

definition release_complete_set :: "escrow_ledger \<Rightarrow> market_id \<Rightarrow> account_id \<Rightarrow> amount \<Rightarrow> escrow_result" where
  "release_complete_set l m receiver x =
     (case non_negative x of
        Inl e \<Rightarrow> (Err e, l)
      | Inr _ \<Rightarrow>
          let cur = complete_set l m in
          if cur < x then (Err InsufficientEscrow, l)
          else
            (case scalar_checked_sub I128 cur x of
               Inl e \<Rightarrow> (Err (EscrowArith e), l)
             | Inr remaining \<Rightarrow>
                 (case credit_available l receiver x of
                    (Inl e, l') \<Rightarrow> (Err e, l')
                  | (Inr _, l') \<Rightarrow> (Ok (), set_complete_set l' m remaining))))"

definition settle_complete_set :: "escrow_ledger \<Rightarrow> market_id \<Rightarrow> amount \<Rightarrow> amount \<Rightarrow> escrow_result" where
  "settle_complete_set l m credited dust =
     (case and_then (non_negative credited) (\<lambda>_. and_then (non_negative dust) (\<lambda>_.
            map_err EscrowArith (scalar_checked_add I128 credited dust))) of
        Inl e \<Rightarrow> (Err e, l)
      | Inr both \<Rightarrow>
          if both \<noteq> complete_set l m then (Err Reconciliation, l)
          else
            (case scalar_checked_add I128 (el_protocol l) credited of
               Inl e \<Rightarrow> (Err (EscrowArith e), l)
             | Inr protocol \<Rightarrow>
                 (case scalar_checked_add I128 (el_dust l) dust of
                    Inl e \<Rightarrow> (Err (EscrowArith e), l)
                  | Inr dust_acct \<Rightarrow>
                      (Ok (), set_complete_set (l\<lparr>el_protocol := protocol, el_dust := dust_acct\<rparr>) m 0))))"

fun sum_checked :: "amount \<Rightarrow> amount list \<Rightarrow> amount option" where
  "sum_checked acc [] = Some acc"
| "sum_checked acc (v # vs) =
     (case scalar_checked_add I128 acc v of Inl _ \<Rightarrow> None | Inr s \<Rightarrow> sum_checked s vs)"

definition conservation_holds :: "escrow_ledger \<Rightarrow> bool" where
  "conservation_holds l =
     (case sum_checked 0
        (map snd (entries (el_available l)) @ map snd (entries (el_sponsor_stake l)) @
         map snd (entries (el_bootstrap l)) @ map snd (entries (el_complete_set l)) @
         [el_insurance l, el_protocol l, el_dust l]) of
        None \<Rightarrow> False
      | Some s \<Rightarrow> s = el_total_supply l)"

section \<open>Books of balances\<close>

locale balance_book =
  fixes bal :: "'m \<Rightarrow> 'k \<Rightarrow> int"
    and store :: "'k \<Rightarrow> int \<Rightarrow> 'm \<Rightarrow> 'm"
    and held :: "'m \<Rightarrow> int"
    and nonneg :: "'m \<Rightarrow> bool"
  assumes held_store: "held (store k v m) = held m + v - bal m k"
    and nonneg_store: "nonneg m \<Longrightarrow> 0 \<le> v \<Longrightarrow> nonneg (store k v m)"
    and bal_nonneg: "nonneg m \<Longrightarrow> 0 \<le> bal m k"
    and bal_le_held: "nonneg m \<Longrightarrow> bal m k \<le> held m"
begin

text \<open>Paying into a balance and paying out of it move the amount into and out of the book.\<close>

lemma pay_in: "nonneg m \<Longrightarrow> 0 \<le> x \<Longrightarrow> nonneg (store k (bal m k + x) m) \<and> held (store k (bal m k + x) m) = held m + x"
  using bal_nonneg [of m k] by (simp add: held_store nonneg_store)

lemma pay_out: "nonneg m \<Longrightarrow> x \<le> bal m k \<Longrightarrow> nonneg (store k (bal m k - x) m) \<and> held (store k (bal m k - x) m) = held m - x"
  by (simp add: held_store nonneg_store)

lemma held_nonneg: "nonneg m \<Longrightarrow> 0 \<le> held m"
  using bal_nonneg bal_le_held order_trans by blast

lemma pay_out_fits: "nonneg m \<Longrightarrow> fits w (held m) \<Longrightarrow> 0 \<le> x \<Longrightarrow> x \<le> bal m k \<Longrightarrow> fits w (bal m k - x)"
  using bal_le_held [of m k] by (auto elim: fits_nonneg_le)

end

definition omap_sum :: "('k::linorder, amount) omap \<Rightarrow> amount" where
  "omap_sum m = sum_list (map snd (entries m))"

definition omap_nonneg :: "('k::linorder, amount) omap \<Rightarrow> bool" where
  "omap_nonneg m = list_all (\<lambda>e. 0 \<le> snd e) (entries m)"

lemma map_of_below: "ascending es \<Longrightarrow> \<forall>e \<in> set es. k < fst e \<Longrightarrow> map_of es k = None"
  by (induction es) auto

lemma sum_al_put:
  "ascending es \<Longrightarrow> sum_list (map snd (al_put k v es)) =
     sum_list (map snd es) + v - (case map_of es k of None \<Rightarrow> 0 | Some w \<Rightarrow> (w :: int))"
proof (induction es)
  case (Cons e es)
  consider "k < fst e" | "fst e < k" | "k = fst e" by fastforce
  then show ?case
  proof cases
    case 1
    then have "map_of (e # es) k = None"
      using Cons.prems by (intro map_of_below) auto
    with 1 show ?thesis by simp
  qed (use Cons in \<open>auto split: option.splits\<close>)
qed simp

lemma sum_al_remove:
  "ascending es \<Longrightarrow> sum_list (map snd (al_remove k es)) =
     sum_list (map snd es) - (case map_of es k of None \<Rightarrow> 0 | Some w \<Rightarrow> (w :: int))"
proof (induction es)
  case (Cons e es)
  have "al_remove k es = es" "map_of es k = None" if "fst e = k"
    using that Cons.prems by (auto simp: al_remove_def map_of_below intro!: filter_True)
  with Cons show ?case
    by (cases "fst e = k") (auto simp: al_remove_def split: option.splits)
qed (simp add: al_remove_def)

lemma omap_sum_put: "omap_sum (omap_put k v m) = omap_sum m + v - amount_of m k"
  by (simp add: omap_sum_def amount_of_def omap_get_def sum_al_put)

lemma omap_sum_remove: "omap_sum (omap_remove k m) = omap_sum m - amount_of m k"
  by (simp add: omap_sum_def amount_of_def omap_get_def sum_al_remove)

lemma omap_nonneg_get: "omap_nonneg m \<longleftrightarrow> (\<forall>k v. omap_get m k = Some v \<longrightarrow> 0 \<le> v)"
  using om.in_iter_iff [of _ _ m] by (fastforce simp: omap_nonneg_def list_all_iff)

lemma amount_of_nonneg: "omap_nonneg m \<Longrightarrow> 0 \<le> amount_of m k"
  by (auto simp: amount_of_def omap_nonneg_get split: option.splits)

lemma amount_of_le_sum:
  assumes "omap_nonneg m"
  shows "amount_of m k \<le> omap_sum m"
proof -
  have "omap_nonneg (omap_remove k m)" using assms by (auto simp: omap_nonneg_get split: if_splits)
  then have "0 \<le> omap_sum (omap_remove k m)"
    unfolding omap_sum_def omap_nonneg_def by (intro sum_list_nonneg) (auto simp: list_all_iff)
  then show ?thesis by (simp add: omap_sum_remove)
qed

interpretation put_book: balance_book amount_of omap_put omap_sum omap_nonneg
  by unfold_locales
    (auto simp: omap_sum_put amount_of_nonneg amount_of_le_sum omap_nonneg_get split: if_splits)

interpretation set_book: balance_book amount_of set_amount omap_sum omap_nonneg
  by unfold_locales
    (auto simp: set_amount_def omap_sum_put omap_sum_remove amount_of_nonneg amount_of_le_sum omap_nonneg_get
      split: if_splits)

section \<open>Conservation\<close>

definition escrow_held :: "escrow_ledger \<Rightarrow> amount" where
  "escrow_held l = omap_sum (el_available l) + omap_sum (el_sponsor_stake l) + omap_sum (el_bootstrap l) +
     omap_sum (el_complete_set l) + el_insurance l + el_protocol l + el_dust l"

definition escrow_ok :: "escrow_ledger \<Rightarrow> bool" where
  "escrow_ok l \<longleftrightarrow> omap_nonneg (el_available l) \<and> omap_nonneg (el_sponsor_stake l) \<and> omap_nonneg (el_bootstrap l) \<and>
     omap_nonneg (el_complete_set l) \<and> 0 \<le> el_insurance l \<and> 0 \<le> el_protocol l \<and> 0 \<le> el_dust l \<and>
     escrow_held l = el_total_supply l \<and> fits I128 (el_total_supply l)"

lemma sum_checked_nonneg:
  assumes "0 \<le> acc" and "\<forall>v \<in> set vs. 0 \<le> v" and "fits I128 (acc + sum_list vs)"
  shows "sum_checked acc vs = Some (acc + sum_list vs)"
  using assms
proof (induction vs arbitrary: acc)
  case (Cons v vs)
  have "0 \<le> sum_list vs" using Cons.prems(2) by (intro sum_list_nonneg) simp
  then have "fits I128 (acc + v)"
    using Cons.prems by (intro fits_nonneg_le [OF Cons.prems(3)]) simp_all
  then show ?case
    using Cons.IH [of "acc + v"] Cons.prems by (simp add: i128.add_law add.assoc)
qed simp

lemma escrow_ok_conservation: "escrow_ok l \<Longrightarrow> conservation_holds l"
proof -
  assume ok: "escrow_ok l"
  let ?vs = "map snd (entries (el_available l)) @ map snd (entries (el_sponsor_stake l)) @
    map snd (entries (el_bootstrap l)) @ map snd (entries (el_complete_set l)) @
    [el_insurance l, el_protocol l, el_dust l]"
  have "sum_list ?vs = el_total_supply l"
    using ok by (simp add: escrow_ok_def escrow_held_def omap_sum_def)
  moreover have "\<forall>v \<in> set ?vs. 0 \<le> v"
    using ok by (auto simp: escrow_ok_def omap_nonneg_def list_all_iff)
  ultimately show ?thesis
    using sum_checked_nonneg [of 0 ?vs] ok unfolding conservation_holds_def by (simp add: escrow_ok_def)
qed

text \<open>What an operation does to a sound ledger: fail without a trace, or move the total supply by \<open>d\<close>.\<close>

definition moves :: "amount \<Rightarrow> escrow_ledger \<Rightarrow> escrow_result \<Rightarrow> bool" where
  "moves d l r \<longleftrightarrow>
     (case r of
        (Inl _, l') \<Rightarrow> l' = l
      | (Inr _, l') \<Rightarrow> escrow_ok l' \<and> el_total_supply l' = el_total_supply l + d)"

lemma moves_simps [simp]:
  "moves d l (Inl e, l') \<longleftrightarrow> l' = l"
  "moves d l (Inr u, l') \<longleftrightarrow> escrow_ok l' \<and> el_total_supply l' = el_total_supply l + d"
  by (simp_all add: moves_def)

text \<open>No two buckets together hold more than the total supply.\<close>

lemma escrow_bounds:
  assumes "escrow_ok l"
  shows "0 \<le> amount_of (el_available l) a" and "0 \<le> amount_of (el_sponsor_stake l) ms"
    and "0 \<le> amount_of (el_bootstrap l) m" and "0 \<le> amount_of (el_complete_set l) m"
    and "amount_of (el_available l) a + amount_of (el_sponsor_stake l) ms \<le> el_total_supply l"
    and "amount_of (el_available l) a + amount_of (el_bootstrap l) m \<le> el_total_supply l"
    and "amount_of (el_available l) a + amount_of (el_complete_set l) m \<le> el_total_supply l"
    and "amount_of (el_sponsor_stake l) ms + el_insurance l \<le> el_total_supply l"
    and "amount_of (el_complete_set l) m + el_protocol l \<le> el_total_supply l"
    and "amount_of (el_complete_set l) m + el_dust l \<le> el_total_supply l"
proof -
  have ok: "omap_nonneg (el_available l)" "omap_nonneg (el_sponsor_stake l)" "omap_nonneg (el_bootstrap l)"
    "omap_nonneg (el_complete_set l)" "0 \<le> el_insurance l" "0 \<le> el_protocol l" "0 \<le> el_dust l"
    "escrow_held l = el_total_supply l"
    using assms by (simp_all add: escrow_ok_def)
  show "0 \<le> amount_of (el_available l) a" "0 \<le> amount_of (el_sponsor_stake l) ms"
    "0 \<le> amount_of (el_bootstrap l) m" "0 \<le> amount_of (el_complete_set l) m"
    using ok by (simp_all add: amount_of_nonneg)
  note parts = ok(5-8) put_book.held_nonneg [OF ok(1)] put_book.held_nonneg [OF ok(2)]
    put_book.held_nonneg [OF ok(3)] put_book.held_nonneg [OF ok(4)]
    amount_of_le_sum [OF ok(1), of a] amount_of_le_sum [OF ok(2), of ms] amount_of_le_sum [OF ok(3), of m]
    amount_of_le_sum [OF ok(4), of m]
  show "amount_of (el_available l) a + amount_of (el_sponsor_stake l) ms \<le> el_total_supply l"
    "amount_of (el_available l) a + amount_of (el_bootstrap l) m \<le> el_total_supply l"
    "amount_of (el_available l) a + amount_of (el_complete_set l) m \<le> el_total_supply l"
    "amount_of (el_sponsor_stake l) ms + el_insurance l \<le> el_total_supply l"
    "amount_of (el_complete_set l) m + el_protocol l \<le> el_total_supply l"
    "amount_of (el_complete_set l) m + el_dust l \<le> el_total_supply l"
    using parts by (simp_all add: escrow_held_def)
qed

lemma escrow_fits:
  assumes "escrow_ok l" and "0 \<le> x" and "x \<le> el_total_supply l"
  shows "fits I128 x"
  using assms by (auto simp: escrow_ok_def elim: fits_nonneg_le)

lemma available_le_supply: "escrow_ok l \<Longrightarrow> amount_of (el_available l) a \<le> el_total_supply l"
  using escrow_bounds(3) [of l undefined] escrow_bounds(6) [of l a undefined] by linarith

lemma debit_available_eq:
  assumes "escrow_ok l"
  shows "debit_available l a x =
    (if x < 0 then (Err NegativeAmount, l)
     else case omap_get (el_available l) a of
       None \<Rightarrow> (Err UnknownAccount, l)
     | Some bal \<Rightarrow>
         if bal < x then (Err (InsufficientAvailable x bal), l)
         else (Ok (), l\<lparr>el_available := omap_put a (amount_of (el_available l) a - x) (el_available l)\<rparr>))"
proof -
  have "fits I128 (amount_of (el_available l) a - x)" if "0 \<le> x" "x \<le> amount_of (el_available l) a"
    using that available_le_supply [OF assms, of a]
    by (intro escrow_fits [OF assms]) simp_all
  then show ?thesis
    by (cases "x < 0") (auto simp: debit_available_def non_negative_def amount_of_def i128.sub_law split: option.splits)
qed

lemma credit_available_eq:
  assumes "escrow_ok l" and "0 \<le> x" and "amount_of (el_available l) a + x \<le> el_total_supply l"
  shows "credit_available l a x =
    (Ok (), l\<lparr>el_available := omap_put a (amount_of (el_available l) a + x) (el_available l)\<rparr>)"
proof -
  have "fits I128 (amount_of (el_available l) a + x)"
    using assms escrow_bounds(1) [OF assms(1), of a] by (intro escrow_fits [OF assms(1)]) simp_all
  then show ?thesis
    using assms(2) by (simp add: credit_available_def non_negative_def i128.add_law)
qed

lemmas escrow_sums = escrow_ok_def escrow_held_def omap_sum_put set_book.held_store
lemmas escrow_stores = put_book.nonneg_store set_book.nonneg_store

lemma deposit_moves:
  assumes "escrow_ok l" and "0 \<le> x \<Longrightarrow> fits I128 (el_total_supply l + x)"
  shows "moves x l (deposit l a x)"
proof (cases "x < 0")
  case False
  have "0 \<le> amount_of (el_available l) a" "amount_of (el_available l) a \<le> el_total_supply l"
    using escrow_bounds(1) [OF assms(1)] available_le_supply [OF assms(1)] by blast+
  then have "fits I128 (amount_of (el_available l) a + x)"
    using False assms(2) by (auto elim!: fits_nonneg_le)
  then show ?thesis
    using False assms by (simp add: deposit_def non_negative_def i128.add_law escrow_sums escrow_stores amount_of_nonneg)
qed (simp add: deposit_def non_negative_def)

lemma withdraw_moves:
  assumes "escrow_ok l"
  shows "moves (- x) l (withdraw l a x)"
proof (cases "0 \<le> x \<and> (\<exists>bal. omap_get (el_available l) a = Some bal \<and> x \<le> bal)")
  case True
  then have x: "0 \<le> x" "x \<le> amount_of (el_available l) a" by (auto simp: amount_of_def)
  then have "fits I128 (el_total_supply l - x)"
    using available_le_supply [OF assms, of a] by (intro escrow_fits [OF assms]) linarith+
  then show ?thesis
    using True x assms
    by (auto simp: withdraw_def debit_available_eq [OF assms] i128.sub_law escrow_sums escrow_stores)
next
  case False
  then show ?thesis
    by (auto simp: withdraw_def debit_available_eq [OF assms] split: option.splits)
qed

section \<open>Transfers\<close>

lemma amount_of_Some: "omap_get m k = Some v \<Longrightarrow> amount_of m k = v"
  by (simp add: amount_of_def)

lemma plan_lock_eq:
  assumes "escrow_ok l" and "amount_of (el_available l) funder + cur \<le> el_total_supply l" and "0 \<le> cur"
  shows "plan_lock l funder cur x =
    (if x < 0 then Err NegativeAmount
     else case omap_get (el_available l) funder of
       None \<Rightarrow> Err UnknownAccount
     | Some bal \<Rightarrow> if bal < x then Err (InsufficientAvailable x bal) else Ok (cur + x))"
proof -
  have "fits I128 (cur + x)" if "0 \<le> x" "x \<le> amount_of (el_available l) funder"
    using that assms(2,3) by (intro escrow_fits [OF assms(1)]) linarith+
  then show ?thesis
    by (cases "x < 0") (auto simp: plan_lock_def non_negative_def available_def amount_of_def i128.add_law split: option.splits)
qed

lemma lock_sponsor_stake_moves:
  assumes "escrow_ok l"
  shows "moves 0 l (lock_sponsor_stake l m s a x)"
  unfolding lock_sponsor_stake_def sponsor_stake_def debit_available_eq [OF assms]
    plan_lock_eq [OF assms escrow_bounds(5) [OF assms] escrow_bounds(2) [OF assms]]
  using assms escrow_bounds(2) [OF assms, of "(m, s)"]
  by (auto simp: escrow_sums escrow_stores amount_of_Some split: option.splits)

lemma lock_bootstrap_moves:
  assumes "escrow_ok l"
  shows "moves 0 l (lock_bootstrap l m a x)"
  unfolding lock_bootstrap_def bootstrap_def debit_available_eq [OF assms]
    plan_lock_eq [OF assms escrow_bounds(6) [OF assms] escrow_bounds(3) [OF assms]]
  using assms escrow_bounds(3) [OF assms, of m]
  by (auto simp: escrow_sums escrow_stores amount_of_Some split: option.splits)

lemma lock_complete_set_moves:
  assumes "escrow_ok l"
  shows "moves 0 l (lock_complete_set l m a x)"
  unfolding lock_complete_set_def complete_set_def debit_available_eq [OF assms]
    plan_lock_eq [OF assms escrow_bounds(7) [OF assms] escrow_bounds(4) [OF assms]]
  using assms escrow_bounds(4) [OF assms, of m]
  by (auto simp: escrow_sums escrow_stores amount_of_Some split: option.splits)

lemma release_sponsor_stake_moves:
  assumes ok: "escrow_ok l"
  shows "moves 0 l (release_sponsor_stake l m s a x)"
proof (cases "0 \<le> x \<and> x \<le> amount_of (el_sponsor_stake l) (m, s)")
  case True
  note b = escrow_bounds(5) [OF ok, of a "(m, s)"] escrow_bounds(1) [OF ok, of a]
  have "fits I128 (amount_of (el_sponsor_stake l) (m, s) - x)"
    using True b by (intro escrow_fits [OF ok]) linarith+
  moreover have "credit_available l a x =
      (Ok (), l\<lparr>el_available := omap_put a (amount_of (el_available l) a + x) (el_available l)\<rparr>)"
    using True b by (intro credit_available_eq [OF ok]) linarith+
  ultimately show ?thesis
    using True b ok by (simp add: release_sponsor_stake_def sponsor_stake_def non_negative_def set_sponsor_stake_def
        i128.sub_law escrow_sums escrow_stores)
qed (auto simp: release_sponsor_stake_def sponsor_stake_def non_negative_def)

lemma release_complete_set_moves:
  assumes ok: "escrow_ok l"
  shows "moves 0 l (release_complete_set l m a x)"
proof (cases "0 \<le> x \<and> x \<le> amount_of (el_complete_set l) m")
  case True
  note b = escrow_bounds(7) [OF ok, of a m] escrow_bounds(1) [OF ok, of a]
  have "fits I128 (amount_of (el_complete_set l) m - x)"
    using True b by (intro escrow_fits [OF ok]) linarith+
  moreover have "credit_available l a x =
      (Ok (), l\<lparr>el_available := omap_put a (amount_of (el_available l) a + x) (el_available l)\<rparr>)"
    using True b by (intro credit_available_eq [OF ok]) linarith+
  ultimately show ?thesis
    using True b ok by (simp add: release_complete_set_def complete_set_def non_negative_def set_complete_set_def
        i128.sub_law escrow_sums escrow_stores)
qed (auto simp: release_complete_set_def complete_set_def non_negative_def)

lemma slash_sponsor_stake_moves:
  assumes ok: "escrow_ok l"
  shows "moves 0 l (slash_sponsor_stake l m s x)"
proof (cases "0 \<le> x \<and> x \<le> amount_of (el_sponsor_stake l) (m, s)")
  case True
  have nn: "0 \<le> el_insurance l"
    using ok by (simp add: escrow_ok_def)
  note b = escrow_bounds(8) [OF ok, of "(m, s)"]
  have "fits I128 (amount_of (el_sponsor_stake l) (m, s) - x)" "fits I128 (el_insurance l + x)"
    using True b nn by (intro escrow_fits [OF ok]; linarith)+
  then show ?thesis
    using True nn ok by (simp add: slash_sponsor_stake_def sponsor_stake_def non_negative_def set_sponsor_stake_def
        i128.sub_law i128.add_law escrow_sums escrow_stores)
qed (auto simp: slash_sponsor_stake_def sponsor_stake_def non_negative_def)

lemma settle_complete_set_moves:
  assumes ok: "escrow_ok l"
  shows "moves 0 l (settle_complete_set l m credited d)"
proof (cases "0 \<le> credited \<and> 0 \<le> d \<and> credited + d = amount_of (el_complete_set l) m")
  case True
  have nn: "0 \<le> el_protocol l" "0 \<le> el_dust l"
    using ok by (simp_all add: escrow_ok_def)
  note b = escrow_bounds(9) [OF ok, of m] escrow_bounds(10) [OF ok, of m]
  have "fits I128 (credited + d)" "fits I128 (el_protocol l + credited)" "fits I128 (el_dust l + d)"
    using True b nn by (intro escrow_fits [OF ok]; linarith)+
  then show ?thesis
    using True nn ok by (simp add: settle_complete_set_def complete_set_def non_negative_def set_complete_set_def
        i128.add_law escrow_sums escrow_stores)
next
  case False
  then show ?thesis
    by (auto simp: settle_complete_set_def complete_set_def non_negative_def i128.add_law)
qed

section \<open>Every run conserves value\<close>

datatype escrow_op =
    Deposit account_id amount
  | Withdraw account_id amount
  | LockStake market_id sponsor_id account_id amount
  | ReleaseStake market_id sponsor_id account_id amount
  | SlashStake market_id sponsor_id amount
  | LockBootstrap market_id account_id amount
  | LockSet market_id account_id amount
  | ReleaseSet market_id account_id amount
  | SettleSet market_id amount amount

fun escrow_apply :: "escrow_op \<Rightarrow> escrow_ledger \<Rightarrow> escrow_result" where
  "escrow_apply (Deposit a x) l = deposit l a x"
| "escrow_apply (Withdraw a x) l = withdraw l a x"
| "escrow_apply (LockStake m s a x) l = lock_sponsor_stake l m s a x"
| "escrow_apply (ReleaseStake m s a x) l = release_sponsor_stake l m s a x"
| "escrow_apply (SlashStake m s x) l = slash_sponsor_stake l m s x"
| "escrow_apply (LockBootstrap m a x) l = lock_bootstrap l m a x"
| "escrow_apply (LockSet m a x) l = lock_complete_set l m a x"
| "escrow_apply (ReleaseSet m a x) l = release_complete_set l m a x"
| "escrow_apply (SettleSet m c d) l = settle_complete_set l m c d"

fun supply_change :: "escrow_op \<Rightarrow> amount" where
  "supply_change (Deposit a x) = x"
| "supply_change (Withdraw a x) = - x"
| "supply_change op = 0"

fun escrow_run :: "escrow_op list \<Rightarrow> escrow_ledger \<Rightarrow> (unit, escrow_error) result list \<times> escrow_ledger" where
  "escrow_run [] l = ([], l)"
| "escrow_run (op # ops) l =
     (let (r, l1) = escrow_apply op l; (rs, l2) = escrow_run ops l1 in (r # rs, l2))"

fun deposited :: "escrow_op list \<Rightarrow> amount" where
  "deposited [] = 0"
| "deposited (Deposit a x # ops) = max 0 x + deposited ops"
| "deposited (op # ops) = deposited ops"

text \<open>The changes of supply that the successful operations of a run stand for.\<close>

fun supply_changes :: "escrow_op list \<Rightarrow> (unit, escrow_error) result list \<Rightarrow> amount" where
  "supply_changes (op # ops) (Inr u # rs) = supply_change op + supply_changes ops rs"
| "supply_changes (op # ops) (Inl e # rs) = supply_changes ops rs"
| "supply_changes ops rs = 0"

lemmas escrow_moves = deposit_moves withdraw_moves lock_sponsor_stake_moves release_sponsor_stake_moves
  slash_sponsor_stake_moves lock_bootstrap_moves lock_complete_set_moves release_complete_set_moves
  settle_complete_set_moves

lemma escrow_apply_moves:
  assumes "escrow_ok l" and "\<And>a x. op = Deposit a x \<Longrightarrow> 0 \<le> x \<Longrightarrow> fits I128 (el_total_supply l + x)"
  shows "moves (supply_change op) l (escrow_apply op l)"
  using assms by (cases op) (simp_all add: escrow_moves)

lemma deposited_nonneg: "0 \<le> deposited ops"
  by (induction ops rule: deposited.induct) simp_all

lemma escrow_new_ok: "escrow_ok escrow_new"
  by (simp add: escrow_ok_def escrow_new_def escrow_held_def omap_sum_def omap_nonneg_def fits_def)

lemma deposited_Cons: "deposited (op # ops) = deposited [op] + deposited ops"
  by (cases op) simp_all

lemma supply_change_le:
  assumes "escrow_apply op l = (Inr u, l')"
  shows "supply_change op \<le> deposited [op]"
proof (cases op)
  case (Withdraw a x)
  then have "\<not> x < 0"
    using assms by (auto simp: withdraw_def debit_available_def non_negative_def)
  with Withdraw show ?thesis by simp
qed simp_all

lemma escrow_run_ok:
  assumes "escrow_ok l" and "fits I128 (el_total_supply l + deposited ops)" and "escrow_run ops l = (rs, l')"
  shows "escrow_ok l' \<and> el_total_supply l' = el_total_supply l + supply_changes ops rs"
  using assms
proof (induction ops arbitrary: l rs)
  case (Cons op ops)
  obtain r l1 rs' where run: "escrow_apply op l = (r, l1)" "escrow_run ops l1 = (rs', l')" "rs = r # rs'"
    using Cons.prems(3) by (auto simp: Let_def split: prod.splits)
  have total: "0 \<le> el_total_supply l"
    using available_le_supply [OF Cons.prems(1)] escrow_bounds(1) [OF Cons.prems(1)] order_trans by blast
  have le: "0 \<le> deposited [op]" "deposited (op # ops) = deposited [op] + deposited ops"
    by (rule deposited_nonneg, rule deposited_Cons)
  have "fits I128 (el_total_supply l + x)" if "op = Deposit a x" "0 \<le> x" for a x
    using Cons.prems(2) that deposited_nonneg [of ops] total by (auto elim!: fits_nonneg_le)
  then have moved: "moves (supply_change op) l (r, l1)"
    using escrow_apply_moves [OF Cons.prems(1)] run(1) by metis
  show ?case
  proof (cases r)
    case (Inl e)
    moreover have "fits I128 (el_total_supply l + deposited ops)"
      using le total deposited_nonneg [of ops] by (intro fits_nonneg_le [OF Cons.prems(2)]) linarith+
    ultimately show ?thesis
      using Cons.IH [of l rs'] Cons.prems(1) moved run by simp
  next
    case (Inr u)
    then have l1: "escrow_ok l1" "el_total_supply l1 = el_total_supply l + supply_change op"
      using moved by simp_all
    have "0 \<le> el_total_supply l1"
      using available_le_supply [OF l1(1)] escrow_bounds(1) [OF l1(1)] order_trans by blast
    then have "fits I128 (el_total_supply l1 + deposited ops)"
      using le l1(2) deposited_nonneg [of ops] supply_change_le [OF run(1) [unfolded Inr]] by (intro fits_nonneg_le [OF Cons.prems(2)]) linarith+
    then show ?thesis
      using Cons.IH [OF l1(1) _ run(2)] run(3) Inr l1(2) by simp
  qed
qed simp

text \<open>Value is conserved. Run any operations on a new ledger, successful or not, whose deposits together fit an
  \<open>i128\<close>: the ledger passes its own conservation check, the total supply is the deposits less the
  withdrawals that succeeded, and an operation that fails then leaves the ledger exactly as it was, unless it is
  a deposit for which the supply has no room.\<close>

theorem escrow_conserves:
  assumes "escrow_run ops escrow_new = (rs, l)" and "fits I128 (deposited ops)"
  shows "conservation_holds l \<and> el_total_supply l = supply_changes ops rs \<and>
    (\<forall>op. fits I128 (el_total_supply l + deposited [op]) \<longrightarrow>
       (\<exists>r l'. escrow_apply op l = (r, l') \<and>
         (if is_ok r then el_total_supply l' = el_total_supply l + supply_change op else l' = l)))"
proof -
  have l: "escrow_ok l" "el_total_supply l = supply_changes ops rs"
    using escrow_run_ok [OF escrow_new_ok _ assms(1)] assms(2) by (simp_all add: escrow_new_def)
  have "\<exists>r l'. escrow_apply op l = (r, l') \<and>
      (if is_ok r then el_total_supply l' = el_total_supply l + supply_change op else l' = l)"
    if "fits I128 (el_total_supply l + deposited [op])" for op
  proof -
    obtain r l' where run: "escrow_apply op l = (r, l')" by fastforce
    have "moves (supply_change op) l (r, l')"
      using that unfolding run [symmetric] by (intro escrow_apply_moves [OF l(1)]) (simp add: max_def)
    then show ?thesis using run by (cases r) auto
  qed
  then show ?thesis
    using l escrow_ok_conservation by blast
qed

text \<open>A deposit that overflows the total supply reports an error after the balance is written: the value stays
  credited to the account and the ledger no longer balances.\<close>

lemma deposit_overflow_unbalances:
  "\<exists>l l' e. escrow_run [Deposit 1 (int_max I128)] escrow_new = ([Ok ()], l) \<and> conservation_holds l \<and>
     deposit l 2 1 = (Err e, l') \<and> available l' 2 = Ok 1 \<and> el_total_supply l' = el_total_supply l \<and>
     \<not> conservation_holds l'"
  by (simp add: deposit_def escrow_new_def non_negative_def amount_of_def scalar_checked_add_def prim_checked_def
      conservation_holds_def available_def fits_def Let_def)

end
