(* ===== verification/Spec2Isabelle.thy ===== *)
theory Spec2Isabelle
  imports PlanClaims ConditionalOrders ConditionalWire StateClaims LeafCodec OrderKinds Payout Escrow
begin

text \<open>
  A verification library for the deterministic core of dexos: the matching engine of
  \<open>src/crates/orderbook\<close> with the arithmetic of \<open>src/crates/types\<close> below it, the vector kernel of
  \<open>src/crates/simd\<close> it plans with, the state commitments of \<open>src/crates/crypto\<close> and
  \<open>src/crates/state-tree\<close>, and the settlement and escrow arithmetic of \<open>src/crates/markets\<close>.

  \<^bold>\<open>The program.\<close> An \<open>OrderBook\<close> keeps resting orders in a slab (a fixed-capacity arena with a free list).
  Each side is an ordered map from price to a level, and a level is an intrusive doubly-linked FIFO through
  the slab. An id index, sorted id lists per account and an XOR aggregate of leaf hashes are maintained beside
  it. Commands match an incoming order against the other side in price-time order, rest what is left,
  cancel, replace, or apply a basket atomically; \<open>submit\<close> remembers recent results so that a retry is
  answered from the cache. A planner predicts the fills of an order with scalar or vector arithmetic. The
  whole book can be written to a canonical byte image and restored from it. A conditional engine in front of
  the book turns mark-price ticks into orders. Account and market leaves are committed to in Merkle trees
  per shard. Outcome markets lock collateral in complete sets and settle them along payout vectors; the escrow
  ledger holds every balance.

  \<^bold>\<open>Conventions.\<close> A Rust \<open>Result\<close> is a sum (\<open>Ok\<close> is \<open>Inr\<close>, \<open>Err\<close> is \<open>Inl\<close>). A call that may panic or loop
  forever is in \<open>option\<close>, with \<open>None\<close> for not returning; the theorems prove that it does return. Mutation is
  state passing, and a failing operation returns the state it leaves. Machine integers are \<open>int\<close> or \<open>nat\<close>
  with the width written out in every checked or saturating operation (\<open>prim_checked\<close>, \<open>prim_saturate\<close>,
  \<open>fits\<close>); lanes and digests are words. There is no fuel: a loop whose end
  depends on the data (the walks along a level, the matching loops, the planner's walk) is a
  \<open>partial_function\<close> in \<open>option\<close>, and the theorems show that it returns on every reachable book; the bounded
  loops are terminating functions. SHA-256 is the parameter \<open>sha\<close>;
  no theorem assumes anything of it, and soundness of proofs is stated with an explicit pair of
  colliding inputs.

  \<^bold>\<open>Theories.\<close>
  \<^item> \<open>Prelude\<close>, \<open>Omap\<close>, \<open>Hashing\<close>: results, integer widths, byte strings; ordered maps (\<open>BTreeMap\<close>, locale
    \<open>ordered_map\<close>); \<open>crypto/src/hash.rs\<close>, \<open>domain.rs\<close>.
  \<^item> \<open>Fixed\<close>, \<open>Errors\<close>, \<open>Orders\<close>: \<open>types/src/fixed.rs\<close>, \<open>ids.rs\<close>, \<open>domain.rs\<close>; \<open>orderbook/src/error.rs\<close>,
    \<open>state.rs\<close>, \<open>order.rs\<close>. Scalar laws are the locale \<open>checked_scalar\<close>, interpreted for 64 and 128 bits.
  \<^item> \<open>Slab\<close>, \<open>Dedup\<close>, \<open>Level\<close>: \<open>slab.rs\<close> (locale \<open>arena\<close>), \<open>dedup.rs\<close> (locale \<open>replay_cache\<close>), \<open>level.rs\<close>.
    \<open>LevelRep\<close> (locale \<open>link_store\<close>), \<open>Priority\<close> and \<open>LevelScan\<close> relate the links to FIFO queues and these to
    one list of orders, best first.
  \<^item> \<open>Book\<close>: the commands and queries of \<open>book.rs\<close>. \<open>BookIndex\<close> and \<open>BookRep\<close>: its invariant.
  \<^item> \<open>MatchSpec\<close>, \<open>Clob\<close>: the abstract matcher and the abstract book, two lists of orders with one function
    per command. \<open>Matching\<close>, \<open>BookRefine\<close>, \<open>Commands\<close>: the book refines it, command by command.
    \<open>Reachable\<close>: the step relation of the commands and the invariant of every reachable book; \<open>Unchanged\<close>:
    errors leave the representation bit for bit as it was.
  \<^item> \<open>ClobLaws\<close>, \<open>BookQueries\<close>, \<open>MarketRules\<close>, \<open>OrderKinds\<close>, \<open>BookSafety\<close>: the market rules, order types,
    time in force, replays, errors and queries on every reachable book; \<open>BookExample\<close> has the concrete book the
    witnesses use.
  \<^item> \<open>SimdKernel\<close>: \<open>simd/src/matching.rs\<close>, \<open>backend.rs\<close>. \<open>Planner\<close>, \<open>PlanRefine\<close>, \<open>PlanClaims\<close>: \<open>plan_match\<close>
    and the batched summary of \<open>book.rs\<close>; the plan is what execution does, on every backend.
  \<^item> \<open>BookState\<close>, \<open>BookRestore\<close>: the version-3 state codec of \<open>book.rs\<close>. \<open>StateImage\<close>, \<open>StateScan\<close>,
    \<open>StateEncode\<close>, \<open>CacheInv\<close>, \<open>StateRestore\<close>, \<open>StateDecode\<close>, \<open>StateClaims\<close>: every reachable book has an image,
    and decoding it gives the same book.
  \<^item> \<open>Conditional\<close>, \<open>ConditionalLaws\<close> (locale \<open>id_set\<close>), \<open>ConditionalClaims\<close>, \<open>ConditionalOrders\<close>,
    \<open>ConditionalWire\<close>: \<open>conditional.rs\<close>; ticks over the indexes against a scan with \<open>try_fire\<close> over all entries,
    ownership, emission once per acknowledgement, errors, TWAP and trailing orders, the wire decoder.
  \<^item> \<open>Merkle\<close>, \<open>StateTree\<close>, \<open>LeafCodec\<close>: \<open>crypto/src/merkle.rs\<close>, \<open>state-tree/src/tree.rs\<close>,
    \<open>checkpoint.rs\<close>, \<open>leaf.rs\<close>; incremental roots, proofs and their soundness, leaf round trips.
  \<^item> \<open>Payout\<close>, \<open>Escrow\<close> (locale \<open>balance_book\<close>): \<open>markets/src/payout.rs\<close>, \<open>escrow.rs\<close>, the payout vectors of
    \<open>types/src/domain.rs\<close> and \<open>risk/src/scenario.rs\<close>; settlement and every run of the ledger conserve value.

  \<^bold>\<open>Scope of the book theorems.\<close> A book is reachable when commands with arguments of their types lead to it from
  \<open>OrderBook::new\<close>. \<open>config_addressable\<close> bounds the slab capacity by \<open>u32::MAX\<close>, the sentinel of slot
  indices, and the other two limits by \<open>u64::MAX\<close>; \<open>OrderBook::new\<close> itself accepts larger capacities. The
  decoding theorem is about images within the decoder's limits, and a state image is assumed to fit the address
  space. Two behaviours the comments of the code do not lead one to expect are part of the statements: a
  post-only order rests under every time in force, and the price of a market order is a collar when it is
  positive. They are proved on concrete books at the end of \<open>OrderKinds\<close>, with the rule that a taker stopped by
  self-trade prevention never rests.

  \<^bold>\<open>Not modelled.\<close> Formatting, serde derives and trait impls; allocation failure; the digest, compression and
  comparison kernels of \<open>simd\<close>; margin, liquidation and the market registry; and the crates around the core
  whose work is signatures, consensus, sockets, files, RPC or tooling.
\<close>

end
